theory Spec2Isabelle
  imports Main "HOL-Library.Word" "HOL-Library.Monad_Syntax"
begin

unbundle bit_operations_syntax

section \<open>Machine integers, arrays and loops\<close>

text \<open>
  The sketches are C++ for a microcontroller.  \<open>uint8_t\<close>, \<open>int16_t\<close> and \<open>uint32_t\<close>
  are words of that width: \<open>+\<close> and \<open>*\<close> wrap, \<open>unat\<close>/\<open>uint\<close> read a word unsigned and
  \<open>sint\<close> reads it in two's complement.  An \<open>int16_t\<close> sentinel \<open>-1\<close> is the word \<open>-1\<close>.
\<close>

type_synonym u8 = "8 word"
type_synonym i8 = "8 word"
type_synonym i16 = "16 word"
type_synonym u16 = "16 word"
type_synonym u32 = "32 word"

text \<open>
  A C array is a list.  Indexing outside the array is undefined behaviour in C++; the
  model makes it the value \<open>None\<close>, so that a function of the model returns \<open>Some\<close> only
  when every index it used was inside its array.
\<close>

definition rd :: "'a list \<Rightarrow> nat \<Rightarrow> 'a option" where
  "rd xs i = (if i < length xs then Some (xs ! i) else None)"

definition wr :: "'a list \<Rightarrow> nat \<Rightarrow> 'a \<Rightarrow> 'a list option" where
  "wr xs i v = (if i < length xs then Some (xs[i := v]) else None)"

text \<open>
  \<open>for (i = 0; i < n; ++i) body\<close> without \<open>break\<close>: the body runs for every index of the
  list in order, on the state the previous round left.
\<close>

primrec for_each :: "nat list \<Rightarrow> (nat \<Rightarrow> 's \<Rightarrow> 's option) \<Rightarrow> 's \<Rightarrow> 's option" where
  "for_each [] body s = Some s"
| "for_each (i # ks) body s =
     (case body i s of None \<Rightarrow> None | Some s' \<Rightarrow> for_each ks body s')"

section \<open>The fast-drops sketch (src/unnamed/part\_000)\<close>

subsection \<open>Configuration\<close>

abbreviation TERM_COLS :: nat where "TERM_COLS \<equiv> 80"
abbreviation TERM_ROWS :: nat where "TERM_ROWS \<equiv> 24"
abbreviation MAX_DROPS :: nat where "MAX_DROPS \<equiv> 25"
abbreviation MAX_TRAIL :: nat where "MAX_TRAIL \<equiv> 12"
abbreviation MAX_FAST :: nat where "MAX_FAST \<equiv> 12"
abbreviation SPAWN_CHANCE :: u32 where "SPAWN_CHANCE \<equiv> 35"
abbreviation SPAWN_FAST_CHANCE :: u32 where "SPAWN_FAST_CHANCE \<equiv> 18"

definition CHARSET :: string where
  "CHARSET = ''abcdefghijklmnopqrstuvwxyz0123456789@#$%&*()<>/'' @ [CHR 0x22]"

subsection \<open>State\<close>

record Drop =
  col :: u8
  head :: i16
  trail :: u8
  speed :: u8
  age :: u8
  rng :: u32
  boost :: u8

record FastDrop =
  active :: bool
  f_col :: u8
  f_row :: i16
  f_speed :: u8
  f_age :: u8
  f_rng :: u32

record state =
  drops :: "Drop list"
  column_occupied :: "bool list"
  global_rng :: u32
  fasts :: "FastDrop list"

text \<open>The arrays have the sizes of their declarations.\<close>

definition sized :: "'a state_scheme \<Rightarrow> bool" where
  "sized s \<longleftrightarrow> length (drops s) = MAX_DROPS \<and> length (column_occupied s) = TERM_COLS
     \<and> length (fasts s) = MAX_FAST"

subsection \<open>PRNG\<close>

definition splitmix32 :: "u32 \<Rightarrow> u32" where
  "splitmix32 x0 =
     (let x1 = x0 + 0x9e3779b9;
          x2 = (x1 XOR drop_bit 16 x1) * 0x85ebca6b;
          x3 = (x2 XOR drop_bit 13 x2) * 0xc2b2ae35
      in x3 XOR drop_bit 16 x3)"

definition pickChar :: "u32 \<Rightarrow> char" where
  "pickChar h = CHARSET ! unat (h mod 48)"

subsection \<open>Utilities\<close>

text \<open>\<open>findDropIndexInColumn\<close>: the index of the first active drop of a column, or \<open>-1\<close>.\<close>

primrec findDropIndexInColumn_loop :: "Drop list \<Rightarrow> u8 \<Rightarrow> nat list \<Rightarrow> int option" where
  "findDropIndexInColumn_loop ds c [] = Some (- 1)"
| "findDropIndexInColumn_loop ds c (i # ks) =
     do { d \<leftarrow> rd ds i;
          if head d \<noteq> - 1 \<and> col d = c then Some (int i)
          else findDropIndexInColumn_loop ds c ks }"

definition findDropIndexInColumn :: "Drop list \<Rightarrow> u8 \<Rightarrow> int option" where
  "findDropIndexInColumn ds c = findDropIndexInColumn_loop ds c [0..<MAX_DROPS]"

text \<open>\<open>(uint32_t)dist\<close> of an \<open>int16_t\<close> sign-extends.\<close>

definition charForDrop :: "Drop \<Rightarrow> i16 \<Rightarrow> char" where
  "charForDrop d dist = pickChar (splitmix32 (rng d + scast dist * 0x9e3779b1))"

definition charForFast :: "FastDrop \<Rightarrow> char" where
  "charForFast f = pickChar (splitmix32 (f_rng f))"

subsection \<open>Initialisation\<close>

definition setupState :: "state \<Rightarrow> state option" where
  "setupState s =
     do { ds \<leftarrow> for_each [0..<MAX_DROPS]
                  (\<lambda>i ds. do { d \<leftarrow> rd ds i; wr ds i (d\<lparr>head := - 1, boost := 0\<rparr>) }) (drops s);
          occ \<leftarrow> for_each [0..<TERM_COLS] (\<lambda>c occ. wr occ c False) (column_occupied s);
          fs \<leftarrow> for_each [0..<MAX_FAST]
                  (\<lambda>i fs. do { f \<leftarrow> rd fs i; wr fs i (f\<lparr>active := False\<rparr>) }) (fasts s);
          Some (s\<lparr>drops := ds, column_occupied := occ, fasts := fs\<rparr>) }"

text \<open>
  The globals before \<open>setup()\<close>: static storage is zero-initialised, \<open>global_rng\<close> has its
  initialiser.
\<close>

definition power_on :: state where
  "power_on = \<lparr> drops = replicate MAX_DROPS
                   \<lparr>col = 0, head = 0, trail = 0, speed = 0, age = 0, rng = 0, boost = 0\<rparr>,
                 column_occupied = replicate TERM_COLS False,
                 global_rng = 0xA5A5A5A5,
                 fasts = replicate MAX_FAST
                   \<lparr>active = False, f_col = 0, f_row = 0, f_speed = 0, f_age = 0, f_rng = 0\<rparr> \<rparr>"

subsection \<open>Spawn logic\<close>

primrec find_inactive_drop :: "Drop list \<Rightarrow> nat list \<Rightarrow> int option" where
  "find_inactive_drop ds [] = Some (- 1)"
| "find_inactive_drop ds (i # ks) =
     do { d \<leftarrow> rd ds i;
          if head d = - 1 then Some (int i) else find_inactive_drop ds ks }"

text \<open>The scan for a column whose flag equals \<open>want\<close>, from \<open>start_col\<close>, wrapping.\<close>

primrec find_col :: "bool list \<Rightarrow> bool \<Rightarrow> u8 \<Rightarrow> nat list \<Rightarrow> int option" where
  "find_col occ want start_col [] = Some (- 1)"
| "find_col occ want start_col (i # ks) =
     (let c = (unat start_col + i) mod TERM_COLS in
      do { b \<leftarrow> rd occ c;
           if b = want then Some (int c) else find_col occ want start_col ks })"

definition maybeSpawnDrop :: "state \<Rightarrow> state option" where
  "maybeSpawnDrop s0 =
     (let s1 = s0\<lparr>global_rng := splitmix32 (global_rng s0)\<rparr> in
      if global_rng s1 AND 0xFF > SPAWN_CHANCE then Some s1
      else do {
        idx \<leftarrow> find_inactive_drop (drops s1) [0..<MAX_DROPS];
        if idx = - 1 then Some s1
        else
          let s2 = s1\<lparr>global_rng := splitmix32 (global_rng s1)\<rparr>;
              start_col = (ucast (global_rng s2 mod 80) :: u8) in
          do {
            free_col \<leftarrow> find_col (column_occupied s2) False start_col [0..<TERM_COLS];
            if free_col = - 1 then Some s2
            else
              let s3 = s2\<lparr>global_rng := splitmix32 (global_rng s2)\<rparr>;
                  g = global_rng s3;
                  d = \<lparr> col = (word_of_int free_col :: u8), head = 0,
                        trail = ucast (g mod 10) + 3,
                        speed = ucast (drop_bit 8 g mod 5) + 1,
                        age = 0, rng = splitmix32 g, boost = 0 \<rparr> in
              do {
                ds \<leftarrow> wr (drops s3) (nat idx) d;
                occ \<leftarrow> wr (column_occupied s3) (unat (col d)) True;
                Some (s3\<lparr>drops := ds, column_occupied := occ\<rparr>)
              }
          }
      })"

primrec find_inactive_fast :: "FastDrop list \<Rightarrow> nat list \<Rightarrow> int option" where
  "find_inactive_fast fs [] = Some (- 1)"
| "find_inactive_fast fs (i # ks) =
     do { f \<leftarrow> rd fs i;
          if \<not> active f then Some (int i) else find_inactive_fast fs ks }"

definition maybeSpawnFastDrop :: "state \<Rightarrow> state option" where
  "maybeSpawnFastDrop s0 =
     (let s1 = s0\<lparr>global_rng := splitmix32 (global_rng s0)\<rparr> in
      if global_rng s1 AND 0xFF > SPAWN_FAST_CHANCE then Some s1
      else
        let s2 = s1\<lparr>global_rng := splitmix32 (global_rng s1)\<rparr>;
            start_col = (ucast (global_rng s2 mod 80) :: u8) in
        do {
          col_with_drop \<leftarrow> find_col (column_occupied s2) True start_col [0..<TERM_COLS];
          if col_with_drop = - 1 then Some s2
          else do {
            fidx \<leftarrow> find_inactive_fast (fasts s2) [0..<MAX_FAST];
            if fidx = - 1 then Some s2
            else
              let g = global_rng s2;
                  f = \<lparr> active = True, f_col = (word_of_int col_with_drop :: u8), f_row = 0,
                        f_speed = (if drop_bit 8 g mod 2 = 0 then 1 else 1),
                        f_age = 0, f_rng = splitmix32 g \<rparr> in
              do { fs \<leftarrow> wr (fasts s2) (nat fidx) f;
                   Some (s2\<lparr>fasts := fs\<rparr>) }
          }
        })"

subsection \<open>Steppers\<close>

text \<open>
  One round of the loop of \<open>stepDrops\<close> on the drop itself: \<open>age++\<close>, and when the age has
  reached the speed, the head moves down one row and the RNG rolls.
\<close>

definition advance :: "Drop \<Rightarrow> Drop" where
  "advance d0 =
     (let d1 = d0\<lparr>age := age d0 + 1\<rparr> in
      if age d1 \<ge> speed d1 then
        let d2 = d1\<lparr>age := 0, head := head d1 + 1, rng := splitmix32 (rng d1)\<rparr>;
            d3 = (if boost d2 \<noteq> 0
                  then d2\<lparr>rng := (splitmix32 ^^ (if boost d2 > 4 then 3 else 1)) (rng d2)\<rparr>
                  else d2)
        in (if boost d3 \<noteq> 0
            then d3\<lparr>boost := (if boost d3 > 0 then boost d3 - 1 else 0)\<rparr> else d3)
      else d1)"

text \<open>
  \<open>d.head - (int16_t)(d.trail - 1) >= (int16_t)TERM_ROWS\<close> is computed in \<open>int\<close>; the model
  uses the integers.
\<close>

definition trail_passed :: "Drop \<Rightarrow> bool" where
  "trail_passed d \<longleftrightarrow> sint (head d) - (uint (trail d) - 1) \<ge> int TERM_ROWS"

definition stepDrops_body :: "nat \<Rightarrow> state \<Rightarrow> state option" where
  "stepDrops_body i s =
     do { d0 \<leftarrow> rd (drops s) i;
          if head d0 = - 1 then Some s
          else
            let d = advance d0 in
            if trail_passed d then
              do { occ \<leftarrow> wr (column_occupied s) (unat (col d)) False;
                   ds \<leftarrow> wr (drops s) i (d\<lparr>head := - 1, boost := 0\<rparr>);
                   Some (s\<lparr>drops := ds, column_occupied := occ\<rparr>) }
            else
              do { ds \<leftarrow> wr (drops s) i d;
                   Some (s\<lparr>drops := ds\<rparr>) } }"

definition stepDrops :: "state \<Rightarrow> state option" where
  "stepDrops s = for_each [0..<MAX_DROPS] stepDrops_body s"

text \<open>
  The crawling drop a fast drop meets: \<open>bottom\<close> is an \<open>int16_t\<close>, the comparisons of
  \<open>int16_t\<close> values are signed.
\<close>

definition fast_hits :: "Drop \<Rightarrow> i16 \<Rightarrow> Drop \<times> bool" where
  "fast_hits d0 row =
     (let bottom = head d0 - (ucast (trail d0) - 1);
          d1 = (if sint row \<ge> sint bottom \<and> sint row \<le> sint (head d0)
                then d0\<lparr>rng := splitmix32 (rng d0)\<rparr> else d0)
      in if sint row \<ge> sint (head d1)
         then (d1\<lparr>boost := (if boost d1 < 4 then 4 else boost d1),
                   rng := splitmix32 (splitmix32 (rng d1))\<rparr>, True)
         else (d1, False))"

definition stepFastDrops_body :: "nat \<Rightarrow> state \<Rightarrow> state option" where
  "stepFastDrops_body i s =
     do { f0 \<leftarrow> rd (fasts s) i;
          if \<not> active f0 then Some s
          else
            let f1 = f0\<lparr>f_age := f_age f0 + 1\<rparr> in
            if f_age f1 \<ge> f_speed f1 then
              let f2 = f1\<lparr>f_age := 0, f_row := f_row f1 + 1\<rparr> in
              if sint (f_row f2) \<ge> int TERM_ROWS then
                do { fs \<leftarrow> wr (fasts s) i (f2\<lparr>active := False\<rparr>);
                     Some (s\<lparr>fasts := fs\<rparr>) }
              else
                do { di \<leftarrow> findDropIndexInColumn (drops s) (f_col f2);
                     if di \<noteq> - 1 then
                       do { d \<leftarrow> rd (drops s) (nat di);
                            let (d', landed) = fast_hits d (f_row f2);
                            ds \<leftarrow> wr (drops s) (nat di) d';
                            fs \<leftarrow> wr (fasts s) i (if landed then f2\<lparr>active := False\<rparr> else f2);
                            Some (s\<lparr>drops := ds, fasts := fs\<rparr>) }
                     else
                       do { fs \<leftarrow> wr (fasts s) i f2;
                            Some (s\<lparr>fasts := fs\<rparr>) } }
            else
              do { fs \<leftarrow> wr (fasts s) i f1;
                   Some (s\<lparr>fasts := fs\<rparr>) } }"

definition stepFastDrops :: "state \<Rightarrow> state option" where
  "stepFastDrops s = for_each [0..<MAX_FAST] stepFastDrops_body s"

subsection \<open>Render\<close>

text \<open>
  What the sketch writes to \<open>Serial\<close>, one event for each call: the cursor-home
  sequence, a call of \<open>term_set_color\<close>, a cell's character, the row terminator and the
  final \<open>term_reset_color\<close>.  \<open>bytes\<close> gives the bytes of an event.
\<close>

datatype serial = Home | SetColor u8 | Glyph char | CrLf | ResetColor

abbreviation ESC :: char where "ESC \<equiv> CHR 0x1B"

definition term_set_color :: "u8 \<Rightarrow> string" where
  "term_set_color bright =
     (if bright = 4 then ESC # ''[97;1m''
      else if bright = 3 then ESC # ''[97;1m''
      else if bright = 2 then ESC # ''[32;1m''
      else if bright = 1 then ESC # ''[32m''
      else ESC # ''[90m'')"

fun bytes :: "serial \<Rightarrow> string" where
  "bytes Home = ESC # ''[H''"
| "bytes (SetColor b) = term_set_color b"
| "bytes (Glyph ch) = [ch]"
| "bytes CrLf = [CHR 0x0D, CHR 0x0A]"
| "bytes ResetColor = ESC # ''[0m''"

text \<open>The two inner loops of a cell give brightness, character and \<open>painted\<close>.\<close>

primrec paint_fast :: "FastDrop list \<Rightarrow> nat \<Rightarrow> nat \<Rightarrow> nat list \<Rightarrow> (u8 \<times> char \<times> bool) option" where
  "paint_fast fs r c [] = Some (0, CHR '' '', False)"
| "paint_fast fs r c (fi # ks) =
     do { f \<leftarrow> rd fs fi;
          if \<not> active f \<or> f_col f \<noteq> of_nat c then paint_fast fs r c ks
          else if f_row f = of_nat r then Some (4, charForFast f, True)
          else paint_fast fs r c ks }"

definition trail_brightness :: "Drop \<Rightarrow> i16 \<Rightarrow> u8" where
  "trail_brightness d dist =
     (if dist = 0 then (if boost d \<noteq> 0 then 4 else 3)
      else if sint dist < 4 then ucast (3 - dist)
      else 1)"

primrec paint_drop :: "Drop list \<Rightarrow> nat \<Rightarrow> nat \<Rightarrow> nat list \<Rightarrow> (u8 \<times> char \<times> bool) option" where
  "paint_drop ds r c [] = Some (0, CHR '' '', False)"
| "paint_drop ds r c (di # ks) =
     do { d \<leftarrow> rd ds di;
          if head d = - 1 \<or> col d \<noteq> of_nat c then paint_drop ds r c ks
          else
            let dist = head d - of_nat r in
            if sint dist \<ge> 0 \<and> sint dist < uint (trail d)
            then Some (trail_brightness d dist, charForDrop d dist, True)
            else paint_drop ds r c ks }"

definition cell :: "state \<Rightarrow> nat \<Rightarrow> nat \<Rightarrow> (u8 \<times> char) option" where
  "cell s r c =
     do { (b, ch, painted) \<leftarrow> paint_fast (fasts s) r c [0..<MAX_FAST];
          if painted then Some (b, ch)
          else
            do { occ \<leftarrow> rd (column_occupied s) c;
                 if occ then
                   do { (b', ch', painted') \<leftarrow> paint_drop (drops s) r c [0..<MAX_DROPS];
                        Some (b', ch') }
                 else Some (b, ch) } }"

text \<open>The loop state of \<open>renderFrame\<close>: what was written, and \<open>last_brightness\<close>.\<close>

definition render_cell :: "state \<Rightarrow> nat \<Rightarrow> nat \<Rightarrow> serial list \<times> u8 \<Rightarrow> (serial list \<times> u8) option" where
  "render_cell s r c st =
     do { (b, ch) \<leftarrow> cell s r c;
          let (out, last_brightness) = st;
          let (out', last') = (if b \<noteq> last_brightness then (out @ [SetColor b], b)
                               else (out, last_brightness));
          Some (out' @ [Glyph ch], last') }"

definition render_row :: "state \<Rightarrow> nat \<Rightarrow> serial list \<times> u8 \<Rightarrow> (serial list \<times> u8) option" where
  "render_row s r st =
     do { (out, last_brightness) \<leftarrow> for_each [0..<TERM_COLS] (render_cell s r) st;
          Some (if r < TERM_ROWS - 1 then (out @ [CrLf], last_brightness)
                else (out, last_brightness)) }"

definition renderFrame :: "state \<Rightarrow> u32 \<Rightarrow> serial list option" where
  "renderFrame s salt =
     do { (out, last_brightness) \<leftarrow> for_each [0..<TERM_ROWS] (render_row s) ([Home], 255);
          Some (out @ [ResetColor]) }"

subsection \<open>Runs\<close>

text \<open>
  \<open>loop()\<close> calls the four operations in a fixed order; a run is any sequence of them,
  stopping at the first undefined behaviour.
\<close>

datatype operation = SpawnDrop | SpawnFastDrop | StepDrops | StepFastDrops

fun apply_operation :: "operation \<Rightarrow> state \<Rightarrow> state option" where
  "apply_operation SpawnDrop s = maybeSpawnDrop s"
| "apply_operation SpawnFastDrop s = maybeSpawnFastDrop s"
| "apply_operation StepDrops s = stepDrops s"
| "apply_operation StepFastDrops s = stepFastDrops s"

primrec run :: "operation list \<Rightarrow> state \<Rightarrow> state option" where
  "run [] s = Some s"
| "run (x # xs) s = (case apply_operation x s of None \<Rightarrow> None | Some s' \<Rightarrow> run xs s')"

section \<open>Predicates on states of the fast-drops sketch\<close>

text \<open>
  An active drop is in a column of the terminal, its head is at a row from 0 on, and its
  trail has not yet passed the bottom.
\<close>

definition drop_ok :: "Drop \<Rightarrow> bool" where
  "drop_ok d \<longleftrightarrow> (head d \<noteq> - 1 \<longrightarrow>
      unat (col d) < TERM_COLS \<and> 0 \<le> sint (head d) \<and> sint (head d) \<le> 22 + uint (trail d))"

text \<open>
  The occupancy invariant: two active drops never share a column, and a column's flag is
  set exactly when an active drop has the column.
\<close>

definition occupancy_inv :: "state \<Rightarrow> bool" where
  "occupancy_inv s \<longleftrightarrow> sized s
     \<and> (\<forall>i<MAX_DROPS. drop_ok (drops s ! i))
     \<and> (\<forall>i<MAX_DROPS. \<forall>j<MAX_DROPS. head (drops s ! i) \<noteq> - 1 \<and> head (drops s ! j) \<noteq> - 1
            \<and> unat (col (drops s ! i)) = unat (col (drops s ! j)) \<longrightarrow> i = j)
     \<and> (\<forall>c<TERM_COLS. column_occupied s ! c \<longleftrightarrow>
            (\<exists>i<MAX_DROPS. head (drops s ! i) \<noteq> - 1 \<and> unat (col (drops s ! i)) = c))"

text \<open>The number of active drops of a column.\<close>

definition active_in_column :: "Drop list \<Rightarrow> nat \<Rightarrow> nat" where
  "active_in_column ds c = length (filter (\<lambda>d. head d \<noteq> - 1 \<and> unat (col d) = c) ds)"

text \<open>Every active fast drop is on a row of the terminal.\<close>

definition fast_rows_ok :: "FastDrop list \<Rightarrow> bool" where
  "fast_rows_ok fs \<longleftrightarrow> (\<forall>f\<in>set fs. active f \<longrightarrow>
      0 \<le> sint (f_row f) \<and> sint (f_row f) < int TERM_ROWS)"

text \<open>What one call of \<open>stepDrops\<close> does to a single drop.\<close>

definition step_drop :: "Drop \<Rightarrow> Drop" where
  "step_drop d =
     (if head d = - 1 then d
      else let d' = advance d in
           if trail_passed d' then d'\<lparr>head := - 1, boost := 0\<rparr> else d')"

text \<open>The invariant of every run: occupancy, and fast drops on the screen.\<close>

definition state_inv :: "state \<Rightarrow> bool" where
  "state_inv s \<longleftrightarrow> occupancy_inv s \<and> fast_rows_ok (fasts s)"

text \<open>
  When a spawn goes through: the roll passes, a slot is inactive and a column is free (for
  a fast drop: a column is occupied and a fast slot is inactive); and what it changes.
\<close>

definition drop_spawn_due :: "state \<Rightarrow> bool" where
  "drop_spawn_due s \<longleftrightarrow> splitmix32 (global_rng s) AND 0xFF \<le> SPAWN_CHANCE
         \<and> (\<exists>i<MAX_DROPS. head (drops s ! i) = - 1)
         \<and> (\<exists>c<TERM_COLS. \<not> column_occupied s ! c)"

definition spawns_drop :: "state \<Rightarrow> state \<Rightarrow> bool" where
  "spawns_drop s s' \<longleftrightarrow>
     (\<exists>i c d. i < MAX_DROPS \<and> head (drops s ! i) = - 1 \<and> c < TERM_COLS
             \<and> \<not> column_occupied s ! c \<and> unat (col d) = c \<and> head d = 0
             \<and> 3 \<le> unat (trail d) \<and> unat (trail d) \<le> MAX_TRAIL
             \<and> 1 \<le> unat (speed d) \<and> unat (speed d) \<le> 5 \<and> age d = 0 \<and> boost d = 0
             \<and> drops s' = (drops s)[i := d]
             \<and> column_occupied s' = (column_occupied s)[c := True])"

definition fast_spawn_due :: "state \<Rightarrow> bool" where
  "fast_spawn_due s \<longleftrightarrow> splitmix32 (global_rng s) AND 0xFF \<le> SPAWN_FAST_CHANCE
         \<and> (\<exists>c<TERM_COLS. column_occupied s ! c)
         \<and> (\<exists>i<MAX_FAST. \<not> active (fasts s ! i))"

definition spawns_fast :: "state \<Rightarrow> state \<Rightarrow> bool" where
  "spawns_fast s s' \<longleftrightarrow>
     (\<exists>i c f. i < MAX_FAST \<and> \<not> active (fasts s ! i) \<and> c < TERM_COLS
             \<and> column_occupied s ! c \<and> unat (f_col f) = c \<and> f_row f = 0 \<and> active f
             \<and> f_speed f = 1 \<and> f_age f = 0
             \<and> fasts s' = (fasts s)[i := f])"

text \<open>A number of calls of a stepper in a row, stopping at undefined behaviour.\<close>

primrec repeat_step :: "nat \<Rightarrow> ('s \<Rightarrow> 's option) \<Rightarrow> 's \<Rightarrow> 's option" where
  "repeat_step 0 f s = Some s"
| "repeat_step (Suc n) f s = (case repeat_step n f s of None \<Rightarrow> None | Some s' \<Rightarrow> f s')"

text \<open>A state in which no drop but number \<open>i\<close> is active.\<close>

definition lone :: "nat \<Rightarrow> state \<Rightarrow> bool" where
  "lone i s \<longleftrightarrow> sized s \<and> i < MAX_DROPS \<and> (\<forall>j<MAX_DROPS. j \<noteq> i \<longrightarrow> head (drops s ! j) = - 1)"

text \<open>The lone drop \<open>i\<close> falls one row with every call while its trail is on the screen.\<close>

definition falling :: "nat \<Rightarrow> u8 \<Rightarrow> u8 \<Rightarrow> nat \<Rightarrow> state \<Rightarrow> bool" where
  "falling i c t k s \<longleftrightarrow> lone i s \<and> sint (head (drops s ! i)) = int k \<and> age (drops s ! i) = 0
     \<and> speed (drops s ! i) = 1 \<and> col (drops s ! i) = c \<and> trail (drops s ! i) = t
     \<and> column_occupied s ! unat c"

definition gone :: "nat \<Rightarrow> u8 \<Rightarrow> state \<Rightarrow> bool" where
  "gone i c s \<longleftrightarrow> lone i s \<and> head (drops s ! i) = - 1 \<and> \<not> column_occupied s ! unat c"

section \<open>The per-column sketch (src/Arduino\_rain\_opt.ino)\<close>

text \<open>
  The older sketch keeps one \<open>Column\<close> for each terminal column; its head is an
  \<open>int8_t\<close>.  \<open>TERM_COLS\<close> is 60 here, \<open>TERM_ROWS\<close> is 24.
\<close>

abbreviation OPT_TERM_COLS :: nat where "OPT_TERM_COLS \<equiv> 60"

record Column =
  c_head :: i8
  c_trail :: u8
  c_speed :: u8
  c_age :: u8
  c_rng :: u32

text \<open>
  One round of the loop of \<open>stepColumns\<close>.  \<open>col.head >= TERM_ROWS + col.trail\<close> is a
  comparison of \<open>int\<close>s.  Past the bottom the column either goes inactive or starts again
  from row 0, by the next random number.
\<close>

definition step_column :: "Column \<Rightarrow> Column" where
  "step_column c0 =
     (if c_head c0 \<noteq> - 1 then
        let c1 = c0\<lparr>c_age := c_age c0 + 1\<rparr> in
        if c_age c1 \<ge> c_speed c1 then
          let c2 = c1\<lparr>c_age := 0, c_head := c_head c1 + 1\<rparr> in
          if sint (c_head c2) \<ge> int TERM_ROWS + uint (c_trail c2) then
            let c3 = c2\<lparr>c_rng := splitmix32 (c_rng c2)\<rparr> in
            if c_rng c3 AND 0x7F < 48 then c3\<lparr>c_head := - 1\<rparr> else c3\<lparr>c_head := 0\<rparr>
          else c2
        else c1
      else c0)"

definition stepColumns :: "Column list \<Rightarrow> Column list option" where
  "stepColumns cols =
     for_each [0..<OPT_TERM_COLS]
       (\<lambda>c cols. do { x \<leftarrow> rd cols c; wr cols c (step_column x) }) cols"

text \<open>
  \<open>setupColumns\<close> seeds every column from \<open>micros()\<close>, which it reads once for each
  column: \<open>micros c\<close> is the reading of round \<open>c\<close>.  It writes every field, so what the
  array held before does not matter.  \<open>MAX_TRAIL\<close> is \<open>min(TERM_ROWS, 12) = 12\<close>.
\<close>

definition setup_column :: "u32 \<Rightarrow> nat \<Rightarrow> Column" where
  "setup_column m c =
     (let seed = m XOR (of_nat c * 0x9e3779b1);
          r0 = splitmix32 seed;
          r1 = splitmix32 r0;
          r2 = splitmix32 r1 in
      \<lparr>c_head = - 1, c_trail = ucast (r1 mod 10) + 3, c_speed = ucast (r2 mod 5) + 1,
       c_age = 0, c_rng = r2\<rparr>)"

definition setupColumns :: "(nat \<Rightarrow> u32) \<Rightarrow> Column list \<Rightarrow> Column list option" where
  "setupColumns micros cols =
     for_each [0..<OPT_TERM_COLS] (\<lambda>c cols. wr cols c (setup_column (micros c) c)) cols"

text \<open>One round of the loop of \<open>maybeSpawnHeads\<close>: an inactive column rolls its RNG.\<close>

definition spawn_head :: "Column \<Rightarrow> Column" where
  "spawn_head c0 =
     (if c_head c0 = - 1 then
        let v = splitmix32 (c_rng c0);
            c1 = c0\<lparr>c_rng := v\<rparr> in
        if v AND 0xFF < 24
        then c1\<lparr>c_head := 0, c_trail := ucast (v mod 10) + 3,
                c_speed := ucast (drop_bit 8 v mod 5) + 1, c_age := 0\<rparr>
        else c1
      else c0)"

definition maybeSpawnHeads :: "Column list \<Rightarrow> Column list option" where
  "maybeSpawnHeads cols =
     for_each [0..<OPT_TERM_COLS]
       (\<lambda>c cols. do { x \<leftarrow> rd cols c; wr cols c (spawn_head x) }) cols"

text \<open>\<open>loop()\<close> calls \<open>maybeSpawnHeads\<close>, then \<open>stepColumns\<close>; a run is any sequence of the two.\<close>

datatype opt_operation = SpawnHeads | StepColumns

fun apply_opt_operation :: "opt_operation \<Rightarrow> Column list \<Rightarrow> Column list option" where
  "apply_opt_operation SpawnHeads cols = maybeSpawnHeads cols"
| "apply_opt_operation StepColumns cols = stepColumns cols"

primrec run_opt :: "opt_operation list \<Rightarrow> Column list \<Rightarrow> Column list option" where
  "run_opt [] cols = Some cols"
| "run_opt (x # xs) cols =
     (case apply_opt_operation x cols of None \<Rightarrow> None | Some cols' \<Rightarrow> run_opt xs cols')"

text \<open>What a run does to one column.\<close>

fun apply_opt_column :: "opt_operation \<Rightarrow> Column \<Rightarrow> Column" where
  "apply_opt_column SpawnHeads x = spawn_head x"
| "apply_opt_column StepColumns x = step_column x"

primrec run_column :: "opt_operation list \<Rightarrow> Column \<Rightarrow> Column" where
  "run_column [] x = x"
| "run_column (op # ops) x = run_column ops (apply_opt_column op x)"

text \<open>
  What holds of every column of a run: the trail is between 3 and \<open>MAX_TRAIL\<close>, the head
  is the sentinel or a row above \<open>TERM_ROWS + trail\<close>.
\<close>

definition column_ok :: "Column \<Rightarrow> bool" where
  "column_ok x \<longleftrightarrow> 3 \<le> unat (c_trail x) \<and> unat (c_trail x) \<le> MAX_TRAIL
     \<and> - 1 \<le> sint (c_head x) \<and> sint (c_head x) < int TERM_ROWS + uint (c_trail x)"

definition brightnessFor :: "Column list \<Rightarrow> nat \<Rightarrow> nat \<Rightarrow> u8 option" where
  "brightnessFor cols c r =
     do { x \<leftarrow> rd cols c;
          if c_head x = - 1 then Some 0
          else
            let dist = sint (c_head x) - int r in
            if dist < 0 \<or> dist > uint (c_trail x) then Some 0
            else if dist = 0 then Some 3
            else if dist = 1 then Some 2
            else if dist = 2 then Some 1
            else Some 1 }"

definition charFor :: "nat \<Rightarrow> nat \<Rightarrow> u32 \<Rightarrow> char" where
  "charFor c r salt = pickChar (splitmix32 (of_nat c * 0x9e3779b1 + of_nat r * 0x85ebca6b + salt))"

text \<open>
  \<open>renderFrame\<close> of this sketch sets the colour before every cell and resets it after;
  a row ends with a line feed.
\<close>

datatype serial_opt = OHome | OSetColor u8 | OGlyph char | OResetColor | OLf

definition term_set_color_opt :: "u8 \<Rightarrow> string" where
  "term_set_color_opt bright =
     (if bright = 3 then CHR 0x1B # ''[97;1m''
      else if bright = 2 then CHR 0x1B # ''[32;1m''
      else if bright = 1 then CHR 0x1B # ''[32m''
      else CHR 0x1B # ''[90m'')"

fun bytes_opt :: "serial_opt \<Rightarrow> string" where
  "bytes_opt OHome = CHR 0x1B # ''[H''"
| "bytes_opt (OSetColor b) = term_set_color_opt b"
| "bytes_opt (OGlyph ch) = [ch]"
| "bytes_opt OResetColor = CHR 0x1B # ''[0m''"
| "bytes_opt OLf = [CHR 0x0A]"

definition render_cell_opt :: "Column list \<Rightarrow> u32 \<Rightarrow> nat \<Rightarrow> nat \<Rightarrow> serial_opt list
    \<Rightarrow> serial_opt list option" where
  "render_cell_opt cols salt r c out =
     do { b \<leftarrow> brightnessFor cols c r;
          let ch = (if b = 0 then CHR '' '' else charFor c r (salt + push_bit 8 (of_nat r)));
          Some (out @ [OSetColor b, OGlyph ch, OResetColor]) }"

definition render_row_opt :: "Column list \<Rightarrow> u32 \<Rightarrow> nat \<Rightarrow> serial_opt list
    \<Rightarrow> serial_opt list option" where
  "render_row_opt cols salt r out =
     do { out' \<leftarrow> for_each [0..<OPT_TERM_COLS] (render_cell_opt cols salt r) out;
          Some (out' @ [OLf]) }"

definition renderFrame_opt :: "Column list \<Rightarrow> u32 \<Rightarrow> serial_opt list option" where
  "renderFrame_opt cols salt = for_each [0..<TERM_ROWS] (render_row_opt cols salt) [OHome]"

section \<open>Reading a rendered frame\<close>

text \<open>
  The cells of a frame in scan order, what \<open>renderFrame\<close> computes for a cell, and the
  colours and characters of a list of events.
\<close>

definition scan_order :: "(nat \<times> nat) list" where
  "scan_order = concat (map (\<lambda>r. map (\<lambda>c. (r, c)) [0..<TERM_COLS]) [0..<TERM_ROWS])"

definition cell_value :: "state \<Rightarrow> nat \<times> nat \<Rightarrow> u8 \<times> char" where
  "cell_value s rc = (case cell s (fst rc) (snd rc) of Some x \<Rightarrow> x | None \<Rightarrow> (0, CHR '' ''))"

primrec colors_of :: "serial list \<Rightarrow> u8 list" where
  "colors_of [] = []"
| "colors_of (e # es) = (case e of SetColor b \<Rightarrow> b # colors_of es | _ \<Rightarrow> colors_of es)"

primrec glyphs_of :: "serial list \<Rightarrow> char list" where
  "glyphs_of [] = []"
| "glyphs_of (e # es) = (case e of Glyph ch \<Rightarrow> ch # glyphs_of es | _ \<Rightarrow> glyphs_of es)"

text \<open>
  The colour changes of a run of cells, as the specification words them: a colour is set
  for a cell only when its brightness differs from that of the cell before it, the first
  cell being compared with \<open>prev\<close>.
\<close>

primrec color_changes :: "u8 \<Rightarrow> u8 list \<Rightarrow> u8 list" where
  "color_changes prev [] = []"
| "color_changes prev (b # bs) =
     (if b \<noteq> prev then b # color_changes b bs else color_changes b bs)"

text \<open>What the loop over the cells writes for a run of cells.\<close>

primrec emit :: "u8 \<Rightarrow> (u8 \<times> char) list \<Rightarrow> serial list" where
  "emit prev [] = []"
| "emit prev (x # xs) =
     (if fst x \<noteq> prev then [SetColor (fst x)] else []) @ [Glyph (snd x)] @ emit (fst x) xs"

text \<open>The same for the per-column sketch.\<close>

primrec colors_of_opt :: "serial_opt list \<Rightarrow> u8 list" where
  "colors_of_opt [] = []"
| "colors_of_opt (e # es) = (case e of OSetColor b \<Rightarrow> b # colors_of_opt es | _ \<Rightarrow> colors_of_opt es)"

primrec glyphs_of_opt :: "serial_opt list \<Rightarrow> char list" where
  "glyphs_of_opt [] = []"
| "glyphs_of_opt (e # es) = (case e of OGlyph ch \<Rightarrow> ch # glyphs_of_opt es | _ \<Rightarrow> glyphs_of_opt es)"

text \<open>
  A whole frame of the fast-drops sketch as the specification words it: the cursor is
  homed once, the cells follow in scan order, each preceded by a colour escape exactly
  when its brightness differs from that of the cell before it (the first cell is compared
  with 255, and the comparison runs on across the ends of rows), every row but the last
  ends with CR LF, and the colour is reset at the end.  \<open>cells r\<close> are the cells of row
  \<open>r\<close>.
\<close>

primrec frame_rows :: "(nat \<Rightarrow> (u8 \<times> char) list) \<Rightarrow> u8 \<Rightarrow> nat list \<Rightarrow> serial list" where
  "frame_rows cells prev [] = []"
| "frame_rows cells prev (r # rs) =
     emit prev (cells r) @ (if r < TERM_ROWS - 1 then [CrLf] else [])
       @ frame_rows cells (List.last (prev # map fst (cells r))) rs"

definition row_cells :: "state \<Rightarrow> nat \<Rightarrow> (u8 \<times> char) list" where
  "row_cells s r = map (\<lambda>c. cell_value s (r, c)) [0..<TERM_COLS]"

definition expected_frame :: "state \<Rightarrow> serial list" where
  "expected_frame s = Home # frame_rows (row_cells s) 255 [0..<TERM_ROWS] @ [ResetColor]"

text \<open>
  A frame of the per-column sketch: every cell is its colour escape, its character and a
  colour reset, and every row ends with a line feed.
\<close>

definition cell_value_opt :: "Column list \<Rightarrow> u32 \<Rightarrow> nat \<times> nat \<Rightarrow> u8 \<times> char" where
  "cell_value_opt cols salt rc =
     (case brightnessFor cols (snd rc) (fst rc) of
        Some b \<Rightarrow> (b, if b = 0 then CHR '' ''
                      else charFor (snd rc) (fst rc) (salt + push_bit 8 (of_nat (fst rc))))
      | None \<Rightarrow> (0, CHR '' ''))"

definition cell_events_opt :: "u8 \<times> char \<Rightarrow> serial_opt list" where
  "cell_events_opt x = [OSetColor (fst x), OGlyph (snd x), OResetColor]"

definition expected_frame_opt :: "Column list \<Rightarrow> u32 \<Rightarrow> serial_opt list" where
  "expected_frame_opt cols salt =
     OHome # concat (map (\<lambda>r. concat (map (\<lambda>c. cell_events_opt (cell_value_opt cols salt (r, c)))
                                      [0..<OPT_TERM_COLS]) @ [OLf]) [0..<TERM_ROWS])"

section \<open>Packed brightness: two bits for each trail slot\<close>

text \<open>
  \<open>drop_bright_packed[MAX_DROPS][BRIGHT_BYTES_PER_DROP + 1]\<close> holds four bytes for each
  drop.  The three sketches that have it read and write a slot in two ways: by the byte
  (\<open>vectorized.ino\<close>) and through a 16-bit window (\<open>part_001\<close>, \<open>basic_colorized.ino\<close>).
\<close>

abbreviation BRIGHT_BYTES_PER_DROP :: nat where "BRIGHT_BYTES_PER_DROP \<equiv> (MAX_TRAIL * 2 + 7) div 8"

definition rd2 :: "'a list list \<Rightarrow> nat \<Rightarrow> nat \<Rightarrow> 'a option" where
  "rd2 m i j = do { row \<leftarrow> rd m i; rd row j }"

definition wr2 :: "'a list list \<Rightarrow> nat \<Rightarrow> nat \<Rightarrow> 'a \<Rightarrow> 'a list list option" where
  "wr2 m i j v = do { row \<leftarrow> rd m i; row' \<leftarrow> wr row j v; wr m i row' }"

subsection \<open>src/tested/vectorized.ino\<close>

definition get_bright_slot_vec :: "u8 list list \<Rightarrow> u8 \<Rightarrow> u8 \<Rightarrow> u8 option" where
  "get_bright_slot_vec packed drop_idx slot =
     (let bitpos = (ucast slot :: u16) * 2;
          byteIdx = (ucast (drop_bit 3 bitpos) :: u8);
          bitOff = (ucast (bitpos AND 7) :: u8) in
      do { b \<leftarrow> rd2 packed (unat drop_idx) (unat byteIdx);
           let v = drop_bit (unat bitOff) (ucast b :: u16);
           if bitOff \<le> 6 then Some (ucast (v AND 3))
           else
             do { next \<leftarrow> rd2 packed (unat drop_idx) (unat byteIdx + 1);
                  let v' = v OR push_bit (8 - unat bitOff) (ucast next :: u16);
                  Some (ucast (v' AND 3)) } })"

definition set_bright_slot_vec :: "u8 list list \<Rightarrow> u8 \<Rightarrow> u8 \<Rightarrow> u8 \<Rightarrow> u8 list list option" where
  "set_bright_slot_vec packed drop_idx slot val0 =
     (let val = val0 AND 3;
          bitpos = (ucast slot :: u16) * 2;
          byteIdx = (ucast (drop_bit 3 bitpos) :: u8);
          bitOff = (ucast (bitpos AND 7) :: u8) in
      if bitOff \<le> 6 then
        let mask = (push_bit (unat bitOff) 3 :: u8) in
        do { b \<leftarrow> rd2 packed (unat drop_idx) (unat byteIdx);
             wr2 packed (unat drop_idx) (unat byteIdx)
               ((b AND NOT mask) OR push_bit (unat bitOff) val) }
      else
        let low_mask = (push_bit 7 1 :: u8); high_mask = (1 :: u8) in
        do { b \<leftarrow> rd2 packed (unat drop_idx) (unat byteIdx);
             p1 \<leftarrow> wr2 packed (unat drop_idx) (unat byteIdx)
                    ((b AND NOT low_mask) OR push_bit 7 (val AND 1));
             n \<leftarrow> rd2 p1 (unat drop_idx) (unat byteIdx + 1);
             wr2 p1 (unat drop_idx) (unat byteIdx + 1)
               ((n AND NOT high_mask) OR (drop_bit 1 val AND 1)) })"

subsection \<open>src/unnamed/part\_001\<close>

definition get_bright_slot_fix :: "u8 list list \<Rightarrow> u8 \<Rightarrow> u8 \<Rightarrow> u8 option" where
  "get_bright_slot_fix packed drop_idx slot =
     (let bitpos = (ucast slot :: u16) * 2;
          byteIdx = (ucast (bitpos div 8) :: u8);
          bitOff = (ucast (bitpos mod 8) :: u8) in
      do { lo \<leftarrow> rd2 packed (unat drop_idx) (unat byteIdx);
           hi \<leftarrow> rd2 packed (unat drop_idx) (unat byteIdx + 1);
           let val = (ucast lo :: u16) OR push_bit 8 (ucast hi :: u16);
           Some (ucast (drop_bit (unat bitOff) val AND 3)) })"

definition set_bright_slot_fix :: "u8 list list \<Rightarrow> u8 \<Rightarrow> u8 \<Rightarrow> u8 \<Rightarrow> u8 list list option" where
  "set_bright_slot_fix packed drop_idx slot val0 =
     (let val = val0 AND 3;
          bitpos = (ucast slot :: u16) * 2;
          byteIdx = (ucast (bitpos div 8) :: u8);
          bitOff = (ucast (bitpos mod 8) :: u8);
          mask = (NOT (push_bit (unat bitOff) 3) :: u16) in
      do { lo \<leftarrow> rd2 packed (unat drop_idx) (unat byteIdx);
           hi \<leftarrow> rd2 packed (unat drop_idx) (unat byteIdx + 1);
           let data0 = (ucast lo :: u16) OR push_bit 8 (ucast hi :: u16);
           let data = (data0 AND mask) OR push_bit (unat bitOff) (ucast val :: u16);
           p1 \<leftarrow> wr2 packed (unat drop_idx) (unat byteIdx) (ucast data :: u8);
           wr2 p1 (unat drop_idx) (unat byteIdx + 1) (ucast (drop_bit 8 data) :: u8) })"

subsection \<open>src/tested/basic\_colorized.ino\<close>

text \<open>
  Here \<open>bitpos = slot * 2\<close> is computed in \<open>int\<close> and stored in a \<open>uint16_t\<close>; for a
  \<open>uint8_t\<close> slot that is the same number as in \<open>part_001\<close>.
\<close>

definition get_bright_slot_col :: "u8 list list \<Rightarrow> u8 \<Rightarrow> u8 \<Rightarrow> u8 option" where
  "get_bright_slot_col packed drop_idx slot =
     (let bitpos = (word_of_int (uint slot * 2) :: u16);
          byteIdx = (ucast (bitpos div 8) :: u8);
          bitOff = (ucast (bitpos mod 8) :: u8) in
      do { lo \<leftarrow> rd2 packed (unat drop_idx) (unat byteIdx);
           hi \<leftarrow> rd2 packed (unat drop_idx) (unat byteIdx + 1);
           let val = (ucast lo :: u16) OR push_bit 8 (ucast hi :: u16);
           Some (ucast (drop_bit (unat bitOff) val AND 3)) })"

definition set_bright_slot_col :: "u8 list list \<Rightarrow> u8 \<Rightarrow> u8 \<Rightarrow> u8 \<Rightarrow> u8 list list option" where
  "set_bright_slot_col packed drop_idx slot val0 =
     (let val = val0 AND 3;
          bitpos = (word_of_int (uint slot * 2) :: u16);
          byteIdx = (ucast (bitpos div 8) :: u8);
          bitOff = (ucast (bitpos mod 8) :: u8);
          mask = (NOT (push_bit (unat bitOff) 3) :: u16) in
      do { lo \<leftarrow> rd2 packed (unat drop_idx) (unat byteIdx);
           hi \<leftarrow> rd2 packed (unat drop_idx) (unat byteIdx + 1);
           let data0 = (ucast lo :: u16) OR push_bit 8 (ucast hi :: u16);
           let data = (data0 AND mask) OR push_bit (unat bitOff) (ucast val :: u16);
           p1 \<leftarrow> wr2 packed (unat drop_idx) (unat byteIdx) (ucast data :: u8);
           wr2 p1 (unat drop_idx) (unat byteIdx + 1) (ucast (drop_bit 8 data) :: u8) })"

section \<open>The vectorized sketch (src/tested/vectorized.ino, its first sketch)\<close>

text \<open>
  The state of the fast-drops sketch, with a character index and a packed brightness for
  every trail slot of every drop.  \<open>MAX_DROPS\<close> is 35 here, \<open>MAX_FAST\<close> is 12, the
  chances are 45 and 28 out of 256.
\<close>

abbreviation VEC_MAX_DROPS :: nat where "VEC_MAX_DROPS \<equiv> 35"
abbreviation VEC_MAX_FAST :: nat where "VEC_MAX_FAST \<equiv> 12"
abbreviation VEC_SPAWN_CHANCE :: u32 where "VEC_SPAWN_CHANCE \<equiv> 45"
abbreviation VEC_SPAWN_FAST_CHANCE :: u32 where "VEC_SPAWN_FAST_CHANCE \<equiv> 28"

record vstate = state +
  drop_char_idx :: "u8 list list"
  drop_bright_packed :: "u8 list list"

definition dims :: "nat \<Rightarrow> nat \<Rightarrow> 'a list list \<Rightarrow> bool" where
  "dims n m xss \<longleftrightarrow> length xss = n \<and> (\<forall>xs\<in>set xss. length xs = m)"

definition vsized :: "vstate \<Rightarrow> bool" where
  "vsized s \<longleftrightarrow> length (drops s) = VEC_MAX_DROPS \<and> length (column_occupied s) = TERM_COLS
     \<and> length (fasts s) = VEC_MAX_FAST
     \<and> dims VEC_MAX_DROPS MAX_TRAIL (drop_char_idx s)
     \<and> dims VEC_MAX_DROPS (BRIGHT_BYTES_PER_DROP + 1) (drop_bright_packed s)"

definition pickIndex :: "u32 \<Rightarrow> u8" where
  "pickIndex h = ucast (h mod 48)"

definition charset_at_idx :: "u8 \<Rightarrow> char" where
  "charset_at_idx idx = CHARSET ! (unat idx mod 48)"

subsection \<open>Initialisation\<close>

definition setupState_body_vec :: "nat \<Rightarrow> Drop list \<times> u8 list list \<times> u8 list list
    \<Rightarrow> (Drop list \<times> u8 list list \<times> u8 list list) option" where
  "setupState_body_vec i st =
     (let (ds, ci, bp) = st in
      do { d \<leftarrow> rd ds i;
           ds' \<leftarrow> wr ds i (d\<lparr>head := - 1, boost := 0\<rparr>);
           ci' \<leftarrow> for_each [0..<MAX_TRAIL] (\<lambda>k ci. wr2 ci i k 0) ci;
           bp' \<leftarrow> for_each [0..<BRIGHT_BYTES_PER_DROP + 1] (\<lambda>b bp. wr2 bp i b 0) bp;
           Some (ds', ci', bp') })"

definition setupState_vec :: "vstate \<Rightarrow> vstate option" where
  "setupState_vec s =
     do { (ds, ci, bp) \<leftarrow> for_each [0..<VEC_MAX_DROPS] setupState_body_vec
                             (drops s, drop_char_idx s, drop_bright_packed s);
          occ \<leftarrow> for_each [0..<TERM_COLS] (\<lambda>c occ. wr occ c False) (column_occupied s);
          fs \<leftarrow> for_each [0..<VEC_MAX_FAST]
                  (\<lambda>i fs. do { f \<leftarrow> rd fs i; wr fs i (f\<lparr>active := False\<rparr>) }) (fasts s);
          Some (s\<lparr>drops := ds, column_occupied := occ, fasts := fs,
                  drop_char_idx := ci, drop_bright_packed := bp\<rparr>) }"

subsection \<open>Spawn\<close>

text \<open>
  The two loops that fill the buffers of a new drop.  The first rolls the drop's RNG once
  for every slot of the trail; the loop state is the RNG and the two tables.
\<close>

definition init_slot_vec :: "nat \<Rightarrow> nat \<Rightarrow> u32 \<times> u8 list list \<times> u8 list list
    \<Rightarrow> (u32 \<times> u8 list list \<times> u8 list list) option" where
  "init_slot_vec idx k st =
     (let (r, ci, bp) = st; r' = splitmix32 r in
      do { ci' \<leftarrow> wr2 ci idx k (pickIndex r');
           bp' \<leftarrow> set_bright_slot_vec bp (of_nat idx) (of_nat k)
                    (if k = 0 then 3 else if k = 1 then 2 else 1);
           Some (r', ci', bp') })"

definition clear_slot_vec :: "nat \<Rightarrow> nat \<Rightarrow> u32 \<times> u8 list list \<times> u8 list list
    \<Rightarrow> (u32 \<times> u8 list list \<times> u8 list list) option" where
  "clear_slot_vec idx k st =
     (let (r, ci, bp) = st in
      do { ci' \<leftarrow> wr2 ci idx k 0;
           bp' \<leftarrow> set_bright_slot_vec bp (of_nat idx) (of_nat k) 0;
           Some (r, ci', bp') })"

definition maybeSpawnDrop_vec :: "vstate \<Rightarrow> vstate option" where
  "maybeSpawnDrop_vec s0 =
     (let s1 = s0\<lparr>global_rng := splitmix32 (global_rng s0)\<rparr> in
      if global_rng s1 AND 0xFF > VEC_SPAWN_CHANCE then Some s1
      else do {
        idx \<leftarrow> find_inactive_drop (drops s1) [0..<VEC_MAX_DROPS];
        if idx = - 1 then Some s1
        else
          let s2 = s1\<lparr>global_rng := splitmix32 (global_rng s1)\<rparr>;
              start_col = (ucast (global_rng s2 mod 80) :: u8) in
          do {
            free_col \<leftarrow> find_col (column_occupied s2) False start_col [0..<TERM_COLS];
            if free_col = - 1 then Some s2
            else
              let s3 = s2\<lparr>global_rng := splitmix32 (global_rng s2)\<rparr>;
                  g = global_rng s3;
                  d = \<lparr> col = (word_of_int free_col :: u8), head = 0,
                        trail = ucast (g mod 10) + 3,
                        speed = ucast (drop_bit 8 g mod 5) + 1,
                        age = 0, rng = splitmix32 g, boost = 0 \<rparr> in
              do {
                (r1, ci1, bp1) \<leftarrow> for_each [0..<unat (trail d)] (init_slot_vec (nat idx))
                                     (rng d, drop_char_idx s3, drop_bright_packed s3);
                (r2, ci2, bp2) \<leftarrow> for_each [unat (trail d)..<MAX_TRAIL] (clear_slot_vec (nat idx))
                                     (r1, ci1, bp1);
                ds \<leftarrow> wr (drops s3) (nat idx) (d\<lparr>rng := r2\<rparr>);
                occ \<leftarrow> wr (column_occupied s3) (unat (col d)) True;
                Some (s3\<lparr>drops := ds, column_occupied := occ,
                         drop_char_idx := ci2, drop_bright_packed := bp2\<rparr>)
              }
          }
      })"

definition maybeSpawnFastDrop_vec :: "vstate \<Rightarrow> vstate option" where
  "maybeSpawnFastDrop_vec s0 =
     (let s1 = s0\<lparr>global_rng := splitmix32 (global_rng s0)\<rparr> in
      if global_rng s1 AND 0xFF > VEC_SPAWN_FAST_CHANCE then Some s1
      else
        let s2 = s1\<lparr>global_rng := splitmix32 (global_rng s1)\<rparr>;
            start_col = (ucast (global_rng s2 mod 80) :: u8) in
        do {
          col_with_drop \<leftarrow> find_col (column_occupied s2) True start_col [0..<TERM_COLS];
          if col_with_drop = - 1 then Some s2
          else do {
            fidx \<leftarrow> find_inactive_fast (fasts s2) [0..<VEC_MAX_FAST];
            if fidx = - 1 then Some s2
            else
              let s3 = s2\<lparr>global_rng := splitmix32 (global_rng s2)\<rparr>;
                  f = \<lparr> active = True, f_col = (word_of_int col_with_drop :: u8), f_row = 0,
                        f_speed = 1, f_age = 0, f_rng = splitmix32 (global_rng s3) \<rparr> in
              do { fs \<leftarrow> wr (fasts s3) (nat fidx) f;
                   Some (s3\<lparr>fasts := fs\<rparr>) }
          }
        })"

subsection \<open>Steppers\<close>

text \<open>
  \<open>memmove(&a[1], &a[0], n)\<close> on a row: the first \<open>n\<close> bytes move up by one; it stays
  inside the row when \<open>n + 1\<close> is at most its length.
\<close>

definition memmove_up :: "'a list \<Rightarrow> nat \<Rightarrow> 'a list option" where
  "memmove_up row n =
     (if n + 1 \<le> length row then Some (take 1 row @ take n row @ drop (n + 1) row) else None)"

text \<open>
  The brightness of the trail is unpacked into the local array \<open>tmp_bright[MAX_TRAIL]\<close>,
  shifted down by one slot with a decay that stops at 1, and packed again.
\<close>

definition unpack_slot_vec :: "u8 list list \<Rightarrow> nat \<Rightarrow> nat \<Rightarrow> u8 list \<Rightarrow> u8 list option" where
  "unpack_slot_vec bp i k tmp =
     do { v \<leftarrow> get_bright_slot_vec bp (of_nat i) (of_nat k); wr tmp k v }"

definition decay_slot_vec :: "nat \<Rightarrow> u8 list \<Rightarrow> u8 list option" where
  "decay_slot_vec k tmp =
     do { prev \<leftarrow> rd tmp (k - 1); wr tmp k (if prev > 1 then prev - 1 else 1) }"

definition repack_slot_vec :: "u8 list \<Rightarrow> nat \<Rightarrow> nat \<Rightarrow> u8 list list \<Rightarrow> u8 list list option" where
  "repack_slot_vec tmp i k bp =
     do { v \<leftarrow> rd tmp k; set_bright_slot_vec bp (of_nat i) (of_nat k) v }"

definition stepDrops_body_vec :: "nat \<Rightarrow> vstate \<times> u8 list \<Rightarrow> (vstate \<times> u8 list) option" where
  "stepDrops_body_vec i st =
     (let (s, tmp_bright) = st in
      do { d0 \<leftarrow> rd (drops s) i;
           if head d0 = - 1 then Some (s, tmp_bright)
           else
             do { let d1 = d0\<lparr>age := age d0 + 1\<rparr>;
                  (d, ci, bp, tmp) \<leftarrow>
                    (if age d1 \<ge> speed d1 then
                       let d2 = d1\<lparr>age := 0, head := head d1 + 1, rng := splitmix32 (rng d1)\<rparr>;
                           t = unat (trail d2) in
                       do { row \<leftarrow> rd (drop_char_idx s) i;
                            row1 \<leftarrow> (if trail d2 > 1 then memmove_up row (t - 1) else Some row);
                            let d3 = d2\<lparr>rng := splitmix32 (rng d2)\<rparr>;
                            row2 \<leftarrow> wr row1 0 (pickIndex (rng d3));
                            ci \<leftarrow> wr (drop_char_idx s) i row2;
                            tmp1 \<leftarrow> for_each [0..<t] (unpack_slot_vec (drop_bright_packed s) i)
                                      tmp_bright;
                            tmp2 \<leftarrow> for_each (rev [1..<t]) decay_slot_vec tmp1;
                            tmp3 \<leftarrow> wr tmp2 0 3;
                            bp \<leftarrow> for_each [0..<t] (repack_slot_vec tmp3 i) (drop_bright_packed s);
                            Some (if boost d3 \<noteq> 0 then d3\<lparr>boost := boost d3 - 1\<rparr> else d3,
                                  ci, bp, tmp3) }
                     else Some (d1, drop_char_idx s, drop_bright_packed s, tmp_bright));
                  if trail_passed d then
                    do { occ \<leftarrow> wr (column_occupied s) (unat (col d)) False;
                         ds \<leftarrow> wr (drops s) i (d\<lparr>head := - 1, boost := 0\<rparr>);
                         bp' \<leftarrow> for_each [0..<BRIGHT_BYTES_PER_DROP + 1] (\<lambda>b bp. wr2 bp i b 0) bp;
                         Some (s\<lparr>drops := ds, column_occupied := occ, drop_char_idx := ci,
                                 drop_bright_packed := bp'\<rparr>, tmp) }
                  else
                    do { ds \<leftarrow> wr (drops s) i d;
                         Some (s\<lparr>drops := ds, drop_char_idx := ci, drop_bright_packed := bp\<rparr>,
                               tmp) } } })"

text \<open>
  \<open>tmp_bright\<close> is a local array that is never read before it is written; the model
  starts it with zeros.
\<close>

definition stepDrops_vec :: "vstate \<Rightarrow> vstate option" where
  "stepDrops_vec s =
     do { (s', tmp) \<leftarrow> for_each [0..<VEC_MAX_DROPS] stepDrops_body_vec (s, replicate MAX_TRAIL 0);
          Some s' }"

text \<open>
  A fast drop in this sketch stops as soon as it is at or below the top of the trail
  (\<open>bottom\<close>), not only at the head.
\<close>

definition stepFastDrops_body_vec :: "nat \<Rightarrow> vstate \<Rightarrow> vstate option" where
  "stepFastDrops_body_vec i s =
     do { f0 \<leftarrow> rd (fasts s) i;
          if \<not> active f0 then Some s
          else
            let f1 = f0\<lparr>f_age := f_age f0 + 1\<rparr> in
            if f_age f1 \<ge> f_speed f1 then
              let f2 = f1\<lparr>f_age := 0, f_row := f_row f1 + 1\<rparr> in
              if sint (f_row f2) \<ge> int TERM_ROWS then
                do { fs \<leftarrow> wr (fasts s) i (f2\<lparr>active := False\<rparr>);
                     Some (s\<lparr>fasts := fs\<rparr>) }
              else
                do { di \<leftarrow> findDropIndexInColumn_loop (drops s) (f_col f2) [0..<VEC_MAX_DROPS];
                     if di \<noteq> - 1 then
                       do { d0 \<leftarrow> rd (drops s) (nat di);
                            let bottom = head d0 - (ucast (trail d0) - 1);
                            let dist = head d0 - f_row f2;
                            (d1, ci, bp) \<leftarrow>
                              (if sint (f_row f2) \<ge> sint bottom \<and> sint (f_row f2) \<le> sint (head d0)
                                  \<and> sint dist \<ge> 0 \<and> sint dist < uint (trail d0)
                               then
                                 let d1 = d0\<lparr>rng := splitmix32 (rng d0)\<rparr> in
                                 do { ci \<leftarrow> wr2 (drop_char_idx s) (nat di) (nat (sint dist))
                                             (pickIndex (rng d1));
                                      cur \<leftarrow> get_bright_slot_vec (drop_bright_packed s)
                                               (word_of_int di) (ucast dist);
                                      bp \<leftarrow> set_bright_slot_vec (drop_bright_packed s)
                                              (word_of_int di) (ucast dist)
                                              (if cur < 3 then cur + 1 else 3);
                                      Some (d1, ci, bp) }
                               else Some (d0, drop_char_idx s, drop_bright_packed s));
                            if sint (f_row f2) \<ge> sint bottom then
                              do { bp' \<leftarrow> set_bright_slot_vec bp (word_of_int di) 0 3;
                                   ds \<leftarrow> wr (drops s) (nat di)
                                           (d1\<lparr>boost := (if boost d1 < 6 then 6 else boost d1),
                                               rng := splitmix32 (splitmix32 (rng d1))\<rparr>);
                                   fs \<leftarrow> wr (fasts s) i (f2\<lparr>active := False\<rparr>);
                                   Some (s\<lparr>drops := ds, fasts := fs, drop_char_idx := ci,
                                           drop_bright_packed := bp'\<rparr>) }
                            else
                              do { ds \<leftarrow> wr (drops s) (nat di) d1;
                                   fs \<leftarrow> wr (fasts s) i f2;
                                   Some (s\<lparr>drops := ds, fasts := fs, drop_char_idx := ci,
                                           drop_bright_packed := bp\<rparr>) } }
                     else
                       do { fs \<leftarrow> wr (fasts s) i f2;
                            Some (s\<lparr>fasts := fs\<rparr>) } }
            else
              do { fs \<leftarrow> wr (fasts s) i f1;
                   Some (s\<lparr>fasts := fs\<rparr>) } }"

definition stepFastDrops_vec :: "vstate \<Rightarrow> vstate option" where
  "stepFastDrops_vec s = for_each [0..<VEC_MAX_FAST] stepFastDrops_body_vec s"

fun apply_operation_vec :: "operation \<Rightarrow> vstate \<Rightarrow> vstate option" where
  "apply_operation_vec SpawnDrop s = maybeSpawnDrop_vec s"
| "apply_operation_vec SpawnFastDrop s = maybeSpawnFastDrop_vec s"
| "apply_operation_vec StepDrops s = stepDrops_vec s"
| "apply_operation_vec StepFastDrops s = stepFastDrops_vec s"

primrec run_vec :: "operation list \<Rightarrow> vstate \<Rightarrow> vstate option" where
  "run_vec [] s = Some s"
| "run_vec (x # xs) s = (case apply_operation_vec x s of None \<Rightarrow> None | Some s' \<Rightarrow> run_vec xs s')"

definition power_on_vec :: vstate where
  "power_on_vec = \<lparr> drops = replicate VEC_MAX_DROPS
                   \<lparr>col = 0, head = 0, trail = 0, speed = 0, age = 0, rng = 0, boost = 0\<rparr>,
                 column_occupied = replicate TERM_COLS False,
                 global_rng = 0xA5A5A5A5,
                 fasts = replicate VEC_MAX_FAST
                   \<lparr>active = False, f_col = 0, f_row = 0, f_speed = 0, f_age = 0, f_rng = 0\<rparr>,
                 drop_char_idx = replicate VEC_MAX_DROPS (replicate MAX_TRAIL 0),
                 drop_bright_packed = replicate VEC_MAX_DROPS
                   (replicate (BRIGHT_BYTES_PER_DROP + 1) 0) \<rparr>"

section \<open>The colorized sketch (src/tested/basic\_colorized.ino)\<close>

text \<open>
  The same tables as the vectorized sketch, with 16 fast drops.  The head of a drop is the
  field \<open>head_row\<close> of this sketch: the top row of the drop, the trail hangs below it.
  The record field \<open>head\<close> stands for it.
\<close>

abbreviation COL_MAX_FAST :: nat where "COL_MAX_FAST \<equiv> 16"

definition csized :: "vstate \<Rightarrow> bool" where
  "csized s \<longleftrightarrow> length (drops s) = VEC_MAX_DROPS \<and> length (column_occupied s) = TERM_COLS
     \<and> length (fasts s) = COL_MAX_FAST
     \<and> dims VEC_MAX_DROPS MAX_TRAIL (drop_char_idx s)
     \<and> dims VEC_MAX_DROPS (BRIGHT_BYTES_PER_DROP + 1) (drop_bright_packed s)"

subsection \<open>Spawn\<close>

text \<open>The head slot is written with 4, which \<open>set_bright_slot\<close> cuts to two bits.\<close>

definition init_slot_col :: "nat \<Rightarrow> nat \<Rightarrow> u32 \<times> u8 list list \<times> u8 list list
    \<Rightarrow> (u32 \<times> u8 list list \<times> u8 list list) option" where
  "init_slot_col idx k st =
     (let (r, ci, bp) = st; r' = splitmix32 r in
      do { ci' \<leftarrow> wr2 ci idx k (pickIndex r');
           bp' \<leftarrow> set_bright_slot_col bp (of_nat idx) (of_nat k)
                    (if k = 0 then 4 else if k = 1 then 3 else 1);
           Some (r', ci', bp') })"

definition clear_slot_col :: "nat \<Rightarrow> nat \<Rightarrow> u32 \<times> u8 list list \<times> u8 list list
    \<Rightarrow> (u32 \<times> u8 list list \<times> u8 list list) option" where
  "clear_slot_col idx k st =
     (let (r, ci, bp) = st in
      do { ci' \<leftarrow> wr2 ci idx k 0;
           bp' \<leftarrow> set_bright_slot_col bp (of_nat idx) (of_nat k) 0;
           Some (r, ci', bp') })"

text \<open>
  Unlike the other sketches this one does not roll \<open>global_rng\<close> a third time: trail and
  speed come from the number that chose the start column.
\<close>

definition maybeSpawnDrop_col :: "vstate \<Rightarrow> vstate option" where
  "maybeSpawnDrop_col s0 =
     (let s1 = s0\<lparr>global_rng := splitmix32 (global_rng s0)\<rparr> in
      if global_rng s1 AND 0xFF > VEC_SPAWN_CHANCE then Some s1
      else do {
        idx \<leftarrow> find_inactive_drop (drops s1) [0..<VEC_MAX_DROPS];
        if idx = - 1 then Some s1
        else
          let s2 = s1\<lparr>global_rng := splitmix32 (global_rng s1)\<rparr>;
              start_col = (ucast (global_rng s2 mod 80) :: u8) in
          do {
            free_col \<leftarrow> find_col (column_occupied s2) False start_col [0..<TERM_COLS];
            if free_col = - 1 then Some s2
            else
              let g = global_rng s2;
                  d = \<lparr> col = (word_of_int free_col :: u8), head = 0,
                        trail = ucast (g mod 10) + 3,
                        speed = ucast (drop_bit 8 g mod 5) + 1,
                        age = 0, rng = splitmix32 g, boost = 0 \<rparr> in
              do {
                (r1, ci1, bp1) \<leftarrow> for_each [0..<unat (trail d)] (init_slot_col (nat idx))
                                     (rng d, drop_char_idx s2, drop_bright_packed s2);
                (r2, ci2, bp2) \<leftarrow> for_each [unat (trail d)..<MAX_TRAIL] (clear_slot_col (nat idx))
                                     (r1, ci1, bp1);
                ds \<leftarrow> wr (drops s2) (nat idx) (d\<lparr>rng := r2\<rparr>);
                occ \<leftarrow> wr (column_occupied s2) (unat (col d)) True;
                Some (s2\<lparr>drops := ds, column_occupied := occ,
                         drop_char_idx := ci2, drop_bright_packed := bp2\<rparr>)
              }
          }
      })"

subsection \<open>Steppers\<close>

text \<open>
  The two loops of an advance run \<open>k\<close> from \<open>d.trail - 1\<close> (a \<open>uint8_t\<close>) down to 1.
  The first moves the character indices down and writes 4 to every slot it passes; the
  second copies the brightness of slot \<open>k - 1\<close> to slot \<open>k\<close>.
\<close>

definition shift_slot_col :: "nat \<Rightarrow> nat \<Rightarrow> u8 list list \<times> u8 list list
    \<Rightarrow> (u8 list list \<times> u8 list list) option" where
  "shift_slot_col i k st =
     (let (ci, bp) = st in
      do { c \<leftarrow> rd2 ci i (k - 1);
           ci' \<leftarrow> wr2 ci i k c;
           bp' \<leftarrow> set_bright_slot_col bp (of_nat i) (of_nat k) 4;
           Some (ci', bp') })"

definition fade_slot_col :: "nat \<Rightarrow> nat \<Rightarrow> u8 list list \<Rightarrow> u8 list list option" where
  "fade_slot_col i k bp =
     do { val \<leftarrow> get_bright_slot_col bp (of_nat i) (of_nat (k - 1));
          set_bright_slot_col bp (of_nat i) (of_nat k) val }"

text \<open>\<open>all_faded\<close>: no slot of the trail has a brightness above 0.\<close>

primrec all_faded_col :: "u8 list list \<Rightarrow> nat \<Rightarrow> nat list \<Rightarrow> bool \<Rightarrow> bool option" where
  "all_faded_col bp i [] all_faded = Some all_faded"
| "all_faded_col bp i (k # ks) all_faded =
     do { v \<leftarrow> get_bright_slot_col bp (of_nat i) (of_nat k);
          all_faded_col bp i ks (if v > 0 then False else all_faded) }"

definition stepDrops_body_col :: "nat \<Rightarrow> vstate \<Rightarrow> vstate option" where
  "stepDrops_body_col i s =
     do { d0 \<leftarrow> rd (drops s) i;
          if head d0 = - 1 then Some s
          else
            do { let d1 = d0\<lparr>age := age d0 + 1\<rparr>;
                 (d2, ci, bp) \<leftarrow>
                   (if age d1 \<ge> speed d1 then
                      let d2 = d1\<lparr>age := 0, head := head d1 + 1, rng := splitmix32 (rng d1)\<rparr>;
                          ks = rev [1..<Suc (unat (trail d2 - 1))] in
                      do { (ci1, bp1) \<leftarrow> for_each ks (shift_slot_col i)
                                            (drop_char_idx s, drop_bright_packed s);
                           let d3 = d2\<lparr>rng := splitmix32 (rng d2)\<rparr>;
                           ci2 \<leftarrow> wr2 ci1 i 0 (pickIndex (rng d3));
                           bp2 \<leftarrow> for_each ks (fade_slot_col i) bp1;
                           head_val \<leftarrow> get_bright_slot_col bp2 (of_nat i) 0;
                           bp3 \<leftarrow> set_bright_slot_col bp2 (of_nat i) 0
                                    (if boost d3 > 0 then 4 else head_val);
                           Some (d3, ci2, bp3) }
                    else Some (d1, drop_char_idx s, drop_bright_packed s));
                 let d = (if boost d2 \<noteq> 0 then d2\<lparr>boost := boost d2 - 1\<rparr> else d2);
                 all_faded \<leftarrow> all_faded_col bp i [0..<unat (trail d)] True;
                 if all_faded \<and> sint (head d) \<ge> int TERM_ROWS then
                   do { occ \<leftarrow> wr (column_occupied s) (unat (col d)) False;
                        ds \<leftarrow> wr (drops s) i (d\<lparr>head := - 1, boost := 0\<rparr>);
                        Some (s\<lparr>drops := ds, column_occupied := occ, drop_char_idx := ci,
                                drop_bright_packed := bp\<rparr>) }
                 else
                   do { ds \<leftarrow> wr (drops s) i d;
                        Some (s\<lparr>drops := ds, drop_char_idx := ci, drop_bright_packed := bp\<rparr>) } } }"

definition stepDrops_col :: "vstate \<Rightarrow> vstate option" where
  "stepDrops_col s = for_each [0..<VEC_MAX_DROPS] stepDrops_body_col s"

text \<open>
  A fast drop of this sketch lands only on the head row itself (\<open>slot == 0\<close>): "Only
  boost if it hits the head of the crawling drop".
\<close>

definition stepFastDrops_body_col :: "nat \<Rightarrow> vstate \<Rightarrow> vstate option" where
  "stepFastDrops_body_col i s =
     do { f0 \<leftarrow> rd (fasts s) i;
          if \<not> active f0 then Some s
          else
            let f1 = f0\<lparr>f_age := f_age f0 + 1\<rparr> in
            if f_age f1 \<ge> f_speed f1 then
              let f2 = f1\<lparr>f_age := 0, f_row := f_row f1 + 1, f_rng := splitmix32 (f_rng f1)\<rparr> in
              if sint (f_row f2) \<ge> int TERM_ROWS then
                do { fs \<leftarrow> wr (fasts s) i (f2\<lparr>active := False\<rparr>);
                     Some (s\<lparr>fasts := fs\<rparr>) }
              else
                do { di \<leftarrow> findDropIndexInColumn_loop (drops s) (f_col f2) [0..<VEC_MAX_DROPS];
                     if di \<noteq> - 1 then
                       do { d0 \<leftarrow> rd (drops s) (nat di);
                            let slot = f_row f2 - head d0;
                            (f3, ci, bp) \<leftarrow>
                              (if sint slot \<ge> 0 \<and> sint slot < uint (trail d0) then
                                 let f3 = f2\<lparr>f_rng := splitmix32 (f_rng f2)\<rparr> in
                                 do { ci \<leftarrow> wr2 (drop_char_idx s) (nat di) (nat (sint slot))
                                             (pickIndex (f_rng f3));
                                      b \<leftarrow> get_bright_slot_col (drop_bright_packed s)
                                             (word_of_int di) (ucast slot);
                                      bp \<leftarrow> (if b < 3
                                             then set_bright_slot_col (drop_bright_packed s)
                                                    (word_of_int di) (ucast slot) (b + 1)
                                             else Some (drop_bright_packed s));
                                      Some (f3, ci, bp) }
                               else Some (f2, drop_char_idx s, drop_bright_packed s));
                            if slot = 0 then
                              do { bp' \<leftarrow> set_bright_slot_col bp (word_of_int di) 0 4;
                                   ds \<leftarrow> wr (drops s) (nat di)
                                           (d0\<lparr>boost := (if boost d0 < 8 then 8 else boost d0),
                                               rng := splitmix32 (splitmix32 (rng d0))\<rparr>);
                                   fs \<leftarrow> wr (fasts s) i (f3\<lparr>active := False\<rparr>);
                                   Some (s\<lparr>drops := ds, fasts := fs, drop_char_idx := ci,
                                           drop_bright_packed := bp'\<rparr>) }
                            else
                              do { fs \<leftarrow> wr (fasts s) i f3;
                                   Some (s\<lparr>fasts := fs, drop_char_idx := ci,
                                           drop_bright_packed := bp\<rparr>) } }
                     else
                       do { fs \<leftarrow> wr (fasts s) i f2;
                            Some (s\<lparr>fasts := fs\<rparr>) } }
            else
              do { fs \<leftarrow> wr (fasts s) i f1;
                   Some (s\<lparr>fasts := fs\<rparr>) } }"

definition stepFastDrops_col :: "vstate \<Rightarrow> vstate option" where
  "stepFastDrops_col s = for_each [0..<COL_MAX_FAST] stepFastDrops_body_col s"

section \<open>A packed row as one word\<close>

text \<open>
  The four bytes of a row of \<open>drop_bright_packed\<close>, least significant first, and the two
  bits of slot \<open>k\<close> in it.  These are the terms the accessors are compared with.
\<close>

definition row_word :: "u8 list \<Rightarrow> u32" where
  "row_word r = ucast (r ! 0) OR push_bit 8 (ucast (r ! 1)) OR push_bit 16 (ucast (r ! 2))
     OR push_bit 24 (ucast (r ! 3))"

definition slot_of :: "u8 list list \<Rightarrow> nat \<Rightarrow> nat \<Rightarrow> u8" where
  "slot_of p i k = ucast (drop_bit (2 * k) (row_word (p ! i)) AND 3)"


section \<open>Predicates on states of the vectorized sketch\<close>

text \<open>The trail of an active drop fits the per-drop buffers.\<close>

definition trail_ok :: "Drop \<Rightarrow> bool" where
  "trail_ok d \<longleftrightarrow> (head d \<noteq> - 1 \<longrightarrow> 1 \<le> unat (trail d) \<and> unat (trail d) \<le> MAX_TRAIL)"

definition vec_inv :: "vstate \<Rightarrow> bool" where
  "vec_inv s \<longleftrightarrow> vsized s \<and> (\<forall>d\<in>set (drops s). drop_ok d \<and> trail_ok d)
     \<and> fast_rows_ok (fasts s)"

definition drop_spawn_due_vec :: "vstate \<Rightarrow> bool" where
  "drop_spawn_due_vec s \<longleftrightarrow> splitmix32 (global_rng s) AND 0xFF \<le> VEC_SPAWN_CHANCE
         \<and> (\<exists>i<VEC_MAX_DROPS. head (drops s ! i) = - 1)
         \<and> (\<exists>c<TERM_COLS. \<not> column_occupied s ! c)"

definition spawns_drop_vec :: "vstate \<Rightarrow> vstate \<Rightarrow> bool" where
  "spawns_drop_vec s s' \<longleftrightarrow>
     (\<exists>i c d. i < VEC_MAX_DROPS \<and> head (drops s ! i) = - 1 \<and> c < TERM_COLS
             \<and> \<not> column_occupied s ! c \<and> unat (col d) = c \<and> head d = 0
             \<and> 3 \<le> unat (trail d) \<and> unat (trail d) \<le> MAX_TRAIL
             \<and> 1 \<le> unat (speed d) \<and> unat (speed d) \<le> 5 \<and> age d = 0 \<and> boost d = 0
             \<and> drops s' = (drops s)[i := d]
             \<and> column_occupied s' = (column_occupied s)[c := True])"

section \<open>Example states\<close>

text \<open>Every drop slot and every fast slot is in use; the drops are in columns 0 to 24.\<close>

definition crowded :: state where
  "crowded = \<lparr> drops = map (\<lambda>i. \<lparr>col = of_nat i, head = 0, trail = 3, speed = 1, age = 0,
                                   rng = 0, boost = 0\<rparr>) [0..<MAX_DROPS],
               column_occupied = map (\<lambda>c. c < MAX_DROPS) [0..<TERM_COLS],
               global_rng = 0,
               fasts = replicate MAX_FAST
                   \<lparr>active = True, f_col = 0, f_row = 0, f_speed = 1, f_age = 0, f_rng = 0\<rparr> \<rparr>"

text \<open>The globals at power-on with a seed whose first roll lets a drop spawn.\<close>

definition seeded :: state where
  "seeded = power_on\<lparr>global_rng := 0\<rparr>"

text \<open>Columns of the per-column sketch, all inactive.\<close>

definition idle_column :: Column where
  "idle_column = \<lparr>c_head = - 1, c_trail = 3, c_speed = 1, c_age = 0, c_rng = 0\<rparr>"

definition idle_columns :: "Column list" where
  "idle_columns = replicate OPT_TERM_COLS idle_column"

text \<open>A brightness table with the same four bytes in every row.\<close>

definition sample_rows :: "u8 list list" where
  "sample_rows = replicate VEC_MAX_DROPS [0xE4, 0x1B, 0xFF, 0]"

text \<open>Three rounds of \<open>loop()\<close>.\<close>

definition three_frames :: "operation list" where
  "three_frames = concat (replicate 3 [SpawnDrop, SpawnFastDrop, StepDrops, StepFastDrops])"

text \<open>
  Readings of \<open>micros()\<close> for \<open>setupColumns\<close>, 8 microseconds apart.  With the first one
  column 0 spawns in the first round with a trail of 3 and speed 1, and at the bottom its
  roll is 62, which is not below 48.
\<close>

definition readings :: "nat \<Rightarrow> u32" where
  "readings c = 4616 + 8 * of_nat c"

definition opt_frames :: "nat \<Rightarrow> opt_operation list" where
  "opt_frames n = concat (replicate n [SpawnHeads, StepColumns])"

text \<open>The globals of the vectorized sketch at power-on, with seed 0.\<close>

definition seeded_vec :: vstate where
  "seeded_vec = power_on_vec\<lparr>global_rng := 0\<rparr>"

text \<open>
  Runs that end with an active fast drop.  In the fast-drops sketch drop 0 (column 36,
  speed 4) has moved to row 2 when the seventh \<open>maybeSpawnFastDrop\<close> rolls 7 and puts a
  fast drop above it.  In the vectorized sketch the sixth roll is 28.
\<close>

definition fast_run :: "operation list" where
  "fast_run = [SpawnDrop] @ replicate 8 StepDrops @ replicate 7 SpawnFastDrop @ [StepFastDrops]"

definition fast_run_vec :: "operation list" where
  "fast_run_vec = [SpawnDrop] @ replicate 6 SpawnFastDrop"

section \<open>Arrays, loops and words: basic facts\<close>

lemma rd_Some [simp]: "i < length xs \<Longrightarrow> rd xs i = Some (xs ! i)"
  by (simp add: rd_def)

lemma wr_Some [simp]: "i < length xs \<Longrightarrow> wr xs i v = Some (xs[i := v])"
  by (simp add: wr_def)

lemma for_each_append:
  "for_each (xs @ ys) body s = (case for_each xs body s of None \<Rightarrow> None | Some s' \<Rightarrow> for_each ys body s')"
  by (induction xs arbitrary: s) (auto split: option.splits)

lemma for_each_invariant:
  assumes "I s" and "\<And>i t. i \<in> set ks \<Longrightarrow> I t \<Longrightarrow> \<exists>t'. body i t = Some t' \<and> I t'"
  shows "\<exists>s'. for_each ks body s = Some s' \<and> I s'"
  using assms
proof (induction ks arbitrary: s)
  case Nil
  then show ?case by simp
next
  case (Cons k ks)
  from Cons.prems obtain t where t: "body k s = Some t" "I t" by (meson list.set_intros(1))
  from Cons.IH [OF t(2)] Cons.prems(2) obtain s' where "for_each ks body t = Some s'" "I s'"
    by (meson list.set_intros(2))
  with t show ?case by simp
qed

lemma sint_succ: "sint (x :: i16) < 32767 \<Longrightarrow> sint (x + 1) = sint x + 1"
proof -
  assume a: "sint x < 32767"
  have "- (2 ^ 15) \<le> sint x" using sint_ge [of x] by simp
  then have "signed_take_bit 15 (sint x + 1) = sint x + 1"
    using a by (intro signed_take_bit_int_eq_self) auto
  then show ?thesis by (simp add: sint_word_ariths)
qed

lemma sint_minus1_iff: "sint (x :: i16) = - 1 \<longleftrightarrow> x = - 1"
  by (metis sint_n1 signed_word_eqI)

lemma col_advance [simp]: "col (advance d) = col d"
  by (simp add: advance_def Let_def)

lemma trail_advance [simp]: "trail (advance d) = trail d"
  by (simp add: advance_def Let_def)

lemma head_advance: "head (advance d) = head d \<or> head (advance d) = head d + 1"
  by (simp add: advance_def Let_def)

lemma uint_trail_le: "uint (t :: u8) \<le> 255"
  using uint_lt2p [of t] by simp

lemma advance_ok:
  assumes "drop_ok d" "head d \<noteq> - 1"
  shows "0 \<le> sint (head (advance d))" "sint (head (advance d)) \<le> sint (head d) + 1"
    "sint (head d) \<le> sint (head (advance d))"
    "head (advance d) \<noteq> - 1"
proof -
  from assms have b: "0 \<le> sint (head d)" "sint (head d) \<le> 22 + uint (trail d)"
    by (auto simp: drop_ok_def)
  with uint_trail_le [of "trail d"] have "sint (head d) < 32767" by linarith
  then have s: "sint (head d + 1) = sint (head d) + 1" by (rule sint_succ)
  from head_advance [of d] s b show "0 \<le> sint (head (advance d))" by auto
  from head_advance [of d] s show "sint (head (advance d)) \<le> sint (head d) + 1" by auto
  from head_advance [of d] s show "sint (head d) \<le> sint (head (advance d))" by auto
  from head_advance [of d] s b have "sint (head (advance d)) \<noteq> - 1" by auto
  then show "head (advance d) \<noteq> - 1" by (simp add: sint_minus1_iff)
qed


lemma occupancy_inv_deactivate:
  assumes inv: "occupancy_inv s" and i: "i < MAX_DROPS" and act: "head (drops s ! i) \<noteq> - 1"
    and d': "head d' = - 1"
  shows "occupancy_inv (s\<lparr>drops := (drops s)[i := d'],
            column_occupied := (column_occupied s)[unat (col (drops s ! i)) := False]\<rparr>)"
proof -
  let ?ds = "(drops s)[i := d']"
  let ?k = "unat (col (drops s ! i))"
  from inv have sz: "length (drops s) = MAX_DROPS" "length (column_occupied s) = TERM_COLS"
      "length (fasts s) = MAX_FAST"
    and ok: "\<And>j. j < MAX_DROPS \<Longrightarrow> drop_ok (drops s ! j)"
    and uniq: "\<And>a b. a < MAX_DROPS \<Longrightarrow> b < MAX_DROPS \<Longrightarrow> head (drops s ! a) \<noteq> - 1 \<Longrightarrow>
         head (drops s ! b) \<noteq> - 1 \<Longrightarrow> unat (col (drops s ! a)) = unat (col (drops s ! b)) \<Longrightarrow> a = b"
    and occ: "\<And>c. c < TERM_COLS \<Longrightarrow> column_occupied s ! c \<longleftrightarrow>
         (\<exists>j<MAX_DROPS. head (drops s ! j) \<noteq> - 1 \<and> unat (col (drops s ! j)) = c)"
    by (auto simp: occupancy_inv_def sized_def)
  have nth: "\<And>j. j < MAX_DROPS \<Longrightarrow> ?ds ! j = (if j = i then d' else drops s ! j)"
    using sz by (simp add: nth_list_update)
  have 1: "\<forall>j<MAX_DROPS. drop_ok (?ds ! j)"
    using ok d' by (simp add: nth drop_ok_def)
  have 2: "\<forall>a<MAX_DROPS. \<forall>b<MAX_DROPS. head (?ds ! a) \<noteq> - 1 \<and> head (?ds ! b) \<noteq> - 1
            \<and> unat (col (?ds ! a)) = unat (col (?ds ! b)) \<longrightarrow> a = b"
    using uniq d' by (auto simp: nth split: if_splits)
  have 3: "\<forall>c<TERM_COLS. (column_occupied s)[?k := False] ! c \<longleftrightarrow>
            (\<exists>j<MAX_DROPS. head (?ds ! j) \<noteq> - 1 \<and> unat (col (?ds ! j)) = c)"
  proof (intro allI impI)
    fix c assume c: "c < TERM_COLS"
    show "(column_occupied s)[?k := False] ! c \<longleftrightarrow>
            (\<exists>j<MAX_DROPS. head (?ds ! j) \<noteq> - 1 \<and> unat (col (?ds ! j)) = c)"
    proof (cases "c = ?k")
      case True
      have "\<not> (\<exists>j<MAX_DROPS. head (?ds ! j) \<noteq> - 1 \<and> unat (col (?ds ! j)) = c)"
      proof
        assume "\<exists>j<MAX_DROPS. head (?ds ! j) \<noteq> - 1 \<and> unat (col (?ds ! j)) = c"
        then obtain j where j: "j < MAX_DROPS" "head (?ds ! j) \<noteq> - 1" "unat (col (?ds ! j)) = c"
          by blast
        with d' have ji: "j \<noteq> i" by (auto simp: nth)
        with j True have "head (drops s ! j) \<noteq> - 1" "unat (col (drops s ! j)) = ?k"
          by (auto simp: nth)
        with uniq [OF j(1) i _ act] ji show False by simp
      qed
      moreover have "\<not> (column_occupied s)[?k := False] ! c"
        using True c sz by simp
      ultimately show ?thesis by simp
    next
      case False
      then have "(column_occupied s)[?k := False] ! c = column_occupied s ! c" by simp
      moreover have "\<And>j. j < MAX_DROPS \<Longrightarrow>
          (head (?ds ! j) \<noteq> - 1 \<and> unat (col (?ds ! j)) = c)
          = (head (drops s ! j) \<noteq> - 1 \<and> unat (col (drops s ! j)) = c)"
        using False d' by (auto simp: nth)
      then have "(\<exists>j<MAX_DROPS. head (?ds ! j) \<noteq> - 1 \<and> unat (col (?ds ! j)) = c)
          \<longleftrightarrow> (\<exists>j<MAX_DROPS. head (drops s ! j) \<noteq> - 1 \<and> unat (col (drops s ! j)) = c)"
        by blast
      ultimately show ?thesis using occ [OF c] by simp
    qed
  qed
  from 1 2 3 sz show ?thesis by (simp add: occupancy_inv_def sized_def)
qed

lemma occupancy_inv_keep:
  assumes inv: "occupancy_inv s" and i: "i < MAX_DROPS" and act: "head (drops s ! i) \<noteq> - 1"
    and d': "head d' \<noteq> - 1" "col d' = col (drops s ! i)" "drop_ok d'"
  shows "occupancy_inv (s\<lparr>drops := (drops s)[i := d']\<rparr>)"
proof -
  let ?ds = "(drops s)[i := d']"
  from inv have sz: "length (drops s) = MAX_DROPS" "length (column_occupied s) = TERM_COLS"
      "length (fasts s) = MAX_FAST"
    and ok: "\<And>j. j < MAX_DROPS \<Longrightarrow> drop_ok (drops s ! j)"
    and uniq: "\<And>a b. a < MAX_DROPS \<Longrightarrow> b < MAX_DROPS \<Longrightarrow> head (drops s ! a) \<noteq> - 1 \<Longrightarrow>
         head (drops s ! b) \<noteq> - 1 \<Longrightarrow> unat (col (drops s ! a)) = unat (col (drops s ! b)) \<Longrightarrow> a = b"
    and occ: "\<And>c. c < TERM_COLS \<Longrightarrow> column_occupied s ! c \<longleftrightarrow>
         (\<exists>j<MAX_DROPS. head (drops s ! j) \<noteq> - 1 \<and> unat (col (drops s ! j)) = c)"
    by (auto simp: occupancy_inv_def sized_def)
  have nth: "\<And>j. j < MAX_DROPS \<Longrightarrow> ?ds ! j = (if j = i then d' else drops s ! j)"
    using sz by (simp add: nth_list_update)
  have same: "\<And>j. j < MAX_DROPS \<Longrightarrow> (head (?ds ! j) \<noteq> - 1) = (head (drops s ! j) \<noteq> - 1)
        \<and> col (?ds ! j) = col (drops s ! j)"
    using act d' by (simp add: nth)
  have 1: "\<forall>j<MAX_DROPS. drop_ok (?ds ! j)"
    using ok d' by (simp add: nth)
  have 2: "\<forall>a<MAX_DROPS. \<forall>b<MAX_DROPS. head (?ds ! a) \<noteq> - 1 \<and> head (?ds ! b) \<noteq> - 1
            \<and> unat (col (?ds ! a)) = unat (col (?ds ! b)) \<longrightarrow> a = b"
    using uniq same by metis
  have 3: "\<forall>c<TERM_COLS. column_occupied s ! c \<longleftrightarrow>
            (\<exists>j<MAX_DROPS. head (?ds ! j) \<noteq> - 1 \<and> unat (col (?ds ! j)) = c)"
    using occ same by metis
  from 1 2 3 sz show ?thesis by (simp add: occupancy_inv_def sized_def)
qed

lemma occupancy_inv_activate:
  assumes inv: "occupancy_inv s" and i: "i < MAX_DROPS" and inact: "head (drops s ! i) = - 1"
    and d': "head d' \<noteq> - 1" "drop_ok d'" and free: "\<not> column_occupied s ! unat (col d')"
  shows "occupancy_inv (s\<lparr>drops := (drops s)[i := d'],
            column_occupied := (column_occupied s)[unat (col d') := True]\<rparr>)"
proof -
  let ?ds = "(drops s)[i := d']"
  let ?k = "unat (col d')"
  from d' have k: "?k < TERM_COLS" by (simp add: drop_ok_def)
  from inv have sz: "length (drops s) = MAX_DROPS" "length (column_occupied s) = TERM_COLS"
      "length (fasts s) = MAX_FAST"
    and ok: "\<And>j. j < MAX_DROPS \<Longrightarrow> drop_ok (drops s ! j)"
    and uniq: "\<And>a b. a < MAX_DROPS \<Longrightarrow> b < MAX_DROPS \<Longrightarrow> head (drops s ! a) \<noteq> - 1 \<Longrightarrow>
         head (drops s ! b) \<noteq> - 1 \<Longrightarrow> unat (col (drops s ! a)) = unat (col (drops s ! b)) \<Longrightarrow> a = b"
    and occ: "\<And>c. c < TERM_COLS \<Longrightarrow> column_occupied s ! c \<longleftrightarrow>
         (\<exists>j<MAX_DROPS. head (drops s ! j) \<noteq> - 1 \<and> unat (col (drops s ! j)) = c)"
    by (auto simp: occupancy_inv_def sized_def)
  have nth: "\<And>j. j < MAX_DROPS \<Longrightarrow> ?ds ! j = (if j = i then d' else drops s ! j)"
    using sz by (simp add: nth_list_update)
  from occ [OF k] free have nobody: "\<And>j. j < MAX_DROPS \<Longrightarrow> head (drops s ! j) \<noteq> - 1 \<Longrightarrow>
      unat (col (drops s ! j)) \<noteq> ?k" by blast
  have 1: "\<forall>j<MAX_DROPS. drop_ok (?ds ! j)"
    using ok d' by (simp add: nth)
  have 2: "\<forall>a<MAX_DROPS. \<forall>b<MAX_DROPS. head (?ds ! a) \<noteq> - 1 \<and> head (?ds ! b) \<noteq> - 1
            \<and> unat (col (?ds ! a)) = unat (col (?ds ! b)) \<longrightarrow> a = b"
  proof (intro allI impI)
    fix a b assume a: "a < MAX_DROPS" and b: "b < MAX_DROPS"
      and h: "head (?ds ! a) \<noteq> - 1 \<and> head (?ds ! b) \<noteq> - 1
            \<and> unat (col (?ds ! a)) = unat (col (?ds ! b))"
    show "a = b"
    proof (cases "a = i"; cases "b = i")
      assume "a = i" "b \<noteq> i"
      with h a b nobody [OF b] show ?thesis by (auto simp: nth)
    next
      assume "a \<noteq> i" "b = i"
      with h a b nobody [OF a] show ?thesis by (auto simp: nth)
    next
      assume "a \<noteq> i" "b \<noteq> i"
      with h a b uniq [OF a b] show ?thesis by (auto simp: nth)
    qed simp
  qed
  have 3: "\<forall>c<TERM_COLS. (column_occupied s)[?k := True] ! c \<longleftrightarrow>
            (\<exists>j<MAX_DROPS. head (?ds ! j) \<noteq> - 1 \<and> unat (col (?ds ! j)) = c)"
  proof (intro allI impI)
    fix c assume c: "c < TERM_COLS"
    show "(column_occupied s)[?k := True] ! c \<longleftrightarrow>
            (\<exists>j<MAX_DROPS. head (?ds ! j) \<noteq> - 1 \<and> unat (col (?ds ! j)) = c)"
    proof (cases "c = ?k")
      case True
      have "head (?ds ! i) \<noteq> - 1 \<and> unat (col (?ds ! i)) = c"
        using True d' i by (simp add: nth)
      with i have "\<exists>j<MAX_DROPS. head (?ds ! j) \<noteq> - 1 \<and> unat (col (?ds ! j)) = c" by blast
      moreover have "(column_occupied s)[?k := True] ! c" using True c sz by simp
      ultimately show ?thesis by simp
    next
      case False
      then have "(column_occupied s)[?k := True] ! c = column_occupied s ! c" by simp
      moreover have "\<And>j. j < MAX_DROPS \<Longrightarrow>
          (head (?ds ! j) \<noteq> - 1 \<and> unat (col (?ds ! j)) = c)
          = (head (drops s ! j) \<noteq> - 1 \<and> unat (col (drops s ! j)) = c)"
        using False inact by (auto simp: nth)
      then have "(\<exists>j<MAX_DROPS. head (?ds ! j) \<noteq> - 1 \<and> unat (col (?ds ! j)) = c)
          \<longleftrightarrow> (\<exists>j<MAX_DROPS. head (drops s ! j) \<noteq> - 1 \<and> unat (col (drops s ! j)) = c)"
        by blast
      ultimately show ?thesis using occ [OF c] by simp
    qed
  qed
  from 1 2 3 sz show ?thesis by (simp add: occupancy_inv_def sized_def)
qed


lemma occupancy_inv_same:
  assumes inv: "occupancy_inv s"
    and len: "length (drops s') = MAX_DROPS" "length (fasts s') = MAX_FAST"
    and occ: "column_occupied s' = column_occupied s"
    and same: "\<And>j. j < MAX_DROPS \<Longrightarrow> head (drops s' ! j) = head (drops s ! j)
        \<and> col (drops s' ! j) = col (drops s ! j) \<and> trail (drops s' ! j) = trail (drops s ! j)"
  shows "occupancy_inv s'"
proof -
  have "\<And>c. (\<exists>i<MAX_DROPS. head (drops s' ! i) \<noteq> - 1 \<and> unat (col (drops s' ! i)) = c)
      = (\<exists>i<MAX_DROPS. head (drops s ! i) \<noteq> - 1 \<and> unat (col (drops s ! i)) = c)"
    using same by auto
  with inv len show ?thesis
    unfolding occupancy_inv_def sized_def drop_ok_def occ by (simp add: same)
qed

lemma stepDrops_body_inv:
  assumes "occupancy_inv s" "i < MAX_DROPS"
  shows "\<exists>s'. stepDrops_body i s = Some s' \<and> occupancy_inv s' \<and> fasts s' = fasts s"
proof (cases "head (drops s ! i) = - 1")
  case True
  with assms show ?thesis by (simp add: stepDrops_body_def occupancy_inv_def sized_def)
next
  case False
  let ?old = "drops s ! i"
  let ?new = "advance ?old"
  from assms have ok: "drop_ok ?old" and sz: "sized s" by (auto simp: occupancy_inv_def)
  from ok False have c: "unat (col ?old) < TERM_COLS" by (simp add: drop_ok_def)
  note a = advance_ok [OF ok False]
  show ?thesis
  proof (cases "trail_passed ?new")
    case True
    let ?s' = "s\<lparr>drops := (drops s)[i := ?new\<lparr>head := - 1, boost := 0\<rparr>],
                  column_occupied := (column_occupied s)[unat (col ?old) := False]\<rparr>"
    have 1: "stepDrops_body i s = Some ?s'"
      using assms(2) sz False True c by (simp add: stepDrops_body_def sized_def Let_def)
    have "occupancy_inv ?s'"
      by (rule occupancy_inv_deactivate [OF assms False]) simp
    with 1 show ?thesis by simp
  next
    case F2: False
    let ?s' = "s\<lparr>drops := (drops s)[i := ?new]\<rparr>"
    have 1: "stepDrops_body i s = Some ?s'"
      using assms(2) sz False F2 by (simp add: stepDrops_body_def sized_def Let_def)
    from F2 have "sint (head ?new) \<le> 22 + uint (trail ?old)"
      by (simp add: trail_passed_def)
    with a c have ok': "drop_ok ?new" by (simp add: drop_ok_def)
    have "occupancy_inv ?s'"
      by (rule occupancy_inv_keep [OF assms False a(4) _ ok']) simp
    with 1 show ?thesis by simp
  qed
qed

lemma stepDrops_inv:
  assumes "occupancy_inv s"
  shows "\<exists>s'. stepDrops s = Some s' \<and> occupancy_inv s' \<and> fasts s' = fasts s"
proof -
  have "\<exists>s'. for_each [0..<MAX_DROPS] stepDrops_body s = Some s'
          \<and> (occupancy_inv s' \<and> fasts s' = fasts s)"
  proof (rule for_each_invariant)
    show "occupancy_inv s \<and> fasts s = fasts s" using assms by simp
  next
    fix i t assume "i \<in> set [0..<MAX_DROPS]" "occupancy_inv t \<and> fasts t = fasts s"
    then show "\<exists>t'. stepDrops_body i t = Some t' \<and> (occupancy_inv t' \<and> fasts t' = fasts s)"
      using stepDrops_body_inv [of t i] by auto
  qed
  then show ?thesis by (simp add: stepDrops_def)
qed

lemma find_inactive_drop_result:
  assumes "\<forall>k\<in>set ks. k < length ds"
  shows "\<exists>idx. find_inactive_drop ds ks = Some idx \<and>
           (if idx = - 1 then \<forall>k\<in>set ks. head (ds ! k) \<noteq> - 1
            else 0 \<le> idx \<and> nat idx \<in> set ks \<and> head (ds ! nat idx) = - 1)"
  using assms by (induction ks) auto

lemma find_col_result:
  assumes "length occ = TERM_COLS"
  shows "\<exists>c. find_col occ want start ks = Some c \<and>
           (if c = - 1 then \<forall>k\<in>set ks. occ ! ((unat start + k) mod TERM_COLS) \<noteq> want
            else 0 \<le> c \<and> nat c < TERM_COLS \<and> occ ! nat c = want)"
  using assms by (induction ks) (auto simp: Let_def)

lemma find_inactive_fast_result:
  assumes "\<forall>k\<in>set ks. k < length fs"
  shows "\<exists>idx. find_inactive_fast fs ks = Some idx \<and>
           (if idx = - 1 then \<forall>k\<in>set ks. active (fs ! k)
            else 0 \<le> idx \<and> nat idx \<in> set ks \<and> \<not> active (fs ! nat idx))"
  using assms by (induction ks) auto

lemma findDropIndexInColumn_loop_result:
  assumes "\<forall>k\<in>set ks. k < length ds"
  shows "\<exists>di. findDropIndexInColumn_loop ds c ks = Some di \<and>
           (if di = - 1 then \<forall>k\<in>set ks. \<not> (head (ds ! k) \<noteq> - 1 \<and> col (ds ! k) = c)
            else 0 \<le> di \<and> nat di \<in> set ks \<and> head (ds ! nat di) \<noteq> - 1 \<and> col (ds ! nat di) = c)"
  using assms
proof (induction ks)
  case Nil
  then show ?case by simp
next
  case (Cons a ks)
  then obtain di where di: "findDropIndexInColumn_loop ds c ks = Some di"
    "if di = - 1 then \<forall>k\<in>set ks. \<not> (head (ds ! k) \<noteq> - 1 \<and> col (ds ! k) = c)
     else 0 \<le> di \<and> nat di \<in> set ks \<and> head (ds ! nat di) \<noteq> - 1 \<and> col (ds ! nat di) = c"
    by auto
  from Cons.prems have a: "a < length ds" by simp
  show ?case
  proof (cases "head (ds ! a) \<noteq> - 1 \<and> col (ds ! a) = c")
    case True
    with a show ?thesis by simp
  next
    case False
    with a di(1) have "findDropIndexInColumn_loop ds c (a # ks) = Some di" by auto
    moreover from di(2) False
    have "if di = - 1 then \<forall>k\<in>set (a # ks). \<not> (head (ds ! k) \<noteq> - 1 \<and> col (ds ! k) = c)
     else 0 \<le> di \<and> nat di \<in> set (a # ks) \<and> head (ds ! nat di) \<noteq> - 1 \<and> col (ds ! nat di) = c"
      by (cases "di = - 1") auto
    ultimately show ?thesis by blast
  qed
qed

lemma unat_word_of_int_col:
  "0 \<le> c \<Longrightarrow> nat c < TERM_COLS \<Longrightarrow> unat (word_of_int c :: u8) = nat c"
  by (simp add: unat_eq_nat_uint uint_word_of_int take_bit_int_eq_self)

lemma scan_covers: "c < TERM_COLS \<Longrightarrow> \<exists>k<TERM_COLS. (st + k) mod TERM_COLS = c"
proof -
  assume c: "c < TERM_COLS"
  define a where "a = st mod TERM_COLS"
  have a: "a < TERM_COLS" by (simp add: a_def)
  have e: "\<And>k. (st + k) mod TERM_COLS = (a + k) mod TERM_COLS"
    by (simp add: a_def mod_add_left_eq)
  show ?thesis
  proof (cases "a \<le> c")
    case True
    then have "(a + (c - a)) mod TERM_COLS = c" using c by simp
    moreover have "c - a < TERM_COLS" using c by simp
    ultimately show ?thesis unfolding e by blast
  next
    case False
    then have "(a + (c + TERM_COLS - a)) mod TERM_COLS = c" using c a by simp
    moreover have "c + TERM_COLS - a < TERM_COLS" using False by simp
    ultimately show ?thesis unfolding e by blast
  qed
qed

lemma unat_ucast_small: "unat (x :: u32) < 256 \<Longrightarrow> unat (ucast x :: u8) = unat x"
  by (simp add: unsigned_ucast_eq take_bit_nat_eq_self)

lemma trail_bounds: "3 \<le> unat (ucast ((g::u32) mod 10) + 3 :: u8) \<and> unat (ucast (g mod 10) + 3 :: u8) \<le> 12"
proof -
  have "unat (g mod 10) < 10" by (simp add: unat_mod)
  then have u: "unat (ucast (g mod 10) :: u8) < 10" by (simp add: unat_ucast_small)
  then have "unat (ucast (g mod 10) + 3 :: u8) = unat (ucast (g mod 10) :: u8) + 3"
    by (simp add: unat_word_ariths)
  with u show ?thesis by simp
qed

lemma speed_bounds: "1 \<le> unat (ucast ((g::u32) mod 5) + 1 :: u8) \<and> unat (ucast (g mod 5) + 1 :: u8) \<le> 5"
proof -
  have "unat (g mod 5) < 5" by (simp add: unat_mod)
  then have u: "unat (ucast (g mod 5) :: u8) < 5" by (simp add: unat_ucast_small)
  then have "unat (ucast (g mod 5) + 1 :: u8) = unat (ucast (g mod 5) :: u8) + 1"
    by (simp add: unat_word_ariths)
  with u show ?thesis by simp
qed


lemma maybeSpawnDrop_result_raw:
  assumes sz: "sized s"
  shows "\<exists>s'. maybeSpawnDrop s = Some s' \<and> fasts s' = fasts s \<and>
     (if splitmix32 (global_rng s) AND 0xFF \<le> SPAWN_CHANCE
         \<and> (\<exists>i<MAX_DROPS. head (drops s ! i) = - 1)
         \<and> (\<exists>c<TERM_COLS. \<not> column_occupied s ! c)
      then \<exists>i c d. i < MAX_DROPS \<and> head (drops s ! i) = - 1 \<and> c < TERM_COLS
             \<and> \<not> column_occupied s ! c \<and> unat (col d) = c \<and> head d = 0
             \<and> 3 \<le> unat (trail d) \<and> unat (trail d) \<le> MAX_TRAIL
             \<and> 1 \<le> unat (speed d) \<and> unat (speed d) \<le> 5 \<and> age d = 0 \<and> boost d = 0
             \<and> drops s' = (drops s)[i := d]
             \<and> column_occupied s' = (column_occupied s)[c := True]
      else drops s' = drops s \<and> column_occupied s' = column_occupied s)"
    (is "\<exists>s'. _ \<and> _ \<and> (if ?C then ?A s' else ?B s')")
proof -
  let ?g1 = "splitmix32 (global_rng s)"
  let ?g2 = "splitmix32 ?g1"
  let ?g3 = "splitmix32 ?g2"
  let ?start = "ucast (?g2 mod 80) :: u8"
  from sz have len: "length (drops s) = MAX_DROPS" "length (column_occupied s) = TERM_COLS"
    by (simp_all add: sized_def)
  from find_inactive_drop_result [of "[0..<MAX_DROPS]" "drops s"] len
  obtain idx where idx: "find_inactive_drop (drops s) [0..<MAX_DROPS] = Some idx"
    "if idx = - 1 then \<forall>k\<in>set [0..<MAX_DROPS]. head (drops s ! k) \<noteq> - 1
     else 0 \<le> idx \<and> nat idx \<in> set [0..<MAX_DROPS] \<and> head (drops s ! nat idx) = - 1"
    by auto
  from find_col_result [OF len(2), of False ?start "[0..<TERM_COLS]"]
  obtain c where c: "find_col (column_occupied s) False ?start [0..<TERM_COLS] = Some c"
    "if c = - 1 then \<forall>k\<in>set [0..<TERM_COLS]. column_occupied s ! ((unat ?start + k) mod TERM_COLS) \<noteq> False
     else 0 \<le> c \<and> nat c < TERM_COLS \<and> column_occupied s ! nat c = False"
    by auto
  have skip: "?thesis" if r: "maybeSpawnDrop s = Some (s\<lparr>global_rng := g\<rparr>)" and nc: "\<not> ?C" for g
  proof -
    have "?B (s\<lparr>global_rng := g\<rparr>)" by simp
    with nc have "if ?C then ?A (s\<lparr>global_rng := g\<rparr>) else ?B (s\<lparr>global_rng := g\<rparr>)"
      by (simp only: if_not_P if_False)
    moreover have "fasts (s\<lparr>global_rng := g\<rparr>) = fasts s" by simp
    ultimately show ?thesis using r by blast
  qed
  show ?thesis
  proof (cases "?g1 AND 0xFF \<le> SPAWN_CHANCE")
    case False
    then have "?g1 AND 0xFF > SPAWN_CHANCE" by (simp add: not_le)
    then have "maybeSpawnDrop s = Some (s\<lparr>global_rng := ?g1\<rparr>)"
      by (simp add: maybeSpawnDrop_def Let_def)
    moreover from False have "\<not> ?C" by blast
    ultimately show ?thesis by (rule skip)
  next
    case roll: True
    then have roll': "\<not> ?g1 AND 0xFF > SPAWN_CHANCE" by (simp add: not_less)
    show ?thesis
    proof (cases "idx = - 1")
      case True
      with idx(2) have "\<not> (\<exists>i<MAX_DROPS. head (drops s ! i) = - 1)" by auto
      then have "\<not> ?C" by blast
      moreover from roll' idx(1) True have "maybeSpawnDrop s = Some (s\<lparr>global_rng := ?g1\<rparr>)"
        by (simp add: maybeSpawnDrop_def Let_def)
      ultimately show ?thesis using skip by blast
    next
      case slot: False
      with idx(2) have i: "0 \<le> idx" "nat idx < MAX_DROPS" "head (drops s ! nat idx) = - 1" by auto
      show ?thesis
      proof (cases "c = - 1")
        case True
        have "\<not> (\<exists>c<TERM_COLS. \<not> column_occupied s ! c)"
        proof
          assume "\<exists>c<TERM_COLS. \<not> column_occupied s ! c"
          then obtain c' where c': "c' < TERM_COLS" "\<not> column_occupied s ! c'" by blast
          from scan_covers [OF c'(1), of "unat ?start"] obtain k
            where "k < TERM_COLS" "(unat ?start + k) mod TERM_COLS = c'" by blast
          with c(2) True c'(2) show False by auto
        qed
        then have "\<not> ?C" by blast
        moreover from roll' idx(1) slot c(1) True
        have "maybeSpawnDrop s = Some (s\<lparr>global_rng := ?g2\<rparr>)"
          by (simp add: maybeSpawnDrop_def Let_def)
        ultimately show ?thesis using skip by blast
      next
        case free: False
        with c(2) have cc: "0 \<le> c" "nat c < TERM_COLS" "\<not> column_occupied s ! nat c" by auto
        let ?d = "\<lparr> col = (word_of_int c :: u8), head = 0, trail = ucast (?g3 mod 10) + 3,
                    speed = ucast (drop_bit 8 ?g3 mod 5) + 1, age = 0, rng = splitmix32 ?g3,
                    boost = 0 \<rparr>"
        let ?s' = "s\<lparr>global_rng := ?g3, drops := (drops s)[nat idx := ?d],
                      column_occupied := (column_occupied s)[nat c := True]\<rparr>"
        have uc: "unat (word_of_int c :: u8) = nat c"
          using cc by (simp add: unat_word_of_int_col)
        have 1: "maybeSpawnDrop s = Some ?s'"
          using roll' idx(1) slot c(1) free i cc len
          by (simp add: maybeSpawnDrop_def Let_def uc)
        have C: "?C" using roll i cc by blast
        have "?A ?s'"
          apply (rule exI [of _ "nat idx"], rule exI [of _ "nat c"], rule exI [of _ ?d])
          using i cc uc trail_bounds [of ?g3] speed_bounds [of "drop_bit 8 ?g3"]
          by simp
        with C have "if ?C then ?A ?s' else ?B ?s'" by (simp only: if_P)
        moreover have "fasts ?s' = fasts s" by simp
        ultimately show ?thesis using 1 by blast
      qed
    qed
  qed
qed

lemma maybeSpawnFastDrop_result_raw:
  assumes sz: "sized s"
  shows "\<exists>s'. maybeSpawnFastDrop s = Some s' \<and> drops s' = drops s
      \<and> column_occupied s' = column_occupied s \<and>
     (if splitmix32 (global_rng s) AND 0xFF \<le> SPAWN_FAST_CHANCE
         \<and> (\<exists>c<TERM_COLS. column_occupied s ! c)
         \<and> (\<exists>i<MAX_FAST. \<not> active (fasts s ! i))
      then \<exists>i c f. i < MAX_FAST \<and> \<not> active (fasts s ! i) \<and> c < TERM_COLS
             \<and> column_occupied s ! c \<and> unat (f_col f) = c \<and> f_row f = 0 \<and> active f
             \<and> f_speed f = 1 \<and> f_age f = 0
             \<and> fasts s' = (fasts s)[i := f]
      else fasts s' = fasts s)"
    (is "\<exists>s'. _ \<and> _ \<and> _ \<and> (if ?C then ?A s' else ?B s')")
proof -
  let ?g1 = "splitmix32 (global_rng s)"
  let ?g2 = "splitmix32 ?g1"
  let ?start = "ucast (?g2 mod 80) :: u8"
  from sz have len: "length (fasts s) = MAX_FAST" "length (column_occupied s) = TERM_COLS"
    by (simp_all add: sized_def)
  from find_inactive_fast_result [of "[0..<MAX_FAST]" "fasts s"] len
  obtain idx where idx: "find_inactive_fast (fasts s) [0..<MAX_FAST] = Some idx"
    "if idx = - 1 then \<forall>k\<in>set [0..<MAX_FAST]. active (fasts s ! k)
     else 0 \<le> idx \<and> nat idx \<in> set [0..<MAX_FAST] \<and> \<not> active (fasts s ! nat idx)"
    by auto
  from find_col_result [OF len(2), of True ?start "[0..<TERM_COLS]"]
  obtain c where c: "find_col (column_occupied s) True ?start [0..<TERM_COLS] = Some c"
    "if c = - 1 then \<forall>k\<in>set [0..<TERM_COLS]. column_occupied s ! ((unat ?start + k) mod TERM_COLS) \<noteq> True
     else 0 \<le> c \<and> nat c < TERM_COLS \<and> column_occupied s ! nat c = True"
    by auto
  have skip: "?thesis" if r: "maybeSpawnFastDrop s = Some (s\<lparr>global_rng := g\<rparr>)" and nc: "\<not> ?C" for g
  proof -
    have "?B (s\<lparr>global_rng := g\<rparr>)" by simp
    with nc have "if ?C then ?A (s\<lparr>global_rng := g\<rparr>) else ?B (s\<lparr>global_rng := g\<rparr>)"
      by (simp only: if_not_P if_False)
    moreover have "drops (s\<lparr>global_rng := g\<rparr>) = drops s"
      "column_occupied (s\<lparr>global_rng := g\<rparr>) = column_occupied s" by simp_all
    ultimately show ?thesis using r by blast
  qed
  show ?thesis
  proof (cases "?g1 AND 0xFF \<le> SPAWN_FAST_CHANCE")
    case False
    then have "?g1 AND 0xFF > SPAWN_FAST_CHANCE" by (simp add: not_le)
    then have "maybeSpawnFastDrop s = Some (s\<lparr>global_rng := ?g1\<rparr>)"
      by (simp add: maybeSpawnFastDrop_def Let_def)
    moreover from False have "\<not> ?C" by blast
    ultimately show ?thesis by (rule skip)
  next
    case roll: True
    then have roll': "\<not> ?g1 AND 0xFF > SPAWN_FAST_CHANCE" by (simp add: not_less)
    show ?thesis
    proof (cases "c = - 1")
      case True
      have "\<not> (\<exists>c<TERM_COLS. column_occupied s ! c)"
      proof
        assume "\<exists>c<TERM_COLS. column_occupied s ! c"
        then obtain c' where c': "c' < TERM_COLS" "column_occupied s ! c'" by blast
        from scan_covers [OF c'(1), of "unat ?start"] obtain k
          where "k < TERM_COLS" "(unat ?start + k) mod TERM_COLS = c'" by blast
        with c(2) True c'(2) show False by auto
      qed
      then have "\<not> ?C" by blast
      moreover from roll' c(1) True
      have "maybeSpawnFastDrop s = Some (s\<lparr>global_rng := ?g2\<rparr>)"
        by (simp add: maybeSpawnFastDrop_def Let_def)
      ultimately show ?thesis using skip by blast
    next
      case found: False
      with c(2) have cc: "0 \<le> c" "nat c < TERM_COLS" "column_occupied s ! nat c" by auto
      show ?thesis
      proof (cases "idx = - 1")
        case True
        with idx(2) have "\<not> (\<exists>i<MAX_FAST. \<not> active (fasts s ! i))" by auto
        then have "\<not> ?C" by blast
        moreover from roll' idx(1) c(1) found True
        have "maybeSpawnFastDrop s = Some (s\<lparr>global_rng := ?g2\<rparr>)"
          by (simp add: maybeSpawnFastDrop_def Let_def)
        ultimately show ?thesis using skip by blast
      next
        case slot: False
        with idx(2) have i: "0 \<le> idx" "nat idx < MAX_FAST" "\<not> active (fasts s ! nat idx)" by auto
        let ?f = "\<lparr> active = True, f_col = (word_of_int c :: u8), f_row = 0,
                        f_speed = (if drop_bit 8 ?g2 mod 2 = 0 then 1 else 1),
                        f_age = 0, f_rng = splitmix32 ?g2 \<rparr>"
        let ?s' = "s\<lparr>global_rng := ?g2, fasts := (fasts s)[nat idx := ?f]\<rparr>"
        have uc: "unat (word_of_int c :: u8) = nat c"
          using cc by (simp add: unat_word_of_int_col)
        have 1: "maybeSpawnFastDrop s = Some ?s'"
          using roll' idx(1) slot c(1) found i cc len
          by (simp add: maybeSpawnFastDrop_def Let_def)
        have C: "?C" using roll i cc by blast
        have "?A ?s'"
          apply (rule exI [of _ "nat idx"], rule exI [of _ "nat c"], rule exI [of _ ?f])
          using i cc uc by simp
        with C have "if ?C then ?A ?s' else ?B ?s'" by (simp only: if_P)
        moreover have "drops ?s' = drops s" "column_occupied ?s' = column_occupied s" by simp_all
        ultimately show ?thesis using 1 by blast
      qed
    qed
  qed
qed

lemma fast_hits_same [simp]:
  "head (fst (fast_hits d r)) = head d" "col (fst (fast_hits d r)) = col d"
  "trail (fst (fast_hits d r)) = trail d"
  by (simp_all add: fast_hits_def Let_def)

lemma fast_hits_boost: "boost d \<noteq> 0 \<Longrightarrow> boost (fst (fast_hits d r)) \<noteq> 0"
  by (auto simp: fast_hits_def Let_def)

lemma fast_hits_landed:
  "snd (fast_hits d r) \<longleftrightarrow> sint r \<ge> sint (head d)"
  by (simp add: fast_hits_def Let_def)

lemma fast_hits_landed_boost: "snd (fast_hits d r) \<Longrightarrow> boost (fst (fast_hits d r)) \<noteq> 0"
  by (auto simp: fast_hits_def Let_def)

lemma findDropIndexInColumn_result:
  assumes "length ds = MAX_DROPS"
  shows "\<exists>di. findDropIndexInColumn ds c = Some di \<and>
           (if di = - 1 then \<forall>k<MAX_DROPS. \<not> (head (ds ! k) \<noteq> - 1 \<and> col (ds ! k) = c)
            else 0 \<le> di \<and> nat di < MAX_DROPS \<and> head (ds ! nat di) \<noteq> - 1 \<and> col (ds ! nat di) = c)"
  using findDropIndexInColumn_loop_result [of "[0..<MAX_DROPS]" ds c] assms
  unfolding findDropIndexInColumn_def by (auto split: if_splits)

lemma stepFastDrops_body_effect:
  assumes sz: "sized s" and i: "i < MAX_FAST"
  shows "\<exists>s'. stepFastDrops_body i s = Some s' \<and> sized s'
     \<and> column_occupied s' = column_occupied s
     \<and> (\<forall>j<MAX_DROPS. head (drops s' ! j) = head (drops s ! j)
           \<and> col (drops s' ! j) = col (drops s ! j) \<and> trail (drops s' ! j) = trail (drops s ! j)
           \<and> (boost (drops s ! j) \<noteq> 0 \<longrightarrow> boost (drops s' ! j) \<noteq> 0))
     \<and> (\<forall>j<MAX_FAST. j \<noteq> i \<longrightarrow> fasts s' ! j = fasts s ! j)
     \<and> (active (fasts s' ! i) \<longrightarrow> active (fasts s ! i)
           \<and> (f_row (fasts s' ! i) = f_row (fasts s ! i)
              \<or> f_row (fasts s' ! i) = f_row (fasts s ! i) + 1
                \<and> sint (f_row (fasts s ! i) + 1) < int TERM_ROWS))
     \<and> (\<not> active (fasts s ! i) \<longrightarrow> s' = s)"
proof -
  from sz have len: "length (drops s) = MAX_DROPS" "length (fasts s) = MAX_FAST"
    "length (column_occupied s) = TERM_COLS" by (simp_all add: sized_def)
  let ?f = "fasts s ! i"
  show ?thesis
  proof (cases "active ?f")
    case False
    with i len sz show ?thesis by (simp add: stepFastDrops_body_def)
  next
    case act: True
    show ?thesis
    proof (cases "f_age ?f + 1 \<ge> f_speed ?f")
      case False
      with act i len show ?thesis
        by (simp add: stepFastDrops_body_def Let_def sized_def nth_list_update)
    next
      case move: True
      show ?thesis
      proof (cases "sint (f_row ?f + 1) \<ge> int TERM_ROWS")
        case True
        with act move i len show ?thesis
          by (simp add: stepFastDrops_body_def Let_def sized_def nth_list_update)
      next
        case inside: False
        from findDropIndexInColumn_result [OF len(1), of "f_col ?f"]
        obtain di where di: "findDropIndexInColumn (drops s) (f_col ?f) = Some di"
          "if di = - 1 then \<forall>k<MAX_DROPS. \<not> (head (drops s ! k) \<noteq> - 1 \<and> col (drops s ! k) = f_col ?f)
           else 0 \<le> di \<and> nat di < MAX_DROPS \<and> head (drops s ! nat di) \<noteq> - 1
                \<and> col (drops s ! nat di) = f_col ?f" by blast
        show ?thesis
        proof (cases "di = - 1")
          case True
          with act move inside i len di(1) show ?thesis
            by (simp add: stepFastDrops_body_def Let_def sized_def nth_list_update)
        next
          case False
          with di(2) have d: "0 \<le> di" "nat di < MAX_DROPS" by auto
          with False act move inside i len di(1) show ?thesis
            by (simp add: stepFastDrops_body_def Let_def sized_def nth_list_update
                  case_prod_beta fast_hits_boost)
        qed
      qed
    qed
  qed
qed

lemma stepFastDrops_body_hit:
  assumes sz: "sized s" and i: "i < MAX_FAST"
    and act: "active (fasts s ! i)"
    and move: "f_age (fasts s ! i) + 1 \<ge> f_speed (fasts s ! i)"
    and inside: "sint (f_row (fasts s ! i) + 1) < int TERM_ROWS"
    and di: "findDropIndexInColumn (drops s) (f_col (fasts s ! i)) = Some di" "di \<noteq> - 1"
    and reach: "sint (f_row (fasts s ! i) + 1) \<ge> sint (head (drops s ! nat di))"
  shows "\<exists>s'. stepFastDrops_body i s = Some s' \<and> \<not> active (fasts s' ! i)
           \<and> boost (drops s' ! nat di) \<noteq> 0"
proof -
  from sz have len: "length (drops s) = MAX_DROPS" "length (fasts s) = MAX_FAST"
    "length (column_occupied s) = TERM_COLS" by (simp_all add: sized_def)
  from findDropIndexInColumn_result [OF len(1), of "f_col (fasts s ! i)"] di
  have d: "0 \<le> di" "nat di < MAX_DROPS" by auto
  have l: "snd (fast_hits (drops s ! nat di) (f_row (fasts s ! i) + 1))"
    using reach by (simp add: fast_hits_landed)
  from inside have ni: "\<not> sint (f_row (fasts s ! i) + 1) \<ge> int TERM_ROWS" by simp
  show ?thesis
    using act move ni i len di d l fast_hits_landed_boost [OF l]
    by (simp add: stepFastDrops_body_def Let_def case_prod_beta)
qed

lemma maybeSpawnDrop_result:
  assumes "sized s"
  shows "\<exists>s'. maybeSpawnDrop s = Some s' \<and> fasts s' = fasts s \<and>
     (if drop_spawn_due s then spawns_drop s s'
      else drops s' = drops s \<and> column_occupied s' = column_occupied s)"
  unfolding drop_spawn_due_def spawns_drop_def by (rule maybeSpawnDrop_result_raw [OF assms])

lemma maybeSpawnDrop_cases:
  assumes "sized s" obtains s' where "maybeSpawnDrop s = Some s'" "fasts s' = fasts s"
    "drop_spawn_due s" "spawns_drop s s'"
  | s' where "maybeSpawnDrop s = Some s'" "fasts s' = fasts s" "\<not> drop_spawn_due s"
    "drops s' = drops s" "column_occupied s' = column_occupied s"
proof -
  from maybeSpawnDrop_result [OF assms] obtain s' where s': "maybeSpawnDrop s = Some s'"
    "fasts s' = fasts s" "if drop_spawn_due s then spawns_drop s s'
      else drops s' = drops s \<and> column_occupied s' = column_occupied s" by blast
  show thesis
  proof (cases "drop_spawn_due s")
    case True
    with s' that(1) show ?thesis by simp
  next
    case False
    with s' that(2) show ?thesis by simp
  qed
qed

lemma maybeSpawnFastDrop_result:
  assumes "sized s"
  shows "\<exists>s'. maybeSpawnFastDrop s = Some s' \<and> drops s' = drops s
      \<and> column_occupied s' = column_occupied s \<and>
     (if fast_spawn_due s then spawns_fast s s' else fasts s' = fasts s)"
  unfolding fast_spawn_due_def spawns_fast_def by (rule maybeSpawnFastDrop_result_raw [OF assms])

lemma maybeSpawnFastDrop_cases:
  assumes "sized s" obtains s' where "maybeSpawnFastDrop s = Some s'" "drops s' = drops s"
    "column_occupied s' = column_occupied s" "fast_spawn_due s" "spawns_fast s s'"
  | s' where "maybeSpawnFastDrop s = Some s'" "drops s' = drops s"
    "column_occupied s' = column_occupied s" "\<not> fast_spawn_due s" "fasts s' = fasts s"
proof -
  from maybeSpawnFastDrop_result [OF assms] obtain s' where s': "maybeSpawnFastDrop s = Some s'"
    "drops s' = drops s" "column_occupied s' = column_occupied s"
    "if fast_spawn_due s then spawns_fast s s' else fasts s' = fasts s" by blast
  show thesis
  proof (cases "fast_spawn_due s")
    case True
    with s' that(1) show ?thesis by simp
  next
    case False
    with s' that(2) show ?thesis by simp
  qed
qed

section \<open>The invariant of the fast-drops sketch\<close>

lemma for_each_map_prefix:
  "m \<le> length xs \<Longrightarrow>
   for_each [0..<m] (\<lambda>i xs. do { x \<leftarrow> rd xs i; wr xs i (f x) }) xs
     = Some (map f (take m xs) @ drop m xs)"
proof (induction m)
  case 0
  then show ?case by simp
next
  case (Suc m)
  then have m: "m < length xs" by simp
  have "(map f (take m xs) @ drop m xs) ! m = xs ! m"
    using m by (simp add: nth_append)
  moreover have "(map f (take m xs) @ drop m xs)[m := f (xs ! m)]
      = map f (take (Suc m) xs) @ drop (Suc m) xs"
    using m by (simp add: take_Suc_conv_app_nth list_update_append Cons_nth_drop_Suc [symmetric])
  ultimately show ?case using Suc m by (simp add: for_each_append)
qed

lemma for_each_map:
  "length xs = n \<Longrightarrow>
   for_each [0..<n] (\<lambda>i xs. do { x \<leftarrow> rd xs i; wr xs i (f x) }) xs = Some (map f xs)"
  using for_each_map_prefix [of n xs f] by simp

lemma for_each_fill_prefix:
  "m \<le> length xs \<Longrightarrow>
   for_each [0..<m] (\<lambda>i xs. wr xs i v) xs = Some (replicate m v @ drop m xs)"
proof (induction m)
  case 0
  then show ?case by simp
next
  case (Suc m)
  then have m: "m < length xs" by simp
  have "(replicate m v @ drop m xs)[m := v] = replicate (Suc m) v @ drop (Suc m) xs"
    using m by (simp add: list_update_append Cons_nth_drop_Suc [symmetric] replicate_append_same)
  then show ?case using Suc m by (simp add: for_each_append)
qed

lemma for_each_fill:
  "length xs = n \<Longrightarrow> for_each [0..<n] (\<lambda>i xs. wr xs i v) xs = Some (replicate n v)"
  using for_each_fill_prefix [of n xs v] by simp

lemma setupState_result:
  assumes "sized s"
  shows "setupState s = Some (s\<lparr>drops := map (\<lambda>d. d\<lparr>head := - 1, boost := 0\<rparr>) (drops s),
            column_occupied := replicate TERM_COLS False,
            fasts := map (\<lambda>f. f\<lparr>active := False\<rparr>) (fasts s)\<rparr>)"
  using assms by (simp add: setupState_def sized_def for_each_map for_each_fill)

lemma setupState_inv:
  assumes "sized s"
  shows "\<exists>s'. setupState s = Some s' \<and> occupancy_inv s' \<and> fast_rows_ok (fasts s')
     \<and> (\<forall>i<MAX_DROPS. head (drops s' ! i) = - 1) \<and> (\<forall>c<TERM_COLS. \<not> column_occupied s' ! c)
     \<and> (\<forall>i<MAX_FAST. \<not> active (fasts s' ! i))"
  using assms unfolding setupState_result [OF assms]
  by (auto simp: occupancy_inv_def sized_def drop_ok_def fast_rows_ok_def)

lemma occupancy_inv_fields:
  "occupancy_inv s \<Longrightarrow> drops s' = drops s \<Longrightarrow> column_occupied s' = column_occupied s \<Longrightarrow>
   length (fasts s') = MAX_FAST \<Longrightarrow> occupancy_inv s'"
  by (simp add: occupancy_inv_def sized_def)

lemma occupancy_inv_sized: "occupancy_inv s \<Longrightarrow> sized s"
  by (simp add: occupancy_inv_def)

lemma maybeSpawnDrop_inv:
  assumes inv: "occupancy_inv s"
  shows "\<exists>s'. maybeSpawnDrop s = Some s' \<and> occupancy_inv s' \<and> fasts s' = fasts s"
proof -
  from inv have sz: "sized s" by (rule occupancy_inv_sized)
  then have lf: "length (fasts s) = MAX_FAST" by (simp add: sized_def)
  from sz show ?thesis
  proof (cases rule: maybeSpawnDrop_cases)
    case (2 s')
    then have "occupancy_inv s'" using lf by (intro occupancy_inv_fields [OF inv]) simp_all
    with 2 show ?thesis by blast
  next
    case (1 s')
    from 1(4) obtain i c d where s: "i < MAX_DROPS" "head (drops s ! i) = - 1" "c < TERM_COLS"
      "\<not> column_occupied s ! c" "unat (col d) = c" "head d = 0"
      "drops s' = (drops s)[i := d]" "column_occupied s' = (column_occupied s)[c := True]"
      unfolding spawns_drop_def by blast
    have ok: "drop_ok d" using s by (simp add: drop_ok_def)
    have act: "head d \<noteq> - 1" using s by simp
    from occupancy_inv_activate [OF inv s(1,2) act ok] s
    have "occupancy_inv (s\<lparr>drops := (drops s)[i := d],
            column_occupied := (column_occupied s)[unat (col d) := True]\<rparr>)" by simp
    then have "occupancy_inv s'"
      by (rule occupancy_inv_fields) (use s 1 lf in simp_all)
    with 1 show ?thesis by blast
  qed
qed

lemma fast_rows_ok_update:
  "fast_rows_ok fs \<Longrightarrow> (active f \<Longrightarrow> 0 \<le> sint (f_row f) \<and> sint (f_row f) < int TERM_ROWS) \<Longrightarrow>
   fast_rows_ok (fs[i := f])"
  unfolding fast_rows_ok_def by (auto dest!: set_update_subset_insert [THEN subsetD])

lemma maybeSpawnFastDrop_inv:
  assumes inv: "occupancy_inv s" and fr: "fast_rows_ok (fasts s)"
  shows "\<exists>s'. maybeSpawnFastDrop s = Some s' \<and> occupancy_inv s' \<and> fast_rows_ok (fasts s')"
proof -
  from inv have sz: "sized s" by (rule occupancy_inv_sized)
  then have lf: "length (fasts s) = MAX_FAST" by (simp add: sized_def)
  from sz show ?thesis
  proof (cases rule: maybeSpawnFastDrop_cases)
    case (2 s')
    then have "occupancy_inv s'" using lf by (intro occupancy_inv_fields [OF inv]) simp_all
    with 2 fr show ?thesis by auto
  next
    case (1 s')
    from 1(5) obtain i f where f: "f_row f = 0" "fasts s' = (fasts s)[i := f]"
      unfolding spawns_fast_def by blast
    with fr lf have "length (fasts s') = MAX_FAST" "fast_rows_ok (fasts s')"
      by (simp_all add: fast_rows_ok_update)
    moreover from this 1 have "occupancy_inv s'"
      by (intro occupancy_inv_fields [OF inv]) simp_all
    ultimately show ?thesis using 1 by blast
  qed
qed

lemma fast_rows_ok_nth:
  "fast_rows_ok fs \<longleftrightarrow> (\<forall>i<length fs. active (fs ! i) \<longrightarrow>
      0 \<le> sint (f_row (fs ! i)) \<and> sint (f_row (fs ! i)) < int TERM_ROWS)"
  unfolding fast_rows_ok_def by (metis in_set_conv_nth)

lemma stepFastDrops_body_inv:
  assumes inv: "occupancy_inv s" and fr: "fast_rows_ok (fasts s)" and i: "i < MAX_FAST"
  shows "\<exists>s'. stepFastDrops_body i s = Some s' \<and> occupancy_inv s' \<and> fast_rows_ok (fasts s')"
proof -
  from inv have sz: "sized s" by (rule occupancy_inv_sized)
  from stepFastDrops_body_effect [OF sz i] obtain s' where
    r: "stepFastDrops_body i s = Some s'" and sz': "sized s'"
    and occ: "column_occupied s' = column_occupied s"
    and ds: "\<And>j. j < MAX_DROPS \<Longrightarrow> head (drops s' ! j) = head (drops s ! j)
           \<and> col (drops s' ! j) = col (drops s ! j) \<and> trail (drops s' ! j) = trail (drops s ! j)"
    and others: "\<And>j. j < MAX_FAST \<Longrightarrow> j \<noteq> i \<Longrightarrow> fasts s' ! j = fasts s ! j"
    and self: "active (fasts s' ! i) \<Longrightarrow> active (fasts s ! i)
           \<and> (f_row (fasts s' ! i) = f_row (fasts s ! i)
              \<or> f_row (fasts s' ! i) = f_row (fasts s ! i) + 1
                \<and> sint (f_row (fasts s ! i) + 1) < int TERM_ROWS)"
    by blast
  from sz sz' have len: "length (fasts s) = MAX_FAST" "length (fasts s') = MAX_FAST"
    "length (drops s') = MAX_DROPS" by (simp_all add: sized_def)
  have 1: "occupancy_inv s'"
    by (rule occupancy_inv_same [OF inv len(3) len(2) occ ds])
  have 2: "fast_rows_ok (fasts s')"
    unfolding fast_rows_ok_nth len
  proof (intro allI impI)
    fix j assume j: "j < MAX_FAST" and a: "active (fasts s' ! j)"
    show "0 \<le> sint (f_row (fasts s' ! j)) \<and> sint (f_row (fasts s' ! j)) < int TERM_ROWS"
    proof (cases "j = i")
      case False
      with others [OF j] a fr j len show ?thesis by (simp add: fast_rows_ok_nth)
    next
      case True
      with self a have old: "active (fasts s ! i)" and
        mv: "f_row (fasts s' ! i) = f_row (fasts s ! i)
              \<or> f_row (fasts s' ! i) = f_row (fasts s ! i) + 1
                \<and> sint (f_row (fasts s ! i) + 1) < int TERM_ROWS" by auto
      from old fr i len have b: "0 \<le> sint (f_row (fasts s ! i))"
        "sint (f_row (fasts s ! i)) < int TERM_ROWS" by (auto simp: fast_rows_ok_nth)
      then have "sint (f_row (fasts s ! i) + 1) = sint (f_row (fasts s ! i)) + 1"
        by (intro sint_succ) simp
      with mv b True show ?thesis by auto
    qed
  qed
  from r 1 2 show ?thesis by blast
qed

lemma stepFastDrops_inv:
  assumes "occupancy_inv s" "fast_rows_ok (fasts s)"
  shows "\<exists>s'. stepFastDrops s = Some s' \<and> occupancy_inv s' \<and> fast_rows_ok (fasts s')"
proof -
  have "\<exists>s'. for_each [0..<MAX_FAST] stepFastDrops_body s = Some s'
          \<and> (occupancy_inv s' \<and> fast_rows_ok (fasts s'))"
  proof (rule for_each_invariant)
    show "occupancy_inv s \<and> fast_rows_ok (fasts s)" using assms by simp
  next
    fix i t assume "i \<in> set [0..<MAX_FAST]" "occupancy_inv t \<and> fast_rows_ok (fasts t)"
    then show "\<exists>t'. stepFastDrops_body i t = Some t' \<and> (occupancy_inv t' \<and> fast_rows_ok (fasts t'))"
      using stepFastDrops_body_inv [of t i] by auto
  qed
  then show ?thesis by (simp add: stepFastDrops_def)
qed

lemma apply_operation_inv:
  assumes "state_inv s"
  shows "\<exists>s'. apply_operation x s = Some s' \<and> state_inv s'"
proof (cases x)
  case SpawnDrop
  with assms maybeSpawnDrop_inv [of s] show ?thesis by (auto simp: state_inv_def)
next
  case SpawnFastDrop
  with assms maybeSpawnFastDrop_inv [of s] show ?thesis by (auto simp: state_inv_def)
next
  case StepDrops
  with assms stepDrops_inv [of s] show ?thesis by (auto simp: state_inv_def)
next
  case StepFastDrops
  with assms stepFastDrops_inv [of s] show ?thesis by (auto simp: state_inv_def)
qed

lemma run_inv:
  assumes "state_inv s"
  shows "\<exists>s'. run xs s = Some s' \<and> state_inv s'"
  using assms
proof (induction xs arbitrary: s)
  case Nil
  then show ?case by simp
next
  case (Cons x xs)
  from apply_operation_inv [OF Cons.prems, of x] obtain t
    where t: "apply_operation x s = Some t" "state_inv t" by blast
  from Cons.IH [OF t(2)] t(1) show ?case by simp
qed

lemma active_in_column_card:
  "active_in_column ds c = card {i. i < length ds \<and> head (ds ! i) \<noteq> - 1 \<and> unat (col (ds ! i)) = c}"
  by (simp add: active_in_column_def length_filter_conv_card)

lemma occupancy_inv_count:
  assumes inv: "occupancy_inv s" and c: "c < TERM_COLS"
  shows "active_in_column (drops s) c = (if column_occupied s ! c then 1 else 0)"
proof -
  let ?S = "{i. i < length (drops s) \<and> head (drops s ! i) \<noteq> - 1 \<and> unat (col (drops s ! i)) = c}"
  from inv have len: "length (drops s) = MAX_DROPS"
    and uniq: "\<And>a b. a < MAX_DROPS \<Longrightarrow> b < MAX_DROPS \<Longrightarrow> head (drops s ! a) \<noteq> - 1 \<Longrightarrow>
         head (drops s ! b) \<noteq> - 1 \<Longrightarrow> unat (col (drops s ! a)) = unat (col (drops s ! b)) \<Longrightarrow> a = b"
    and occ: "column_occupied s ! c \<longleftrightarrow>
         (\<exists>j<MAX_DROPS. head (drops s ! j) \<noteq> - 1 \<and> unat (col (drops s ! j)) = c)"
    using c by (auto simp: occupancy_inv_def sized_def)
  show ?thesis
  proof (cases "column_occupied s ! c")
    case True
    with occ obtain j where j: "j < MAX_DROPS" "head (drops s ! j) \<noteq> - 1"
      "unat (col (drops s ! j)) = c" by blast
    have "?S = {j}"
    proof (rule set_eqI)
      fix x show "x \<in> ?S \<longleftrightarrow> x \<in> {j}"
        using j uniq [of x j] len by auto
    qed
    with True show ?thesis by (simp add: active_in_column_card)
  next
    case False
    with occ have "?S = {}" using len by auto
    with False show ?thesis by (simp add: active_in_column_card)
  qed
qed

lemma maybeSpawnDrop_activates_free:
  assumes sz: "sized s" and r: "maybeSpawnDrop s = Some s'" and i: "i < MAX_DROPS"
    and before: "head (drops s ! i) = - 1" and after: "head (drops s' ! i) \<noteq> - 1"
  shows "\<not> column_occupied s ! unat (col (drops s' ! i))"
proof -
  from sz have len: "length (drops s) = MAX_DROPS" by (simp add: sized_def)
  from sz show ?thesis
  proof (cases rule: maybeSpawnDrop_cases)
    case (2 t)
    with r before after show ?thesis by simp
  next
    case (1 t)
    with r have "spawns_drop s s'" by simp
    then obtain j c d where s: "j < MAX_DROPS" "\<not> column_occupied s ! c" "unat (col d) = c"
      "drops s' = (drops s)[j := d]"
      unfolding spawns_drop_def by blast
    have "j = i"
    proof (rule ccontr)
      assume "j \<noteq> i"
      with s(4) have "drops s' ! i = drops s ! i" by simp
      with before after show False by simp
    qed
    with s i len show ?thesis by simp
  qed
qed

lemma sized_power_on: "sized power_on"
  by (simp add: power_on_def sized_def)

section \<open>Single steps of the fast-drops sketch\<close>

lemma stepDrops_body_step_drop:
  assumes "occupancy_inv s" "i < MAX_DROPS"
  shows "\<exists>s'. stepDrops_body i s = Some s' \<and> occupancy_inv s'
     \<and> drops s' = (drops s)[i := step_drop (drops s ! i)]"
proof -
  from assms have sz: "sized s" and ok: "drop_ok (drops s ! i)"
    by (auto simp: occupancy_inv_def)
  from stepDrops_body_inv [OF assms] obtain s' where s': "stepDrops_body i s = Some s'"
    "occupancy_inv s'" by blast
  have "drops s' = (drops s)[i := step_drop (drops s ! i)]"
  proof (cases "head (drops s ! i) = - 1")
    case True
    with s'(1) assms(2) sz show ?thesis
      by (simp add: stepDrops_body_def step_drop_def sized_def)
  next
    case False
    with ok have c: "unat (col (drops s ! i)) < TERM_COLS" by (simp add: drop_ok_def)
    with s'(1) assms(2) sz False show ?thesis
      by (auto simp: stepDrops_body_def step_drop_def sized_def Let_def split: if_splits)
  qed
  with s' show ?thesis by blast
qed

lemma stepDrops_prefix:
  assumes "occupancy_inv s" "n \<le> MAX_DROPS"
  shows "\<exists>s'. for_each [0..<n] stepDrops_body s = Some s' \<and> occupancy_inv s'
     \<and> (\<forall>j<MAX_DROPS. drops s' ! j = (if j < n then step_drop (drops s ! j) else drops s ! j))"
  using assms(2)
proof (induction n)
  case 0
  with assms(1) show ?case by simp
next
  case (Suc n)
  then obtain t where t: "for_each [0..<n] stepDrops_body s = Some t" "occupancy_inv t"
    "\<And>j. j < MAX_DROPS \<Longrightarrow> drops t ! j = (if j < n then step_drop (drops s ! j) else drops s ! j)"
    by auto
  from Suc.prems have n: "n < MAX_DROPS" by simp
  from stepDrops_body_step_drop [OF t(2) n] obtain s' where s': "stepDrops_body n t = Some s'"
    "occupancy_inv s'" "drops s' = (drops t)[n := step_drop (drops t ! n)]" by blast
  from t(2) have len: "length (drops t) = MAX_DROPS" by (simp add: occupancy_inv_def sized_def)
  have "\<forall>j<MAX_DROPS. drops s' ! j = (if j < Suc n then step_drop (drops s ! j) else drops s ! j)"
    using s'(3) t(3) len n by (auto simp: nth_list_update less_Suc_eq)
  with t(1) s'(1,2) show ?case by (simp add: for_each_append)
qed

lemma stepDrops_step_drop:
  assumes "occupancy_inv s"
  shows "\<exists>s'. stepDrops s = Some s' \<and> occupancy_inv s'
     \<and> (\<forall>j<MAX_DROPS. drops s' ! j = step_drop (drops s ! j))"
  using stepDrops_prefix [OF assms, of MAX_DROPS] by (simp add: stepDrops_def)

lemma step_drop_head:
  assumes "drop_ok d" "head d \<noteq> - 1"
  shows "head (step_drop d) = - 1
     \<or> sint (head (step_drop d)) = sint (head d)
     \<or> sint (head (step_drop d)) = sint (head d) + 1"
proof -
  from assms have b: "0 \<le> sint (head d)" "sint (head d) \<le> 22 + uint (trail d)"
    by (auto simp: drop_ok_def)
  with uint_trail_le [of "trail d"] have "sint (head d) < 32767" by linarith
  then have s: "sint (head d + 1) = sint (head d) + 1" by (rule sint_succ)
  from head_advance [of d] s show ?thesis
    by (auto simp: step_drop_def Let_def)
qed

lemma for_each_inactive:
  assumes "length (drops s) = MAX_DROPS" "\<forall>k\<in>set ks. k < MAX_DROPS \<and> head (drops s ! k) = - 1"
  shows "for_each ks stepDrops_body s = Some s"
  using assms by (induction ks) (auto simp: stepDrops_body_def)

lemma upt_split3: "i < n \<Longrightarrow> [0..<n] = [0..<i] @ i # [Suc i..<n]"
  by (metis le_add1 less_imp_add_positive upt_add_eq_append upt_conv_Cons plus_nat.add_0)

lemma stepDrops_lone:
  assumes l: "lone i s" and r: "stepDrops_body i s = Some t"
    and keep: "\<forall>j<MAX_DROPS. j \<noteq> i \<longrightarrow> drops t ! j = drops s ! j" "length (drops t) = MAX_DROPS"
  shows "stepDrops s = Some t"
proof -
  from l have i: "i < MAX_DROPS" and len: "length (drops s) = MAX_DROPS"
    and others: "\<And>j. j < MAX_DROPS \<Longrightarrow> j \<noteq> i \<Longrightarrow> head (drops s ! j) = - 1"
    by (auto simp: lone_def sized_def)
  have 1: "for_each [0..<i] stepDrops_body s = Some s"
    using len others i by (intro for_each_inactive) auto
  have 2: "for_each [Suc i..<MAX_DROPS] stepDrops_body t = Some t"
    using keep others by (intro for_each_inactive) auto
  show ?thesis
    unfolding stepDrops_def upt_split3 [OF i] for_each_append
    using 1 2 r by simp
qed


lemma unat_u8_le: "unat (t :: u8) \<le> 255"
proof -
  have "int (unat t) \<le> 255" using uint_trail_le [of t] by (simp only: uint_nat)
  then show ?thesis by linarith
qed

lemma advance_falling:
  assumes "age d = 0" "speed d = 1"
  shows "head (advance d) = head d + 1" "age (advance d) = 0" "speed (advance d) = 1"
  using assms by (simp_all add: advance_def Let_def)

lemma falling_step:
  assumes f: "falling i c t k s" and c: "unat c < TERM_COLS" and k: "k < 22 + unat t"
  shows "\<exists>s'. stepDrops s = Some s' \<and> falling i c t (Suc k) s'"
proof -
  let ?d = "drops s ! i"
  from f have l: "lone i s" and h: "sint (head ?d) = int k" and a: "age ?d = 0" "speed ?d = 1"
    and cc: "col ?d = c" "trail ?d = t" and occ: "column_occupied s ! unat c"
    by (auto simp: falling_def)
  from l have sz: "sized s" and i: "i < MAX_DROPS" by (auto simp: lone_def)
  then have len: "length (drops s) = MAX_DROPS" "length (column_occupied s) = TERM_COLS"
    by (auto simp: sized_def)
  have "unat t \<le> 255" by (rule unat_u8_le)
  with k h have "sint (head ?d) < 32767" by linarith
  then have h': "sint (head ?d + 1) = int k + 1" using h by (simp add: sint_succ)
  from h have act: "head ?d \<noteq> - 1" by auto
  have ut: "uint t = int (unat t)" by (rule uint_nat)
  have "trail_passed (advance ?d) \<longleftrightarrow> int k + 1 - (uint t - 1) \<ge> 24"
    using h' by (simp add: trail_passed_def advance_falling [OF a] cc)
  with k ut have np: "\<not> trail_passed (advance ?d)" by linarith
  let ?s' = "s\<lparr>drops := (drops s)[i := advance ?d]\<rparr>"
  have r: "stepDrops_body i s = Some ?s'"
    using i len act np by (simp add: stepDrops_body_def Let_def)
  have "stepDrops s = Some ?s'"
    by (rule stepDrops_lone [OF l r]) (use len in auto)
  moreover have "falling i c t (Suc k) ?s'"
    using f i len h' advance_falling [OF a] cc
    by (auto simp: falling_def lone_def sized_def)
  ultimately show ?thesis by blast
qed

lemma falling_last:
  assumes f: "falling i c t k s" and c: "unat c < TERM_COLS" and k: "k = 22 + unat t"
  shows "\<exists>s'. stepDrops s = Some s' \<and> gone i c s'"
proof -
  let ?d = "drops s ! i"
  from f have l: "lone i s" and h: "sint (head ?d) = int k" and a: "age ?d = 0" "speed ?d = 1"
    and cc: "col ?d = c" "trail ?d = t" and occ: "column_occupied s ! unat c"
    by (auto simp: falling_def)
  from l have sz: "sized s" and i: "i < MAX_DROPS" by (auto simp: lone_def)
  then have len: "length (drops s) = MAX_DROPS" "length (column_occupied s) = TERM_COLS"
    by (auto simp: sized_def)
  have "unat t \<le> 255" by (rule unat_u8_le)
  with k h have "sint (head ?d) < 32767" by linarith
  then have h': "sint (head ?d + 1) = int k + 1" using h by (simp add: sint_succ)
  from h have act: "head ?d \<noteq> - 1" by auto
  have ut: "uint t = int (unat t)" by (rule uint_nat)
  have "trail_passed (advance ?d) \<longleftrightarrow> int k + 1 - (uint t - 1) \<ge> 24"
    using h' by (simp add: trail_passed_def advance_falling [OF a] cc)
  with k ut have p: "trail_passed (advance ?d)" by linarith
  let ?s' = "s\<lparr>drops := (drops s)[i := (advance ?d)\<lparr>head := - 1, boost := 0\<rparr>],
                column_occupied := (column_occupied s)[unat c := False]\<rparr>"
  have r: "stepDrops_body i s = Some ?s'"
    using i len act p c cc by (simp add: stepDrops_body_def Let_def)
  have "stepDrops s = Some ?s'"
    by (rule stepDrops_lone [OF l r]) (use len in auto)
  moreover have "gone i c ?s'"
    using f i len c by (auto simp: gone_def falling_def lone_def sized_def)
  ultimately show ?thesis by blast
qed

lemma gone_step:
  assumes "gone i c s"
  shows "stepDrops s = Some s"
proof -
  from assms have "length (drops s) = MAX_DROPS" "\<forall>k<MAX_DROPS. head (drops s ! k) = - 1"
    by (auto simp: gone_def lone_def sized_def)
  then show ?thesis unfolding stepDrops_def by (intro for_each_inactive) auto
qed

lemma falling_run:
  assumes f: "falling i c t 0 s" and c: "unat c < TERM_COLS"
  shows "n \<le> 22 + unat t \<Longrightarrow> \<exists>s'. repeat_step n stepDrops s = Some s' \<and> falling i c t n s'"
proof (induction n)
  case 0
  with f show ?case by simp
next
  case (Suc n)
  then obtain s' where s': "repeat_step n stepDrops s = Some s'" "falling i c t n s'" by auto
  from Suc.prems have "n < 22 + unat t" by simp
  from falling_step [OF s'(2) c this] s'(1) show ?case by simp
qed

lemma gone_run:
  assumes f: "falling i c t 0 s" and c: "unat c < TERM_COLS"
  shows "Suc (22 + unat t) \<le> n \<Longrightarrow> \<exists>s'. repeat_step n stepDrops s = Some s' \<and> gone i c s'"
proof (induction n rule: dec_induct)
  case base
  from falling_run [OF f c, of "22 + unat t"] obtain s1
    where s1: "repeat_step (22 + unat t) stepDrops s = Some s1" "falling i c t (22 + unat t) s1"
    by auto
  from falling_last [OF s1(2) c] obtain s2 where s2: "stepDrops s1 = Some s2" "gone i c s2"
    by auto
  with s1(1) have "repeat_step (Suc (22 + unat t)) stepDrops s = Some s2"
    by (simp only: repeat_step.simps option.case)
  with s2(2) show ?case by blast
next
  case (step n)
  then obtain s' where s': "repeat_step n stepDrops s = Some s'" "gone i c s'"
    by auto
  with gone_step [OF s'(2)] have "repeat_step (Suc n) stepDrops s = Some s'"
    by (simp only: repeat_step.simps option.case)
  with s'(2) show ?case by blast
qed

lemma findDropIndexInColumn_loop_cong:
  assumes "length ds' = length ds" "\<forall>k\<in>set ks. head (ds' ! k) = head (ds ! k) \<and> col (ds' ! k) = col (ds ! k)"
  shows "findDropIndexInColumn_loop ds' c ks = findDropIndexInColumn_loop ds c ks"
  using assms by (induction ks) (auto simp: rd_def)

lemma stepFastDrops_hit:
  assumes sz: "sized s" and i: "i < MAX_FAST"
    and act: "active (fasts s ! i)"
    and move: "f_age (fasts s ! i) + 1 \<ge> f_speed (fasts s ! i)"
    and inside: "sint (f_row (fasts s ! i) + 1) < int TERM_ROWS"
    and di: "findDropIndexInColumn (drops s) (f_col (fasts s ! i)) = Some di" "di \<noteq> - 1"
    and reach: "sint (f_row (fasts s ! i) + 1) \<ge> sint (head (drops s ! nat di))"
  shows "\<exists>s'. stepFastDrops s = Some s' \<and> \<not> active (fasts s' ! i)
           \<and> boost (drops s' ! nat di) \<noteq> 0"
proof -
  from sz have len: "length (drops s) = MAX_DROPS" by (simp add: sized_def)
  from findDropIndexInColumn_result [OF len, of "f_col (fasts s ! i)"] di
  have dr: "0 \<le> di" "nat di < MAX_DROPS" by auto
  define I1 where "I1 t \<longleftrightarrow> sized t \<and> fasts t ! i = fasts s ! i
      \<and> (\<forall>j<MAX_DROPS. head (drops t ! j) = head (drops s ! j) \<and> col (drops t ! j) = col (drops s ! j))"
    for t :: state
  define I2 where "I2 t \<longleftrightarrow> sized t \<and> \<not> active (fasts t ! i) \<and> boost (drops t ! nat di) \<noteq> 0"
    for t :: state
  have "\<exists>t. for_each [0..<i] stepFastDrops_body s = Some t \<and> I1 t"
  proof (rule for_each_invariant)
    show "I1 s" using sz by (simp add: I1_def)
  next
    fix k t assume k: "k \<in> set [0..<i]" and t: "I1 t"
    then have k': "k < MAX_FAST" "i \<noteq> k" using i by auto
    from t have "sized t" by (simp add: I1_def)
    from stepFastDrops_body_effect [OF this k'(1)] obtain t' where
      t': "stepFastDrops_body k t = Some t'" "sized t'"
      "\<forall>j<MAX_DROPS. head (drops t' ! j) = head (drops t ! j)
           \<and> col (drops t' ! j) = col (drops t ! j) \<and> trail (drops t' ! j) = trail (drops t ! j)
           \<and> (boost (drops t ! j) \<noteq> 0 \<longrightarrow> boost (drops t' ! j) \<noteq> 0)"
      "\<forall>j<MAX_FAST. j \<noteq> k \<longrightarrow> fasts t' ! j = fasts t ! j" by blast
    from t'(4) i k'(2) have "fasts t' ! i = fasts t ! i" by simp
    with t t'(2,3) have "I1 t'" by (simp add: I1_def)
    with t'(1) show "\<exists>t'. stepFastDrops_body k t = Some t' \<and> I1 t'" by blast
  qed
  then obtain t where t: "for_each [0..<i] stepFastDrops_body s = Some t" "I1 t" by blast
  from t(2) have tsz: "sized t" and tf: "fasts t ! i = fasts s ! i"
    and td: "\<And>j. j < MAX_DROPS \<Longrightarrow> head (drops t ! j) = head (drops s ! j)
        \<and> col (drops t ! j) = col (drops s ! j)" by (auto simp: I1_def)
  from tsz have tlen: "length (drops t) = MAX_DROPS" by (simp add: sized_def)
  have "findDropIndexInColumn (drops t) (f_col (fasts s ! i))
      = findDropIndexInColumn (drops s) (f_col (fasts s ! i))"
    unfolding findDropIndexInColumn_def
    by (rule findDropIndexInColumn_loop_cong) (use td tlen len in auto)
  with di have tdi: "findDropIndexInColumn (drops t) (f_col (fasts t ! i)) = Some di"
    by (simp add: tf)
  from stepFastDrops_body_hit [OF tsz i, of di] act move inside tdi di(2) reach td [OF dr(2)] tf
  obtain u where u: "stepFastDrops_body i t = Some u" "\<not> active (fasts u ! i)"
    "boost (drops u ! nat di) \<noteq> 0" by auto
  from stepFastDrops_body_effect [OF tsz i] u(1) have "sized u" by auto
  with u have "I2 u" by (simp add: I2_def)
  have "\<exists>v. for_each [Suc i..<MAX_FAST] stepFastDrops_body u = Some v \<and> I2 v"
  proof (rule for_each_invariant)
    show "I2 u" by fact
  next
    fix k t assume k: "k \<in> set [Suc i..<MAX_FAST]" and t: "I2 t"
    then have k': "k < MAX_FAST" "i \<noteq> k" by auto
    from t have "sized t" by (simp add: I2_def)
    from stepFastDrops_body_effect [OF this k'(1)] obtain t' where
      t': "stepFastDrops_body k t = Some t'" "sized t'"
      "\<forall>j<MAX_DROPS. head (drops t' ! j) = head (drops t ! j)
           \<and> col (drops t' ! j) = col (drops t ! j) \<and> trail (drops t' ! j) = trail (drops t ! j)
           \<and> (boost (drops t ! j) \<noteq> 0 \<longrightarrow> boost (drops t' ! j) \<noteq> 0)"
      "\<forall>j<MAX_FAST. j \<noteq> k \<longrightarrow> fasts t' ! j = fasts t ! j" by blast
    from t'(4) i k'(2) have "fasts t' ! i = fasts t ! i" by simp
    moreover from t'(3) dr(2) t have "boost (drops t' ! nat di) \<noteq> 0" by (simp add: I2_def)
    ultimately have "I2 t'" using t t'(2) by (simp add: I2_def)
    with t'(1) show "\<exists>t'. stepFastDrops_body k t = Some t' \<and> I2 t'" by blast
  qed
  then obtain v where v: "for_each [Suc i..<MAX_FAST] stepFastDrops_body u = Some v" "I2 v"
    by blast
  have "stepFastDrops s = Some v"
    unfolding stepFastDrops_def upt_split3 [OF i] for_each_append
    using t(1) u(1) v(1) by simp
  with v(2) show ?thesis by (auto simp: I2_def)
qed

section \<open>Rendering a frame of the fast-drops sketch\<close>

lemma paint_fast_total:
  assumes "\<forall>k\<in>set ks. k < length fs"
  shows "\<exists>x. paint_fast fs r c ks = Some x"
  using assms by (induction ks) auto

lemma paint_drop_total:
  assumes "\<forall>k\<in>set ks. k < length ds"
  shows "\<exists>x. paint_drop ds r c ks = Some x"
  using assms by (induction ks) (auto simp: Let_def)

lemma cell_total:
  assumes "sized s" "c < TERM_COLS"
  shows "\<exists>x. cell s r c = Some x"
proof -
  from assms have len: "length (fasts s) = MAX_FAST" "length (drops s) = MAX_DROPS"
    "length (column_occupied s) = TERM_COLS" by (simp_all add: sized_def)
  from paint_fast_total [of "[0..<MAX_FAST]" "fasts s" r c] len
  obtain b ch p where 1: "paint_fast (fasts s) r c [0..<MAX_FAST] = Some (b, ch, p)"
    by (metis atLeastLessThan_iff prod_cases3 set_upt)
  from paint_drop_total [of "[0..<MAX_DROPS]" "drops s" r c] len
  obtain b' ch' p' where 2: "paint_drop (drops s) r c [0..<MAX_DROPS] = Some (b', ch', p')"
    by (metis atLeastLessThan_iff prod_cases3 set_upt)
  show ?thesis using 1 2 len assms(2) by (simp add: cell_def)
qed

lemma cell_value_Some:
  assumes "sized s" "c < TERM_COLS"
  shows "cell s r c = Some (cell_value s (r, c))"
  using cell_total [OF assms, of r] by (auto simp: cell_value_def)

lemma render_cells:
  assumes "sized s" "\<forall>c\<in>set cs. c < TERM_COLS"
  shows "for_each cs (render_cell s r) (out, prev)
     = Some (out @ emit prev (map (\<lambda>c. cell_value s (r, c)) cs),
             fst (List.last ((prev, CHR '' '') # map (\<lambda>c. cell_value s (r, c)) cs)))"
  using assms(2)
proof (induction cs arbitrary: out prev)
  case Nil
  then show ?case by simp
next
  case (Cons c cs)
  then have c: "c < TERM_COLS" by simp
  obtain b ch where v: "cell_value s (r, c) = (b, ch)" by (cases "cell_value s (r, c)")
  with cell_value_Some [OF assms(1) c, of r] have "cell s r c = Some (b, ch)" by simp
  then have "render_cell s r c (out, prev)
      = Some (out @ (if b \<noteq> prev then [SetColor b] else []) @ [Glyph ch], b)"
    by (simp add: render_cell_def)
  with Cons v show ?case by simp
qed

lemma colors_of_append [simp]: "colors_of (xs @ ys) = colors_of xs @ colors_of ys"
  by (induction xs) (auto split: serial.splits)

lemma glyphs_of_append [simp]: "glyphs_of (xs @ ys) = glyphs_of xs @ glyphs_of ys"
  by (induction xs) (auto split: serial.splits)

lemma colors_of_emit: "colors_of (emit prev xs) = color_changes prev (map fst xs)"
  by (induction xs arbitrary: prev) auto

lemma glyphs_of_emit: "glyphs_of (emit prev xs) = map snd xs"
  by (induction xs arbitrary: prev) auto

lemma color_changes_append:
  "color_changes prev (xs @ ys) = color_changes prev xs @ color_changes (List.last (prev # xs)) ys"
  by (induction xs arbitrary: prev) auto

lemma render_row_result:
  assumes "sized s"
  shows "render_row s r (out, prev)
     = Some (out @ emit prev (map (\<lambda>c. cell_value s (r, c)) [0..<TERM_COLS])
                 @ (if r < TERM_ROWS - 1 then [CrLf] else []),
             fst (List.last ((prev, CHR '' '') # map (\<lambda>c. cell_value s (r, c)) [0..<TERM_COLS])))"
  unfolding render_row_def
  by (subst render_cells [OF assms]) auto

lemma last_fst: "fst (List.last (x # xs)) = List.last (fst x # map fst xs)"
  by (induction xs arbitrary: x) auto

lemma render_rows:
  assumes "sized s"
  shows "\<exists>out' prev'. for_each rs (render_row s) (out, prev) = Some (out', prev')
     \<and> colors_of out' = colors_of out @ color_changes prev
          (map fst (concat (map (\<lambda>r. map (\<lambda>c. cell_value s (r, c)) [0..<TERM_COLS]) rs)))
     \<and> glyphs_of out' = glyphs_of out
          @ map snd (concat (map (\<lambda>r. map (\<lambda>c. cell_value s (r, c)) [0..<TERM_COLS]) rs))"
proof (induction rs arbitrary: out prev)
  case Nil
  then show ?case by simp
next
  case (Cons r rs)
  let ?row = "map (\<lambda>c. cell_value s (r, c)) [0..<TERM_COLS]"
  let ?out1 = "out @ emit prev ?row @ (if r < TERM_ROWS - 1 then [CrLf] else [])"
  let ?prev1 = "fst (List.last ((prev, CHR '' '') # ?row))"
  from Cons [of ?out1 ?prev1] obtain out' prev' where
    1: "for_each rs (render_row s) (?out1, ?prev1) = Some (out', prev')"
    "colors_of out' = colors_of ?out1 @ color_changes ?prev1
          (map fst (concat (map (\<lambda>r. map (\<lambda>c. cell_value s (r, c)) [0..<TERM_COLS]) rs)))"
    "glyphs_of out' = glyphs_of ?out1
          @ map snd (concat (map (\<lambda>r. map (\<lambda>c. cell_value s (r, c)) [0..<TERM_COLS]) rs))"
    by blast
  have c: "colors_of ?out1 = colors_of out @ color_changes prev (map fst ?row)"
    by (simp add: colors_of_emit)
  have g: "glyphs_of ?out1 = glyphs_of out @ map snd ?row"
    by (simp add: glyphs_of_emit)
  have p: "?prev1 = List.last (prev # map fst ?row)"
    by (simp only: last_fst fst_conv)
  have "for_each (r # rs) (render_row s) (out, prev) = Some (out', prev')"
    using 1(1) by (simp add: render_row_result [OF assms])
  moreover have "colors_of out' = colors_of out @ color_changes prev
          (map fst (concat (map (\<lambda>r. map (\<lambda>c. cell_value s (r, c)) [0..<TERM_COLS]) (r # rs))))"
    unfolding 1(2) c p by (simp add: color_changes_append)
  moreover have "glyphs_of out' = glyphs_of out
          @ map snd (concat (map (\<lambda>r. map (\<lambda>c. cell_value s (r, c)) [0..<TERM_COLS]) (r # rs)))"
    unfolding 1(3) g by simp
  ultimately show ?case by blast
qed

lemma scan_order_cells:
  "map f scan_order = concat (map (\<lambda>r. map (\<lambda>c. f (r, c)) [0..<TERM_COLS]) [0..<TERM_ROWS])"
  by (simp add: scan_order_def map_concat comp_def)

lemma renderFrame_result:
  assumes "sized s"
  shows "\<exists>out. renderFrame s salt = Some out
     \<and> colors_of out = color_changes 255 (map (\<lambda>rc. fst (cell_value s rc)) scan_order)
     \<and> glyphs_of out = map (\<lambda>rc. snd (cell_value s rc)) scan_order"
proof -
  from render_rows [OF assms, of "[0..<TERM_ROWS]" "[Home]" 255] obtain out' prev' where
    1: "for_each [0..<TERM_ROWS] (render_row s) ([Home], 255) = Some (out', prev')"
    "colors_of out' = colors_of [Home] @ color_changes 255
          (map fst (concat (map (\<lambda>r. map (\<lambda>c. cell_value s (r, c)) [0..<TERM_COLS]) [0..<TERM_ROWS])))"
    "glyphs_of out' = glyphs_of [Home]
          @ map snd (concat (map (\<lambda>r. map (\<lambda>c. cell_value s (r, c)) [0..<TERM_COLS]) [0..<TERM_ROWS]))"
    by blast
  have "renderFrame s salt = Some (out' @ [ResetColor])"
    using 1(1) by (simp add: renderFrame_def)
  moreover have "colors_of (out' @ [ResetColor])
      = color_changes 255 (map (\<lambda>rc. fst (cell_value s rc)) scan_order)"
    unfolding scan_order_cells using 1(2) by (simp add: map_concat comp_def)
  moreover have "glyphs_of (out' @ [ResetColor]) = map (\<lambda>rc. snd (cell_value s rc)) scan_order"
    unfolding scan_order_cells using 1(3) by (simp add: map_concat comp_def)
  ultimately show ?thesis by blast
qed

lemma paint_fast_inactive:
  assumes "\<forall>k\<in>set ks. k < length fs \<and> \<not> active (fs ! k)"
  shows "paint_fast fs r c ks = Some (0, CHR '' '', False)"
  using assms by (induction ks) auto

lemma paint_drop_inactive:
  assumes "\<forall>k\<in>set ks. k < length ds \<and> head (ds ! k) = - 1"
  shows "paint_drop ds r c ks = Some (0, CHR '' '', False)"
  using assms by (induction ks) auto

lemma cell_blank:
  assumes "sized s" "c < TERM_COLS" "\<forall>i<MAX_DROPS. head (drops s ! i) = - 1"
    "\<forall>i<MAX_FAST. \<not> active (fasts s ! i)"
  shows "cell_value s (r, c) = (0, CHR '' '')"
proof -
  from assms have len: "length (fasts s) = MAX_FAST" "length (drops s) = MAX_DROPS"
    "length (column_occupied s) = TERM_COLS" by (simp_all add: sized_def)
  have 1: "paint_fast (fasts s) r c [0..<MAX_FAST] = Some (0, CHR '' '', False)"
    using assms(4) len by (intro paint_fast_inactive) auto
  have 2: "paint_drop (drops s) r c [0..<MAX_DROPS] = Some (0, CHR '' '', False)"
    using assms(3) len by (intro paint_drop_inactive) auto
  show ?thesis using 1 2 len assms(2) by (simp add: cell_value_def cell_def)
qed

lemma color_changes_replicate: "color_changes prev (replicate n b) = (if n = 0 \<or> b = prev then [] else [b])"
  by (induction n arbitrary: prev) auto

lemma length_scan_order: "length scan_order = TERM_ROWS * TERM_COLS"
  by (simp add: scan_order_def length_concat comp_def sum_list_triv)

lemma scan_order_cols: "rc \<in> set scan_order \<Longrightarrow> snd rc < TERM_COLS"
  by (auto simp: scan_order_def)

lemma map_const_replicate: "(\<And>x. x \<in> set xs \<Longrightarrow> f x = v) \<Longrightarrow> map f xs = replicate (length xs) v"
  by (induction xs) auto

lemma renderFrame_blank:
  assumes "sized s" "\<forall>i<MAX_DROPS. head (drops s ! i) = - 1"
    "\<forall>i<MAX_FAST. \<not> active (fasts s ! i)"
  shows "\<exists>out. renderFrame s salt = Some out \<and> colors_of out = [0]
     \<and> glyphs_of out = replicate (TERM_ROWS * TERM_COLS) (CHR '' '')"
proof -
  have v: "cell_value s rc = (0, CHR '' '')" if "rc \<in> set scan_order" for rc
    using cell_blank [OF assms(1) scan_order_cols [OF that] assms(2,3), of "fst rc"] by simp
  have 1: "map (\<lambda>rc. fst (cell_value s rc)) scan_order = replicate (TERM_ROWS * TERM_COLS) 0"
    using v by (subst map_const_replicate [where v = 0]) (auto simp: length_scan_order)
  have 2: "map (\<lambda>rc. snd (cell_value s rc)) scan_order
      = replicate (TERM_ROWS * TERM_COLS) (CHR '' '')"
    using v by (subst map_const_replicate [where v = "CHR '' ''"]) (auto simp: length_scan_order)
  from renderFrame_result [OF assms(1), of salt] show ?thesis
    unfolding 1 2 by (simp add: color_changes_replicate)
qed

subsection \<open>The frame, event by event\<close>

lemma render_rows_exact:
  assumes "sized s"
  shows "\<exists>prev'. for_each rs (render_row s) (out, prev)
     = Some (out @ frame_rows (row_cells s) prev rs, prev')"
proof (induction rs arbitrary: out prev)
  case Nil
  then show ?case by simp
next
  case (Cons r rs)
  let ?row = "map (\<lambda>c. cell_value s (r, c)) [0..<TERM_COLS]"
  let ?out1 = "out @ emit prev ?row @ (if r < TERM_ROWS - 1 then [CrLf] else [])"
  let ?prev1 = "fst (List.last ((prev, CHR '' '') # ?row))"
  have p: "?prev1 = List.last (prev # map fst ?row)"
    by (simp only: last_fst fst_conv)
  from Cons [of ?out1 ?prev1] obtain prev' where
    "for_each rs (render_row s) (?out1, ?prev1)
       = Some (?out1 @ frame_rows (row_cells s) ?prev1 rs, prev')" by blast
  then have "for_each (r # rs) (render_row s) (out, prev)
       = Some (?out1 @ frame_rows (row_cells s) ?prev1 rs, prev')"
    by (simp add: render_row_result [OF assms])
  moreover have "?out1 @ frame_rows (row_cells s) ?prev1 rs
      = out @ frame_rows (row_cells s) prev (r # rs)"
    unfolding p by (simp add: row_cells_def)
  ultimately show ?case by (simp only:) blast
qed

lemma renderFrame_exact:
  assumes "sized s"
  shows "renderFrame s salt = Some (expected_frame s)"
proof -
  from render_rows_exact [OF assms, of "[0..<TERM_ROWS]" "[Home]" 255] obtain prev' where
    "for_each [0..<TERM_ROWS] (render_row s) ([Home], 255)
      = Some ([Home] @ frame_rows (row_cells s) 255 [0..<TERM_ROWS], prev')" by blast
  then show ?thesis by (simp add: renderFrame_def expected_frame_def)
qed

lemma emit_blank:
  "emit prev (replicate n (0, CHR '' ''))
     = (if n = 0 \<or> prev = 0 then [] else [SetColor 0]) @ replicate n (Glyph (CHR '' ''))"
  by (induction n arbitrary: prev) (auto simp: replicate_append_same)

lemma last_blank: "List.last (0 # map fst (replicate n (0 :: u8, ch))) = 0"
  by (induction n) auto

lemma frame_rows_blank:
  assumes "\<forall>r\<in>set rs. cells r = replicate n (0, CHR '' '')"
  shows "frame_rows cells 0 rs
     = concat (map (\<lambda>r. replicate n (Glyph (CHR '' '')) @ (if r < TERM_ROWS - 1 then [CrLf] else [])) rs)"
  using assms by (induction rs) (simp_all add: emit_blank last_blank)

lemma row_cells_blank:
  assumes "sized s" "\<forall>i<MAX_DROPS. head (drops s ! i) = - 1"
    "\<forall>i<MAX_FAST. \<not> active (fasts s ! i)"
  shows "row_cells s r = replicate TERM_COLS (0, CHR '' '')"
proof -
  have "map (\<lambda>c. cell_value s (r, c)) [0..<TERM_COLS]
      = replicate (length [0..<TERM_COLS]) (0, CHR '' '')"
    by (rule map_const_replicate) (use cell_blank [OF assms(1) _ assms(2,3)] in auto)
  then show ?thesis by (simp add: row_cells_def del: upt_Suc)
qed

lemma expected_frame_blank:
  assumes "sized s" "\<forall>i<MAX_DROPS. head (drops s ! i) = - 1"
    "\<forall>i<MAX_FAST. \<not> active (fasts s ! i)"
  shows "expected_frame s = Home # SetColor 0
     # concat (replicate (TERM_ROWS - 1) (replicate TERM_COLS (Glyph (CHR '' '')) @ [CrLf]))
     @ replicate TERM_COLS (Glyph (CHR '' '')) @ [ResetColor]"
proof -
  let ?row = "replicate TERM_COLS (Glyph (CHR '' ''))"
  let ?f = "\<lambda>r. ?row @ (if r < TERM_ROWS - 1 then [CrLf] else [])"
  note rc = row_cells_blank [OF assms]
  define rest :: "nat list" where "rest = [1..<23] @ [23]"
  have u: "[0..<TERM_ROWS] = 0 # rest"
    by (simp add: rest_def upt_conv_Cons upt_rec [of 0] del: upt_Suc)
  have b: "frame_rows (row_cells s) 0 rest = concat (map ?f rest)"
    by (rule frame_rows_blank) (simp add: rc)
  have "map ?f [1..<23] = replicate (length [1..<23]) (?row @ [CrLf])"
    by (rule map_const_replicate) auto
  then have m: "concat (map ?f rest) = concat (replicate 22 (?row @ [CrLf])) @ ?row"
    by (simp add: rest_def del: upt_Suc replicate_Suc replicate.simps)
  from b m have bm: "frame_rows (row_cells s) 0 rest
      = concat (replicate 22 (?row @ [CrLf])) @ ?row" by (simp only:)
  have "frame_rows (row_cells s) 255 [0..<TERM_ROWS]
      = SetColor 0 # ?row @ [CrLf] @ concat (replicate 22 (?row @ [CrLf])) @ ?row"
    unfolding u by (simp add: rc emit_blank last_blank bm del: replicate_Suc replicate.simps)
  also have "?row @ [CrLf] @ concat (replicate 22 (?row @ [CrLf])) @ ?row
      = concat (replicate 23 (?row @ [CrLf])) @ ?row"
  proof -
    have "(23 :: nat) = Suc 22" by simp
    then have "concat (replicate 23 (?row @ [CrLf]))
        = (?row @ [CrLf]) @ concat (replicate 22 (?row @ [CrLf]))"
      by (simp only: replicate_Suc concat.simps)
    then show ?thesis by (simp only: append_assoc)
  qed
  finally show ?thesis by (simp add: expected_frame_def del: upt_Suc replicate_Suc replicate.simps)
qed


section \<open>The per-column sketch\<close>

lemma stepColumns_map:
  "length cols = OPT_TERM_COLS \<Longrightarrow> stepColumns cols = Some (map step_column cols)"
  unfolding stepColumns_def by (rule for_each_map)

lemma sint_succ8: "sint (x :: i8) < 127 \<Longrightarrow> sint (x + 1) = sint x + 1"
proof -
  assume a: "sint x < 127"
  have "- (2 ^ 7) \<le> sint x" using sint_ge [of x] by simp
  then have "signed_take_bit 7 (sint x + 1) = sint x + 1"
    using a by (intro signed_take_bit_int_eq_self) auto
  then show ?thesis by (simp add: sint_word_ariths)
qed

lemma colors_of_opt_append [simp]:
  "colors_of_opt (xs @ ys) = colors_of_opt xs @ colors_of_opt ys"
  by (induction xs) (auto split: serial_opt.splits)

lemma glyphs_of_opt_append [simp]:
  "glyphs_of_opt (xs @ ys) = glyphs_of_opt xs @ glyphs_of_opt ys"
  by (induction xs) (auto split: serial_opt.splits)

lemma brightnessFor_total:
  "c < length cols \<Longrightarrow> \<exists>b. brightnessFor cols c r = Some b
      \<and> (c_head (cols ! c) = - 1 \<longrightarrow> b = 0)"
  by (simp add: brightnessFor_def Let_def)

lemma render_cells_opt:
  assumes "\<forall>c\<in>set cs. c < length cols"
  shows "\<exists>out'. for_each cs (render_cell_opt cols salt r) out = Some out'
     \<and> length (colors_of_opt out') = length (colors_of_opt out) + length cs
     \<and> ((\<forall>c<length cols. c_head (cols ! c) = - 1) \<longrightarrow>
          colors_of_opt out' = colors_of_opt out @ replicate (length cs) 0
          \<and> glyphs_of_opt out' = glyphs_of_opt out @ replicate (length cs) (CHR '' ''))"
  using assms
proof (induction cs arbitrary: out)
  case Nil
  then show ?case by simp
next
  case (Cons c cs)
  then have c: "c < length cols" by simp
  from brightnessFor_total [OF c, of r] obtain b where b: "brightnessFor cols c r = Some b"
    "c_head (cols ! c) = - 1 \<longrightarrow> b = 0" by blast
  let ?ch = "if b = 0 then CHR '' '' else charFor c r (salt + push_bit 8 (of_nat r))"
  let ?out1 = "out @ [OSetColor b, OGlyph ?ch, OResetColor]"
  have 1: "render_cell_opt cols salt r c out = Some ?out1"
    using b(1) by (simp add: render_cell_opt_def)
  from Cons.IH [of ?out1] Cons.prems obtain out' where
    2: "for_each cs (render_cell_opt cols salt r) ?out1 = Some out'"
    "length (colors_of_opt out') = length (colors_of_opt ?out1) + length cs"
    "(\<forall>c<length cols. c_head (cols ! c) = - 1) \<longrightarrow>
          colors_of_opt out' = colors_of_opt ?out1 @ replicate (length cs) 0
          \<and> glyphs_of_opt out' = glyphs_of_opt ?out1 @ replicate (length cs) (CHR '' '')"
    by auto
  have "for_each (c # cs) (render_cell_opt cols salt r) out = Some out'"
    using 1 2(1) by simp
  moreover have "length (colors_of_opt out') = length (colors_of_opt out) + length (c # cs)"
    using 2(2) by simp
  moreover have "(\<forall>c<length cols. c_head (cols ! c) = - 1) \<longrightarrow>
          colors_of_opt out' = colors_of_opt out @ replicate (length (c # cs)) 0
          \<and> glyphs_of_opt out' = glyphs_of_opt out @ replicate (length (c # cs)) (CHR '' '')"
    using 2(3) b(2) c by (auto simp: replicate_append_same)
  ultimately show ?case by blast
qed

lemma render_rows_opt:
  assumes "length cols = OPT_TERM_COLS"
  shows "\<exists>out'. for_each rs (render_row_opt cols salt) out = Some out'
     \<and> length (colors_of_opt out') = length (colors_of_opt out) + length rs * OPT_TERM_COLS
     \<and> ((\<forall>c<OPT_TERM_COLS. c_head (cols ! c) = - 1) \<longrightarrow>
          colors_of_opt out' = colors_of_opt out @ replicate (length rs * OPT_TERM_COLS) 0
          \<and> glyphs_of_opt out' = glyphs_of_opt out
              @ replicate (length rs * OPT_TERM_COLS) (CHR '' ''))"
proof (induction rs arbitrary: out)
  case Nil
  then show ?case by simp
next
  case (Cons r rs)
  from render_cells_opt [of "[0..<OPT_TERM_COLS]" cols salt r out] assms
  obtain out1 where 1: "for_each [0..<OPT_TERM_COLS] (render_cell_opt cols salt r) out = Some out1"
    "length (colors_of_opt out1) = length (colors_of_opt out) + OPT_TERM_COLS"
    "(\<forall>c<OPT_TERM_COLS. c_head (cols ! c) = - 1) \<longrightarrow>
          colors_of_opt out1 = colors_of_opt out @ replicate OPT_TERM_COLS 0
          \<and> glyphs_of_opt out1 = glyphs_of_opt out @ replicate OPT_TERM_COLS (CHR '' '')"
    by auto
  have r: "render_row_opt cols salt r out = Some (out1 @ [OLf])"
    using 1(1) by (simp add: render_row_opt_def)
  from Cons [of "out1 @ [OLf]"] obtain out' where
    2: "for_each rs (render_row_opt cols salt) (out1 @ [OLf]) = Some out'"
    "length (colors_of_opt out') = length (colors_of_opt (out1 @ [OLf])) + length rs * OPT_TERM_COLS"
    "(\<forall>c<OPT_TERM_COLS. c_head (cols ! c) = - 1) \<longrightarrow>
          colors_of_opt out' = colors_of_opt (out1 @ [OLf]) @ replicate (length rs * OPT_TERM_COLS) 0
          \<and> glyphs_of_opt out' = glyphs_of_opt (out1 @ [OLf])
              @ replicate (length rs * OPT_TERM_COLS) (CHR '' '')"
    by blast
  have "for_each (r # rs) (render_row_opt cols salt) out = Some out'"
    using r 2(1) by simp
  moreover have "length (colors_of_opt out')
      = length (colors_of_opt out) + length (r # rs) * OPT_TERM_COLS"
    using 1(2) 2(2) by simp
  moreover have "(\<forall>c<OPT_TERM_COLS. c_head (cols ! c) = - 1) \<longrightarrow>
          colors_of_opt out' = colors_of_opt out @ replicate (length (r # rs) * OPT_TERM_COLS) 0
          \<and> glyphs_of_opt out' = glyphs_of_opt out
              @ replicate (length (r # rs) * OPT_TERM_COLS) (CHR '' '')"
    using 1(3) 2(3) by (auto simp: replicate_add)
  ultimately show ?case by blast
qed

lemma renderFrame_opt_result:
  assumes "length cols = OPT_TERM_COLS"
  shows "\<exists>out. renderFrame_opt cols salt = Some out
     \<and> length (colors_of_opt out) = TERM_ROWS * OPT_TERM_COLS
     \<and> ((\<forall>c<OPT_TERM_COLS. c_head (cols ! c) = - 1) \<longrightarrow>
          colors_of_opt out = replicate (TERM_ROWS * OPT_TERM_COLS) 0
          \<and> glyphs_of_opt out = replicate (TERM_ROWS * OPT_TERM_COLS) (CHR '' ''))"
  using render_rows_opt [OF assms, of "[0..<TERM_ROWS]" salt "[OHome]"]
  by (simp add: renderFrame_opt_def)

lemma sized_seeded: "sized seeded"
  by (simp add: seeded_def power_on_def sized_def)

lemma length_idle_columns: "length idle_columns = OPT_TERM_COLS"
  by (simp add: idle_columns_def)

text \<open>
  From \<open>seeded\<close> the first \<open>maybeSpawnDrop\<close> puts drop 0 in column 36; after three rounds
  the next one puts drop 1 in column 39.
\<close>

lemma seeded_three_frames:
  "map_option (\<lambda>s. (column_occupied s ! 36, active_in_column (drops s) 36, head (drops s ! 1),
        map_option (\<lambda>s'. (head (drops s' ! 1), unat (col (drops s' ! 1)))) (maybeSpawnDrop s)))
     (Option.bind (setupState seeded) (run three_frames)) = Some (True, 1, - 1, Some (0, 39))"
  by code_simp

subsection \<open>The frame of the per-column sketch, event by event\<close>

lemma render_cell_opt_exact:
  assumes "c < length cols"
  shows "render_cell_opt cols salt r c out
     = Some (out @ cell_events_opt (cell_value_opt cols salt (r, c)))"
proof -
  from brightnessFor_total [OF assms, of r] obtain b where "brightnessFor cols c r = Some b"
    by blast
  then show ?thesis
    by (simp add: render_cell_opt_def cell_value_opt_def cell_events_opt_def)
qed

lemma render_cells_opt_exact:
  assumes "\<forall>c\<in>set cs. c < length cols"
  shows "for_each cs (render_cell_opt cols salt r) out
     = Some (out @ concat (map (\<lambda>c. cell_events_opt (cell_value_opt cols salt (r, c))) cs))"
  using assms by (induction cs arbitrary: out) (simp_all add: render_cell_opt_exact)

lemma render_rows_opt_exact:
  assumes "length cols = OPT_TERM_COLS"
  shows "for_each rs (render_row_opt cols salt) out
     = Some (out @ concat (map (\<lambda>r. concat (map (\<lambda>c. cell_events_opt (cell_value_opt cols salt (r, c)))
                                      [0..<OPT_TERM_COLS]) @ [OLf]) rs))"
proof (induction rs arbitrary: out)
  case Nil
  then show ?case by simp
next
  case (Cons r rs)
  have "render_row_opt cols salt r out
      = Some (out @ concat (map (\<lambda>c. cell_events_opt (cell_value_opt cols salt (r, c)))
                                      [0..<OPT_TERM_COLS]) @ [OLf])"
    unfolding render_row_opt_def
    by (subst render_cells_opt_exact) (simp_all add: assms del: upt_Suc)
  then show ?case using Cons [of "out @ concat (map (\<lambda>c. cell_events_opt (cell_value_opt cols salt (r, c)))
                                      [0..<OPT_TERM_COLS]) @ [OLf]"]
    by (simp del: upt_Suc)
qed

lemma renderFrame_opt_exact:
  assumes "length cols = OPT_TERM_COLS"
  shows "renderFrame_opt cols salt = Some (expected_frame_opt cols salt)"
  unfolding renderFrame_opt_def expected_frame_opt_def
  by (subst render_rows_opt_exact [OF assms]) simp

lemma cell_value_opt_idle:
  assumes "c < length cols" "c_head (cols ! c) = - 1"
  shows "cell_value_opt cols salt (r, c) = (0, CHR '' '')"
  using brightnessFor_total [OF assms(1), of r] assms(2)
  by (auto simp: cell_value_opt_def)

lemma expected_frame_opt_idle:
  assumes "length cols = OPT_TERM_COLS" "\<forall>c<OPT_TERM_COLS. c_head (cols ! c) = - 1"
  shows "expected_frame_opt cols salt = OHome # concat (replicate TERM_ROWS
     (concat (replicate OPT_TERM_COLS [OSetColor 0, OGlyph (CHR '' ''), OResetColor]) @ [OLf]))"
proof -
  have c: "map (\<lambda>c. cell_events_opt (cell_value_opt cols salt (r, c))) [0..<OPT_TERM_COLS]
      = replicate (length [0..<OPT_TERM_COLS]) [OSetColor 0, OGlyph (CHR '' ''), OResetColor]" for r
    by (rule map_const_replicate)
      (use assms in \<open>auto simp: cell_value_opt_idle cell_events_opt_def\<close>)
  have "map (\<lambda>r. concat (map (\<lambda>c. cell_events_opt (cell_value_opt cols salt (r, c)))
                                      [0..<OPT_TERM_COLS]) @ [OLf]) [0..<TERM_ROWS]
      = replicate (length [0..<TERM_ROWS])
          (concat (replicate OPT_TERM_COLS [OSetColor 0, OGlyph (CHR '' ''), OResetColor]) @ [OLf])"
    by (rule map_const_replicate) (simp only: c, simp)
  then show ?thesis
    unfolding expected_frame_opt_def by (simp only:) simp
qed

lemma colors_of_opt_cells:
  "colors_of_opt (concat (map (\<lambda>c. cell_events_opt (f c)) cs)) = map (\<lambda>c. fst (f c)) cs"
  by (induction cs) (simp_all add: cell_events_opt_def)

subsection \<open>Runs of the per-column sketch\<close>

lemma for_each_tabulate_prefix:
  "m \<le> length xs \<Longrightarrow>
   for_each [0..<m] (\<lambda>i xs. wr xs i (f i)) xs = Some (map f [0..<m] @ drop m xs)"
proof (induction m)
  case 0
  then show ?case by simp
next
  case (Suc m)
  then have m: "m < length xs" by simp
  have "(map f [0..<m] @ drop m xs)[m := f m] = map f [0..<Suc m] @ drop (Suc m) xs"
    using m by (simp add: list_update_append Cons_nth_drop_Suc [symmetric])
  then show ?case using Suc m by (simp add: for_each_append)
qed

lemma setupColumns_result:
  "length cols = OPT_TERM_COLS \<Longrightarrow>
   setupColumns micros cols = Some (map (\<lambda>c. setup_column (micros c) c) [0..<OPT_TERM_COLS])"
  unfolding setupColumns_def using for_each_tabulate_prefix [of OPT_TERM_COLS cols] by simp

lemma maybeSpawnHeads_map:
  "length cols = OPT_TERM_COLS \<Longrightarrow> maybeSpawnHeads cols = Some (map spawn_head cols)"
  unfolding maybeSpawnHeads_def by (rule for_each_map)

lemma numeral_uint_pos [simp]: "0 < numeral n + uint (t :: 'a::len word)"
  by (simp add: add_pos_nonneg)

lemma column_ok_setup: "column_ok (setup_column m c)"
  using trail_bounds [of "splitmix32 (splitmix32 (m XOR (of_nat c * 0x9e3779b1)))"]
  by (simp add: column_ok_def setup_column_def Let_def)

lemma column_ok_spawn: "column_ok x \<Longrightarrow> column_ok (spawn_head x)"
  using trail_bounds [of "splitmix32 (c_rng x)"]
    uint_ge_0 [of "ucast (splitmix32 (c_rng x) mod 10) + 3 :: u8"]
  by (auto simp: column_ok_def spawn_head_def Let_def)

lemma column_head_succ:
  assumes "column_ok x"
  shows "sint (c_head x + 1) = sint (c_head x) + 1"
proof -
  from assms have "unat (c_trail x) \<le> 12" "sint (c_head x) < 24 + uint (c_trail x)"
    by (simp_all add: column_ok_def)
  with unat_eq_nat_uint [of "c_trail x"] have "sint (c_head x) < 127" by linarith
  then show ?thesis by (rule sint_succ8)
qed

lemma step_column_exact:
  assumes ok: "column_ok x" and act: "c_head x \<noteq> - 1"
  shows "(\<not> c_speed x \<le> c_age x + 1 \<longrightarrow> c_head (step_column x) = c_head x)
     \<and> (c_speed x \<le> c_age x + 1 \<and> sint (c_head x) + 1 < int TERM_ROWS + uint (c_trail x)
          \<longrightarrow> sint (c_head (step_column x)) = sint (c_head x) + 1)
     \<and> (c_speed x \<le> c_age x + 1 \<and> int TERM_ROWS + uint (c_trail x) \<le> sint (c_head x) + 1
          \<longrightarrow> c_head (step_column x) = (if splitmix32 (c_rng x) AND 0x7F < 48 then - 1 else 0))"
  using act column_head_succ [OF ok]
  by (simp add: step_column_def Let_def)

lemma column_ok_step: "column_ok x \<Longrightarrow> column_ok (step_column x)"
proof -
  assume ok: "column_ok x"
  show ?thesis
  proof (cases "c_head x = - 1")
    case True
    with ok show ?thesis by (simp add: step_column_def)
  next
    case False
    have t: "c_trail (step_column x) = c_trail x" by (simp add: step_column_def Let_def)
    from ok have h: "- 1 \<le> sint (c_head x)" "3 \<le> unat (c_trail x)" "unat (c_trail x) \<le> 12"
      "sint (c_head x) < 24 + uint (c_trail x)"
      by (simp_all add: column_ok_def)
    have u: "0 \<le> uint (c_trail x)" by simp
    note e = step_column_exact [OF ok False]
    have "- 1 \<le> sint (c_head (step_column x))
        \<and> sint (c_head (step_column x)) < 24 + uint (c_trail x)"
    proof (cases "c_speed x \<le> c_age x + 1")
      case False
      with e have "c_head (step_column x) = c_head x" by simp
      with h show ?thesis by simp
    next
      case move: True
      show ?thesis
      proof (cases "sint (c_head x) + 1 < int TERM_ROWS + uint (c_trail x)")
        case True
        with e move have "sint (c_head (step_column x)) = sint (c_head x) + 1" by simp
        with h True show ?thesis by simp
      next
        case False
        with e move have "c_head (step_column x) = - 1 \<or> c_head (step_column x) = 0"
          by (simp split: if_splits)
        then have "sint (c_head (step_column x)) = - 1 \<or> sint (c_head (step_column x)) = 0"
          by auto
        with u show ?thesis by linarith
      qed
    qed
    with h t show ?thesis by (simp add: column_ok_def)
  qed
qed

lemma run_opt_map:
  "length cols = OPT_TERM_COLS \<Longrightarrow> run_opt ops cols = Some (map (run_column ops) cols)"
proof (induction ops arbitrary: cols)
  case Nil
  then show ?case by simp
next
  case (Cons op ops)
  show ?case
  proof (cases op)
    case SpawnHeads
    with Cons.prems Cons.IH [of "map spawn_head cols"] show ?thesis
      by (simp add: maybeSpawnHeads_map comp_def)
  next
    case StepColumns
    with Cons.prems Cons.IH [of "map step_column cols"] show ?thesis
      by (simp add: stepColumns_map comp_def)
  qed
qed

lemma column_ok_run: "column_ok x \<Longrightarrow> column_ok (run_column ops x)"
proof (induction ops arbitrary: x)
  case Nil
  then show ?case by simp
next
  case (Cons op ops)
  then show ?case by (cases op) (simp_all add: column_ok_spawn column_ok_step)
qed

lemma step_drop_head_exact:
  assumes "drop_ok d" "head d \<noteq> - 1"
  shows "(\<not> speed d \<le> age d + 1 \<longrightarrow> head (step_drop d) = head d)
     \<and> (speed d \<le> age d + 1 \<and> sint (head d) + 1 - (uint (trail d) - 1) < int TERM_ROWS
          \<longrightarrow> sint (head (step_drop d)) = sint (head d) + 1)
     \<and> (speed d \<le> age d + 1 \<and> int TERM_ROWS \<le> sint (head d) + 1 - (uint (trail d) - 1)
          \<longrightarrow> head (step_drop d) = - 1)"
proof -
  from assms have b: "0 \<le> sint (head d)" "sint (head d) \<le> 22 + uint (trail d)"
    by (auto simp: drop_ok_def)
  with uint_trail_le [of "trail d"] have "sint (head d) < 32767" by linarith
  then have s: "sint (head d + 1) = sint (head d) + 1" by (rule sint_succ)
  have h: "head (advance d) = (if speed d \<le> age d + 1 then head d + 1 else head d)"
    by (simp add: advance_def Let_def)
  have t: "trail_passed (advance d) \<longleftrightarrow>
      int TERM_ROWS \<le> sint (head (advance d)) - (uint (trail d) - 1)"
    by (simp add: trail_passed_def)
  show ?thesis
  proof (cases "speed d \<le> age d + 1")
    case False
    with h have e: "head (advance d) = head d" by simp
    with t b have "\<not> trail_passed (advance d)" by simp
    with False e assms(2) show ?thesis by (simp add: step_drop_def Let_def)
  next
    case True
    with h s have e: "sint (head (advance d)) = sint (head d) + 1" by simp
    show ?thesis
    proof (cases "int TERM_ROWS \<le> sint (head d) + 1 - (uint (trail d) - 1)")
      case True
      with t e have "trail_passed (advance d)" by simp
      with \<open>speed d \<le> age d + 1\<close> True assms(2) show ?thesis
        by (simp add: step_drop_def Let_def)
    next
      case False
      with t e have "\<not> trail_passed (advance d)" by simp
      with \<open>speed d \<le> age d + 1\<close> False assms(2) e show ?thesis
        by (simp add: step_drop_def Let_def)
    qed
  qed
qed

lemma readings_column:
  "c_head (run_column (opt_frames 26 @ [SpawnHeads]) (setup_column (readings 0) 0)) = 26
   \<and> c_trail (run_column (opt_frames 26 @ [SpawnHeads]) (setup_column (readings 0) 0)) = 3
   \<and> c_speed (run_column (opt_frames 26 @ [SpawnHeads]) (setup_column (readings 0) 0)) = 1
   \<and> c_age (run_column (opt_frames 26 @ [SpawnHeads]) (setup_column (readings 0) 0)) = 0
   \<and> splitmix32 (c_rng (run_column (opt_frames 26 @ [SpawnHeads]) (setup_column (readings 0) 0)))
        AND 0x7F = 62
   \<and> c_head (step_column
        (run_column (opt_frames 26 @ [SpawnHeads]) (setup_column (readings 0) 0))) = 0"
  by code_simp

lemma seeded_drop0:
  "map_option (\<lambda>s. (head (drops s ! 0), speed (drops s ! 0), age (drops s ! 0), trail (drops s ! 0)))
     (Option.bind (setupState seeded) (run three_frames)) = Some (0, 4, 3, 9)"
  by code_simp

lemma readings_run:
  "Option.bind (setupColumns readings idle_columns) (run_opt ops)
     = Some (map (\<lambda>c. run_column ops (setup_column (readings c) c)) [0..<OPT_TERM_COLS])"
  by (simp add: setupColumns_result length_idle_columns run_opt_map comp_def)

lemma hd_upt_map: "0 < n \<Longrightarrow> hd (map f [0..<n]) = f 0"
  by (simp add: hd_map upt_conv_Cons)


section \<open>The packed brightness store\<close>

lemma three_mask: "(3 :: 'a::len word) = mask 2"
  by (simp add: mask_eq_exp_minus_1)

lemma pack8: "off \<in> {0, 2, 4, 6} \<Longrightarrow>
   (ucast (drop_bit off (ucast ((b AND NOT (push_bit off 3)) OR push_bit off (v AND 3) :: u8) :: u16) AND 3) :: u8) = v AND 3"
  unfolding three_mask
  apply (rule bit_word_eqI)
  apply (auto simp: bit_simps)
  done

lemma pack16: "off \<in> {0, 2, 4, 6} \<Longrightarrow>
   (ucast (drop_bit off (((d :: u16) AND NOT (push_bit off 3)) OR push_bit off (ucast ((v::u8) AND 3))) AND 3) :: u8) = v AND 3"
  unfolding three_mask
  apply (rule bit_word_eqI)
  apply (auto simp: bit_simps)
  done

lemma reassemble16:
  "(ucast (ucast (d :: u16) :: u8) :: u16) OR push_bit 8 (ucast (ucast (drop_bit 8 d) :: u8)) = d"
  apply (rule bit_word_eqI)
  apply (auto simp: bit_simps)
  done

lemma and3_le: "(v :: u8) AND 3 \<le> 3"
  by (rule word_and_le1)

lemma le3_and3: "(v :: u8) \<le> 3 \<Longrightarrow> v AND 3 = v"
proof -
  assume "v \<le> 3"
  then have "uint v \<le> 3" by (simp add: word_le_def)
  then have "uint v < 2 ^ 2" by simp
  then show ?thesis unfolding three_mask by (simp only: mask_eq_iff)
qed

lemma rd2_Some [simp]: "i < length p \<Longrightarrow> j < length (p ! i) \<Longrightarrow> rd2 p i j = Some (p ! i ! j)"
  by (simp add: rd2_def)

lemma wr2_Some [simp]:
  "i < length p \<Longrightarrow> j < length (p ! i) \<Longrightarrow> wr2 p i j v = Some (p[i := (p ! i)[j := v]])"
  by (simp add: wr2_def)

lemma dims_nth: "dims n m p \<Longrightarrow> i < n \<Longrightarrow> length (p ! i) = m"
  by (simp add: dims_def)

lemma dims_length: "dims n m p \<Longrightarrow> length p = n"
  by (simp add: dims_def)

lemma dims_update_row: "dims n m p \<Longrightarrow> length r = m \<Longrightarrow> dims n m (p[i := r])"
  unfolding dims_def
  by (auto dest!: set_update_subset_insert [THEN subsetD])

lemma dims_update [simp]: "dims n m p \<Longrightarrow> dims n m (p[i := (p ! i)[j := v]])"
proof (cases "i < length p")
  case True
  assume "dims n m p"
  with True show ?thesis by (intro dims_update_row) (simp_all add: dims_def)
next
  case False
  assume "dims n m p"
  with False show ?thesis by (simp add: list_update_beyond)
qed

lemma slot_cases:
  assumes "unat (slot :: u8) < MAX_TRAIL"
  obtains "slot = 0" | "slot = 1" | "slot = 2" | "slot = 3" | "slot = 4" | "slot = 5" | "slot = 6"
    | "slot = 7" | "slot = 8" | "slot = 9" | "slot = 10" | "slot = 11"
proof -
  from assms have "unat slot = 0 \<or> unat slot = 1 \<or> unat slot = 2 \<or> unat slot = 3
    \<or> unat slot = 4 \<or> unat slot = 5 \<or> unat slot = 6 \<or> unat slot = 7 \<or> unat slot = 8
    \<or> unat slot = 9 \<or> unat slot = 10 \<or> unat slot = 11" by arith
  then have "slot = 0 \<or> slot = 1 \<or> slot = 2 \<or> slot = 3
    \<or> slot = 4 \<or> slot = 5 \<or> slot = 6 \<or> slot = 7 \<or> slot = 8
    \<or> slot = 9 \<or> slot = 10 \<or> slot = 11"
    by (simp add: word_unat_eq_iff)
  with that show thesis by blast
qed

lemma set_get_vec:
  assumes d: "dims n 4 p" and i: "unat drop_idx < n"
    and k: "unat slot < MAX_TRAIL"
  shows "\<exists>p'. set_bright_slot_vec p drop_idx slot v = Some p' \<and> dims n 4 p'
      \<and> get_bright_slot_vec p' drop_idx slot = Some (v AND 3)"
proof -
  from d i have l: "length p = n" "length (p ! unat drop_idx) = 4"
    by (auto simp: dims_def)
  note p = pack8 [of 0 _ v, simplified] pack8 [of 2 _ v, simplified]
    pack8 [of 4 _ v, simplified] pack8 [of 6 _ v, simplified]
  from k show ?thesis
    by (cases rule: slot_cases)
      (use d i l p in \<open>simp_all add: set_bright_slot_vec_def get_bright_slot_vec_def Let_def\<close>)
qed

lemma ucast_and3_le: "(ucast ((x :: u16) AND 3) :: u8) \<le> 3"
proof -
  have "(ucast (x AND 3) :: u8) = ucast x AND 3"
    by (rule bit_word_eqI) (auto simp: bit_simps)
  then show ?thesis by (simp add: word_and_le1)
qed

lemma get_vec_le3: "get_bright_slot_vec p drop_idx slot = Some v \<Longrightarrow> v \<le> 3"
  by (auto simp: get_bright_slot_vec_def Let_def bind_eq_Some_conv ucast_and3_le
      split: if_splits)

lemma get_fix_le3: "get_bright_slot_fix p drop_idx slot = Some v \<Longrightarrow> v \<le> 3"
  by (auto simp: get_bright_slot_fix_def Let_def bind_eq_Some_conv ucast_and3_le
      split: if_splits)

lemma get_col_le3: "get_bright_slot_col p drop_idx slot = Some v \<Longrightarrow> v \<le> 3"
  by (auto simp: get_bright_slot_col_def Let_def bind_eq_Some_conv ucast_and3_le
      split: if_splits)

lemma bitpos_eq: "(ucast (slot :: u8) :: u16) * 2 = word_of_int (uint slot * 2)"
proof -
  have "(word_of_int (uint slot * 2) :: u16) = word_of_int (uint slot) * word_of_int 2"
    by (rule of_int_mult)
  also have "(word_of_int (uint slot) :: u16) = ucast slot" by (rule of_int_uint)
  finally show ?thesis by simp
qed

lemma get_fix_eq_col: "get_bright_slot_fix = get_bright_slot_col"
  unfolding get_bright_slot_fix_def get_bright_slot_col_def bitpos_eq by (rule refl)

lemma set_fix_eq_col: "set_bright_slot_fix = set_bright_slot_col"
  unfolding set_bright_slot_fix_def set_bright_slot_col_def bitpos_eq by (rule refl)

lemma length4:
  assumes "length (r :: 'a list) = 4"
  obtains b0 b1 b2 b3 where "r = [b0, b1, b2, b3]"
proof -
  from assms obtain b0 r1 where 1: "r = b0 # r1" "length r1 = 3" by (cases r) auto
  then obtain b1 r2 where 2: "r1 = b1 # r2" "length r2 = 2" by (cases r1) auto
  then obtain b2 r3 where 3: "r2 = b2 # r3" "length r3 = 1" by (cases r2) auto
  then obtain b3 where "r3 = [b3]" by (cases r3) auto
  with 1 2 3 that show thesis by simp
qed

lemma window_word0:
  "(ucast (b0 :: u8) :: u16) OR push_bit 8 (ucast (b1 :: u8))
     = ucast (drop_bit 0 (row_word [b0, b1, b2, b3]))"
  unfolding row_word_def
  by (rule bit_word_eqI) (auto simp: bit_simps dest: bit_imp_le_length)

lemma window_word1:
  "(ucast (b1 :: u8) :: u16) OR push_bit 8 (ucast (b2 :: u8))
     = ucast (drop_bit 8 (row_word [b0, b1, b2, b3]))"
  unfolding row_word_def
  by (rule bit_word_eqI) (auto simp: bit_simps dest: bit_imp_le_length)

lemma window_word2:
  "(ucast (b2 :: u8) :: u16) OR push_bit 8 (ucast (b3 :: u8))
     = ucast (drop_bit 16 (row_word [b0, b1, b2, b3]))"
  unfolding row_word_def
  by (rule bit_word_eqI) (auto simp: bit_simps dest: bit_imp_le_length)

lemma geometry_col:
  assumes "unat (slot :: u8) < MAX_TRAIL"
  shows "\<exists>B off. unat (ucast ((word_of_int (uint slot * 2) :: u16) div 8) :: u8) = B
    \<and> unat (ucast ((word_of_int (uint slot * 2) :: u16) mod 8) :: u8) = off
    \<and> B < 3 \<and> off \<in> {0, 2, 4, 6} \<and> 2 * unat slot = 8 * B + off"
  using assms by (cases rule: slot_cases) simp_all

lemma window_slot:
  assumes "off \<le> 6"
  shows "(ucast (drop_bit off (ucast (drop_bit (8 * B) (W :: u32)) :: u16) AND 3) :: u8)
     = ucast (drop_bit (8 * B + off) W AND 3)"
  unfolding three_mask
  apply (rule bit_word_eqI)
  using assms apply (auto simp: bit_simps ac_simps)
  done

lemma window_word:
  assumes "length r = 4" "B < 3"
  shows "(ucast (r ! B) :: u16) OR push_bit 8 (ucast (r ! Suc B)) = ucast (drop_bit (8 * B) (row_word r))"
proof -
  from assms(1) obtain b0 b1 b2 b3 where r: "r = [b0, b1, b2, b3]" by (rule length4)
  from assms(2) have "B = 0 \<or> B = 1 \<or> B = 2" by arith
  then show ?thesis
    using window_word0 [of b0 b1 b2 b3] window_word1 [of b1 b2 b0 b3] window_word2 [of b2 b3 b0 b1]
    unfolding r by (elim disjE) simp_all
qed

lemma get_col_slot_of:
  assumes d: "dims n 4 p" and i: "unat drop_idx < n" and k: "unat slot < MAX_TRAIL"
  shows "get_bright_slot_col p drop_idx slot = Some (slot_of p (unat drop_idx) (unat slot))"
proof -
  from geometry_col [OF k] obtain B off where
    B: "unat (ucast ((word_of_int (uint slot * 2) :: u16) div 8) :: u8) = B"
    and off: "unat (ucast ((word_of_int (uint slot * 2) :: u16) mod 8) :: u8) = off"
    and b: "B < 3" and o: "off \<in> {0, 2, 4, 6}" and e: "2 * unat slot = 8 * B + off"
    by blast
  let ?r = "p ! unat drop_idx"
  from d i have l: "length ?r = 4" "unat drop_idx < length p"
    by (simp_all add: dims_nth dims_length)
  have "get_bright_slot_col p drop_idx slot
      = Some (ucast (drop_bit off ((ucast (?r ! B) :: u16) OR push_bit 8 (ucast (?r ! Suc B))) AND 3))"
    unfolding get_bright_slot_col_def Let_def B off using l b by simp
  also have "(ucast (?r ! B) :: u16) OR push_bit 8 (ucast (?r ! Suc B))
      = ucast (drop_bit (8 * B) (row_word ?r))"
    using l(1) b by (rule window_word)
  also have "(ucast (drop_bit off (ucast (drop_bit (8 * B) (row_word ?r)) :: u16) AND 3) :: u8)
      = ucast (drop_bit (8 * B + off) (row_word ?r) AND 3)"
    using o by (intro window_slot) auto
  finally show ?thesis by (simp add: slot_of_def e)
qed

lemma store_word0:
  "row_word [ucast (data :: u16), ucast (drop_bit 8 data), b2, b3]
     = (row_word [b0, b1, b2, b3] AND NOT (push_bit 0 (mask 16))) OR push_bit 0 (ucast data)"
  unfolding row_word_def
  by (rule bit_word_eqI) (auto simp: bit_simps dest: bit_imp_le_length)

lemma store_word1:
  "row_word [b0, ucast (data :: u16), ucast (drop_bit 8 data), b3]
     = (row_word [b0, b1, b2, b3] AND NOT (push_bit 8 (mask 16))) OR push_bit 8 (ucast data)"
  unfolding row_word_def
  by (rule bit_word_eqI) (auto simp: bit_simps dest: bit_imp_le_length)

lemma store_word2:
  "row_word [b0, b1, ucast (data :: u16), ucast (drop_bit 8 data)]
     = (row_word [b0, b1, b2, b3] AND NOT (push_bit 16 (mask 16))) OR push_bit 16 (ucast data)"
proof (rule bit_word_eqI)
  fix n :: nat
  assume "n < LENGTH(32)"
  then have "n < 16 \<or> (\<exists>m<8. n = 16 + m) \<or> (\<exists>m<8. n = 24 + m)"
    by (simp only: len_bit0 len_num1) presburger
  then consider "n < 16" | m where "m < 8" "n = 16 + m" | m where "m < 8" "n = 24 + m"
    by blast
  then show "bit (row_word [b0, b1, ucast data, ucast (drop_bit 8 data)]) n
     = bit ((row_word [b0, b1, b2, b3] AND NOT (push_bit 16 (mask 16))) OR push_bit 16 (ucast data)) n"
    unfolding row_word_def
    by cases (auto simp: bit_simps dest: bit_imp_le_length)
qed

lemma store_word:
  assumes "length r = 4" "B < 3"
  shows "row_word (r[B := ucast (data :: u16), Suc B := ucast (drop_bit 8 data)])
     = (row_word r AND NOT (push_bit (8 * B) (mask 16))) OR push_bit (8 * B) (ucast data)"
proof -
  from assms(1) obtain b0 b1 b2 b3 where r: "r = [b0, b1, b2, b3]" by (rule length4)
  from assms(2) have "B = 0 \<or> B = 1 \<or> B = 2" by arith
  then show ?thesis
    using store_word0 [of data b2 b3 b0 b1] store_word1 [of b0 data b3 b1 b2]
      store_word2 [of b0 b1 data b2 b3]
    unfolding r by (elim disjE) simp_all
qed

lemma merge_word:
  assumes "off \<le> 6" "B < 3"
  shows "((W :: u32) AND NOT (push_bit (8 * B) (mask 16)))
      OR push_bit (8 * B) (ucast (((ucast (drop_bit (8 * B) W) :: u16) AND NOT (push_bit off 3))
           OR push_bit off (ucast (v AND 3 :: u8))))
    = (W AND NOT (push_bit (8 * B + off) 3)) OR push_bit (8 * B + off) (ucast (v AND 3))"
  unfolding three_mask
  apply (rule bit_word_eqI)
  using assms apply (auto simp: bit_simps ac_simps)
  done

lemma slot_same:
  assumes "k < 16"
  shows "(ucast (drop_bit (2 * k) (((W :: u32) AND NOT (push_bit (2 * k) 3))
       OR push_bit (2 * k) (ucast (v AND 3 :: u8))) AND 3) :: u8) = v AND 3"
  unfolding three_mask
  apply (rule bit_word_eqI)
  using assms apply (auto simp: bit_simps ac_simps)
  done

lemma slot_other:
  assumes "k \<noteq> k'"
  shows "(ucast (drop_bit (2 * k') (((W :: u32) AND NOT (push_bit (2 * k) 3))
       OR push_bit (2 * k) (ucast (v AND 3 :: u8))) AND 3) :: u8) = ucast (drop_bit (2 * k') W AND 3)"
  unfolding three_mask
  apply (rule bit_word_eqI)
  using assms apply (auto simp: bit_simps ac_simps dest: bit_imp_le_length)
  done

lemma set_col_row:
  assumes d: "dims n 4 p" and i: "unat drop_idx < n" and k: "unat slot < MAX_TRAIL"
  shows "\<exists>r. set_bright_slot_col p drop_idx slot v = Some (p[unat drop_idx := r]) \<and> length r = 4
     \<and> row_word r = (row_word (p ! unat drop_idx) AND NOT (push_bit (2 * unat slot) 3))
          OR push_bit (2 * unat slot) (ucast (v AND 3))"
proof -
  from geometry_col [OF k] obtain B off where
    B: "unat (ucast ((word_of_int (uint slot * 2) :: u16) div 8) :: u8) = B"
    and off: "unat (ucast ((word_of_int (uint slot * 2) :: u16) mod 8) :: u8) = off"
    and b: "B < 3" and o: "off \<in> {0, 2, 4, 6}" and e: "2 * unat slot = 8 * B + off"
    by blast
  let ?r = "p ! unat drop_idx"
  from d i have l: "length ?r = 4" "unat drop_idx < length p"
    by (simp_all add: dims_nth dims_length)
  define data0 where "data0 = (ucast (?r ! B) :: u16) OR push_bit 8 (ucast (?r ! Suc B))"
  define data where "data = (data0 AND NOT (push_bit off 3)) OR push_bit off (ucast (v AND 3))"
  let ?r' = "?r[B := ucast data, Suc B := ucast (drop_bit 8 data)]"
  have "set_bright_slot_col p drop_idx slot v = Some (p[unat drop_idx := ?r'])"
    unfolding set_bright_slot_col_def Let_def B off data_def data0_def using l b by simp
  moreover have "length ?r' = 4" using l by simp
  moreover have "row_word ?r' = (row_word ?r AND NOT (push_bit (2 * unat slot) 3))
          OR push_bit (2 * unat slot) (ucast (v AND 3))"
  proof -
    have "data0 = ucast (drop_bit (8 * B) (row_word ?r))"
      unfolding data0_def using l(1) b by (rule window_word)
    then have "data = ((ucast (drop_bit (8 * B) (row_word ?r)) :: u16) AND NOT (push_bit off 3))
        OR push_bit off (ucast (v AND 3))"
      by (simp only: data_def)
    moreover have "row_word ?r' = (row_word ?r AND NOT (push_bit (8 * B) (mask 16)))
        OR push_bit (8 * B) (ucast data)"
      using l(1) b by (rule store_word)
    moreover from o have "off \<le> 6" by auto
    ultimately show ?thesis
      using merge_word [of off B "row_word ?r" v] b by (simp only: e)
  qed
  ultimately show ?thesis by blast
qed

lemma set_col_slot_of:
  assumes d: "dims n 4 p" and i: "unat drop_idx < n" and k: "unat slot < MAX_TRAIL"
  shows "\<exists>p'. set_bright_slot_col p drop_idx slot v = Some p' \<and> dims n 4 p'
     \<and> slot_of p' (unat drop_idx) (unat slot) = v AND 3
     \<and> (\<forall>k'. k' \<noteq> unat slot \<longrightarrow> slot_of p' (unat drop_idx) k' = slot_of p (unat drop_idx) k')
     \<and> (\<forall>i'. i' \<noteq> unat drop_idx \<longrightarrow> p' ! i' = p ! i')"
proof -
  from set_col_row [OF d i k, of v] obtain r where
    r: "set_bright_slot_col p drop_idx slot v = Some (p[unat drop_idx := r])" "length r = 4"
    "row_word r = (row_word (p ! unat drop_idx) AND NOT (push_bit (2 * unat slot) 3))
          OR push_bit (2 * unat slot) (ucast (v AND 3))"
    by blast
  from d i have l: "unat drop_idx < length p" by (simp add: dims_length)
  have "dims n 4 (p[unat drop_idx := r])" using d r(2) by (rule dims_update_row)
  moreover have g: "slot_of (p[unat drop_idx := r]) (unat drop_idx) k'
      = ucast (drop_bit (2 * k') (row_word r) AND 3)" for k'
    using l by (simp add: slot_of_def)
  have "slot_of (p[unat drop_idx := r]) (unat drop_idx) (unat slot) = v AND 3"
  proof -
    from k have "unat slot < 16" by simp
    then show ?thesis unfolding g r(3) by (rule slot_same)
  qed
  moreover have "slot_of (p[unat drop_idx := r]) (unat drop_idx) k' = slot_of p (unat drop_idx) k'"
    if "k' \<noteq> unat slot" for k'
  proof -
    from that have "unat slot \<noteq> k'" by simp
    then have "slot_of (p[unat drop_idx := r]) (unat drop_idx) k'
        = ucast (drop_bit (2 * k') (row_word (p ! unat drop_idx)) AND 3)"
      unfolding g r(3) by (rule slot_other)
    then show ?thesis by (simp only: slot_of_def)
  qed
  ultimately show ?thesis using r(1) by auto
qed

lemma dims_sample_rows: "dims VEC_MAX_DROPS 4 sample_rows"
  by (simp add: dims_def sample_rows_def)

lemma set_get_col:
  assumes d: "dims n 4 p" and i: "unat drop_idx < n" and k: "unat slot < MAX_TRAIL"
  shows "\<exists>p'. set_bright_slot_col p drop_idx slot v = Some p' \<and> dims n 4 p'
      \<and> get_bright_slot_col p' drop_idx slot = Some (v AND 3)"
proof -
  from set_col_slot_of [OF d i k, of v] obtain p' where
    p': "set_bright_slot_col p drop_idx slot v = Some p'" "dims n 4 p'"
    "slot_of p' (unat drop_idx) (unat slot) = v AND 3" by blast
  from get_col_slot_of [OF p'(2) i k] p' show ?thesis by simp
qed

lemma set_get_fix:
  assumes d: "dims n 4 p" and i: "unat drop_idx < n" and k: "unat slot < MAX_TRAIL"
  shows "\<exists>p'. set_bright_slot_fix p drop_idx slot v = Some p' \<and> dims n 4 p'
      \<and> get_bright_slot_fix p' drop_idx slot = Some (v AND 3)"
  using set_get_col [OF assms] by (simp only: get_fix_eq_col set_fix_eq_col)

subsection \<open>The byte-wise accessors and the row word\<close>

lemma geometry_vec:
  assumes "unat (slot :: u8) < MAX_TRAIL"
  shows "\<exists>B off. unat (ucast (drop_bit 3 ((ucast slot :: u16) * 2)) :: u8) = B
    \<and> unat (ucast (((ucast slot :: u16) * 2) AND 7) :: u8) = off
    \<and> (ucast (((ucast slot :: u16) * 2) AND 7) :: u8) \<le> 6
    \<and> B < 3 \<and> off \<in> {0, 2, 4, 6} \<and> 2 * unat slot = 8 * B + off"
  using assms by (cases rule: slot_cases) simp_all

lemma byte_slot0:
  assumes "off \<le> 6"
  shows "(ucast (drop_bit off (ucast (b0 :: u8) :: u16) AND 3) :: u8)
     = ucast (drop_bit (0 + off) (row_word [b0, b1, b2, b3]) AND 3)"
  unfolding three_mask row_word_def
  apply (rule bit_word_eqI)
  using assms apply (auto simp: bit_simps dest: bit_imp_le_length)
  done

lemma byte_slot1:
  assumes "off \<le> 6"
  shows "(ucast (drop_bit off (ucast (b1 :: u8) :: u16) AND 3) :: u8)
     = ucast (drop_bit (8 + off) (row_word [b0, b1, b2, b3]) AND 3)"
  unfolding three_mask row_word_def
  apply (rule bit_word_eqI)
  using assms apply (auto simp: bit_simps dest: bit_imp_le_length)
  done

lemma byte_slot2:
  assumes "off \<le> 6"
  shows "(ucast (drop_bit off (ucast (b2 :: u8) :: u16) AND 3) :: u8)
     = ucast (drop_bit (16 + off) (row_word [b0, b1, b2, b3]) AND 3)"
  unfolding three_mask row_word_def
  apply (rule bit_word_eqI)
  using assms apply (auto simp: bit_simps dest: bit_imp_le_length)
  done

lemma store_byte0:
  assumes "off \<le> 6"
  shows "row_word [(b0 AND NOT (push_bit off 3)) OR push_bit off (v AND 3), b1, b2, b3]
     = (row_word [b0, b1, b2, b3] AND NOT (push_bit (0 + off) 3)) OR push_bit (0 + off) (ucast (v AND 3 :: u8))"
  unfolding three_mask row_word_def
  apply (rule bit_word_eqI)
  using assms apply (auto simp: bit_simps dest: bit_imp_le_length)
  done

lemma store_byte1:
  assumes "off \<le> 6"
  shows "row_word [b0, (b1 AND NOT (push_bit off 3)) OR push_bit off (v AND 3), b2, b3]
     = (row_word [b0, b1, b2, b3] AND NOT (push_bit (8 + off) 3)) OR push_bit (8 + off) (ucast (v AND 3 :: u8))"
  unfolding three_mask row_word_def
  apply (rule bit_word_eqI)
  using assms apply (auto simp: bit_simps dest: bit_imp_le_length)
  done

lemma store_byte2:
  assumes "off \<le> 6"
  shows "row_word [b0, b1, (b2 AND NOT (push_bit off 3)) OR push_bit off (v AND 3), b3]
     = (row_word [b0, b1, b2, b3] AND NOT (push_bit (16 + off) 3)) OR push_bit (16 + off) (ucast (v AND 3 :: u8))"
  unfolding three_mask row_word_def
  apply (rule bit_word_eqI)
  using assms apply (auto simp: bit_simps dest: bit_imp_le_length)
  done

lemma byte_slot:
  assumes "length r = 4" "B < 3" "off \<le> 6"
  shows "(ucast (drop_bit off (ucast (r ! B :: u8) :: u16) AND 3) :: u8)
     = ucast (drop_bit (8 * B + off) (row_word r) AND 3)"
proof -
  from assms(1) obtain b0 b1 b2 b3 where r: "r = [b0, b1, b2, b3]" by (rule length4)
  from assms(2) have "B = 0 \<or> B = 1 \<or> B = 2" by arith
  then show ?thesis
    using byte_slot0 [OF assms(3), of b0 b1 b2 b3] byte_slot1 [OF assms(3), of b1 b0 b2 b3]
      byte_slot2 [OF assms(3), of b2 b0 b1 b3]
    unfolding r by (elim disjE) simp_all
qed

lemma store_byte:
  assumes "length r = 4" "B < 3" "off \<le> 6"
  shows "row_word (r[B := (r ! B AND NOT (push_bit off 3)) OR push_bit off (v AND 3)])
     = (row_word r AND NOT (push_bit (8 * B + off) 3)) OR push_bit (8 * B + off) (ucast (v AND 3 :: u8))"
proof -
  from assms(1) obtain b0 b1 b2 b3 where r: "r = [b0, b1, b2, b3]" by (rule length4)
  from assms(2) have "B = 0 \<or> B = 1 \<or> B = 2" by arith
  then show ?thesis
    using store_byte0 [OF assms(3), of b0 v b1 b2 b3] store_byte1 [OF assms(3), of b0 b1 v b2 b3]
      store_byte2 [OF assms(3), of b0 b1 b2 v b3]
    unfolding r by (elim disjE) simp_all
qed

lemma get_vec_slot_of:
  assumes d: "dims n 4 p" and i: "unat drop_idx < n" and k: "unat slot < MAX_TRAIL"
  shows "get_bright_slot_vec p drop_idx slot = Some (slot_of p (unat drop_idx) (unat slot))"
proof -
  from geometry_vec [OF k] obtain B off where
    B: "unat (ucast (drop_bit 3 ((ucast slot :: u16) * 2)) :: u8) = B"
    and off: "unat (ucast (((ucast slot :: u16) * 2) AND 7) :: u8) = off"
    and le: "(ucast (((ucast slot :: u16) * 2) AND 7) :: u8) \<le> 6"
    and b: "B < 3" and o: "off \<in> {0, 2, 4, 6}" and e: "2 * unat slot = 8 * B + off"
    by blast
  let ?r = "p ! unat drop_idx"
  from d i have l: "length ?r = 4" "unat drop_idx < length p"
    by (simp_all add: dims_nth dims_length)
  from o have o6: "off \<le> 6" by auto
  have "get_bright_slot_vec p drop_idx slot
      = Some (ucast (drop_bit off (ucast (?r ! B) :: u16) AND 3))"
    unfolding get_bright_slot_vec_def Let_def B off using l b le by simp
  also have "(ucast (drop_bit off (ucast (?r ! B) :: u16) AND 3) :: u8)
      = ucast (drop_bit (8 * B + off) (row_word ?r) AND 3)"
    using l(1) b o6 by (rule byte_slot)
  finally show ?thesis by (simp add: slot_of_def e)
qed

lemma set_vec_row:
  assumes d: "dims n 4 p" and i: "unat drop_idx < n" and k: "unat slot < MAX_TRAIL"
  shows "\<exists>r. set_bright_slot_vec p drop_idx slot v = Some (p[unat drop_idx := r]) \<and> length r = 4
     \<and> row_word r = (row_word (p ! unat drop_idx) AND NOT (push_bit (2 * unat slot) 3))
          OR push_bit (2 * unat slot) (ucast (v AND 3))"
proof -
  from geometry_vec [OF k] obtain B off where
    B: "unat (ucast (drop_bit 3 ((ucast slot :: u16) * 2)) :: u8) = B"
    and off: "unat (ucast (((ucast slot :: u16) * 2) AND 7) :: u8) = off"
    and le: "(ucast (((ucast slot :: u16) * 2) AND 7) :: u8) \<le> 6"
    and b: "B < 3" and o: "off \<in> {0, 2, 4, 6}" and e: "2 * unat slot = 8 * B + off"
    by blast
  let ?r = "p ! unat drop_idx"
  from d i have l: "length ?r = 4" "unat drop_idx < length p"
    by (simp_all add: dims_nth dims_length)
  from o have o6: "off \<le> 6" by auto
  let ?r' = "?r[B := (?r ! B AND NOT (push_bit off 3)) OR push_bit off (v AND 3)]"
  have "set_bright_slot_vec p drop_idx slot v = Some (p[unat drop_idx := ?r'])"
    unfolding set_bright_slot_vec_def Let_def B off using l b le by simp
  moreover have "length ?r' = 4" using l by simp
  moreover have "row_word ?r' = (row_word ?r AND NOT (push_bit (2 * unat slot) 3))
          OR push_bit (2 * unat slot) (ucast (v AND 3))"
    unfolding e using l(1) b o6 by (rule store_byte)
  ultimately show ?thesis by blast
qed

text \<open>
  What a write does, from the row word alone: for the two 16-bit window packings as for
  the byte-wise one.
\<close>

lemma row_write_slots:
  assumes d: "dims n 4 p" and i: "i < n" and k: "k < MAX_TRAIL" and l: "length r = 4"
    and r: "row_word r = (row_word (p ! i) AND NOT (push_bit (2 * k) 3))
          OR push_bit (2 * k) (ucast (v AND 3 :: u8))"
  shows "dims n 4 (p[i := r]) \<and> slot_of (p[i := r]) i k = v AND 3
     \<and> (\<forall>k'. k' \<noteq> k \<longrightarrow> slot_of (p[i := r]) i k' = slot_of p i k')
     \<and> (\<forall>i'. i' \<noteq> i \<longrightarrow> p[i := r] ! i' = p ! i')"
proof -
  from d i have li: "i < length p" by (simp add: dims_length)
  have "dims n 4 (p[i := r])" using d l by (rule dims_update_row)
  moreover have g: "slot_of (p[i := r]) i k' = ucast (drop_bit (2 * k') (row_word r) AND 3)" for k'
    using li by (simp add: slot_of_def)
  have "slot_of (p[i := r]) i k = v AND 3"
  proof -
    from k have "k < 16" by simp
    then show ?thesis unfolding g r by (rule slot_same)
  qed
  moreover have "slot_of (p[i := r]) i k' = slot_of p i k'" if "k' \<noteq> k" for k'
  proof -
    from that have "k \<noteq> k'" by simp
    then have "slot_of (p[i := r]) i k' = ucast (drop_bit (2 * k') (row_word (p ! i)) AND 3)"
      unfolding g r by (rule slot_other)
    then show ?thesis by (simp only: slot_of_def)
  qed
  ultimately show ?thesis by auto
qed

lemma set_vec_slot_of:
  assumes d: "dims n 4 p" and i: "unat drop_idx < n" and k: "unat slot < MAX_TRAIL"
  shows "\<exists>p'. set_bright_slot_vec p drop_idx slot v = Some p' \<and> dims n 4 p'
     \<and> slot_of p' (unat drop_idx) (unat slot) = v AND 3
     \<and> (\<forall>k'. k' \<noteq> unat slot \<longrightarrow> slot_of p' (unat drop_idx) k' = slot_of p (unat drop_idx) k')
     \<and> (\<forall>i'. i' \<noteq> unat drop_idx \<longrightarrow> p' ! i' = p ! i')"
proof -
  from set_vec_row [OF d i k, of v] obtain r where
    r: "set_bright_slot_vec p drop_idx slot v = Some (p[unat drop_idx := r])" "length r = 4"
    "row_word r = (row_word (p ! unat drop_idx) AND NOT (push_bit (2 * unat slot) 3))
          OR push_bit (2 * unat slot) (ucast (v AND 3))"
    by blast
  from row_write_slots [OF d i k r(2,3)] r(1) show ?thesis by blast
qed

lemma slot_of_le3: "slot_of p i k \<le> 3"
  unfolding slot_of_def
proof -
  have "(ucast (drop_bit (2 * k) (row_word (p ! i)) AND 3) :: u8)
      = ucast (drop_bit (2 * k) (row_word (p ! i))) AND 3"
    by (rule bit_word_eqI) (auto simp: bit_simps)
  then show "(ucast (drop_bit (2 * k) (row_word (p ! i)) AND 3) :: u8) \<le> 3"
    by (simp add: word_and_le1)
qed

lemma set_fix_slot_of:
  assumes d: "dims n 4 p" and i: "unat drop_idx < n" and k: "unat slot < MAX_TRAIL"
  shows "\<exists>p'. set_bright_slot_fix p drop_idx slot v = Some p' \<and> dims n 4 p'
     \<and> slot_of p' (unat drop_idx) (unat slot) = v AND 3
     \<and> (\<forall>k'. k' \<noteq> unat slot \<longrightarrow> slot_of p' (unat drop_idx) k' = slot_of p (unat drop_idx) k')
     \<and> (\<forall>i'. i' \<noteq> unat drop_idx \<longrightarrow> p' ! i' = p ! i')"
  using set_col_slot_of [OF assms] by (simp only: set_fix_eq_col)

lemma get_fix_slot_of:
  assumes d: "dims n 4 p" and i: "unat drop_idx < n" and k: "unat slot < MAX_TRAIL"
  shows "get_bright_slot_fix p drop_idx slot = Some (slot_of p (unat drop_idx) (unat slot))"
  using get_col_slot_of [OF assms] by (simp only: get_fix_eq_col)

text \<open>
  From what a pair of accessors does to \<open>slot_of\<close>: reads are in range, a write stores the
  two low bits of the value and leaves every other slot as it was.
\<close>

lemma accessors_in_range:
  fixes get :: "u8 list list \<Rightarrow> u8 \<Rightarrow> u8 \<Rightarrow> u8 option"
    and set :: "u8 list list \<Rightarrow> u8 \<Rightarrow> u8 \<Rightarrow> u8 \<Rightarrow> u8 list list option"
  assumes g: "\<And>p d k. dims n 4 p \<Longrightarrow> unat d < n \<Longrightarrow> unat k < MAX_TRAIL \<Longrightarrow>
       get p d k = Some (slot_of p (unat d) (unat k))"
    and s: "\<And>p d k v. dims n 4 p \<Longrightarrow> unat d < n \<Longrightarrow> unat k < MAX_TRAIL \<Longrightarrow>
       \<exists>p'. set p d k v = Some p' \<and> dims n 4 p'
         \<and> slot_of p' (unat d) (unat k) = v AND 3
         \<and> (\<forall>k'. k' \<noteq> unat k \<longrightarrow> slot_of p' (unat d) k' = slot_of p (unat d) k')
         \<and> (\<forall>i'. i' \<noteq> unat d \<longrightarrow> p' ! i' = p ! i')"
    and d: "dims n 4 p" and i: "unat drop_idx < n" and k: "unat slot < MAX_TRAIL"
  shows "(\<exists>x. get p drop_idx slot = Some x \<and> x \<le> 3)
     \<and> (\<exists>p'. set p drop_idx slot val = Some p' \<and> dims n 4 p'
           \<and> get p' drop_idx slot = Some (val AND 3) \<and> val AND 3 \<le> 3
           \<and> (\<forall>d k. unat d < n \<and> unat k < MAX_TRAIL \<and> (d \<noteq> drop_idx \<or> k \<noteq> slot)
                 \<longrightarrow> get p' d k = get p d k))"
proof
  from g [OF d i k] slot_of_le3 show "\<exists>x. get p drop_idx slot = Some x \<and> x \<le> 3" by simp
next
  from s [OF d i k, of val] obtain p' where p': "set p drop_idx slot val = Some p'" "dims n 4 p'"
    "slot_of p' (unat drop_idx) (unat slot) = val AND 3"
    "\<And>k'. k' \<noteq> unat slot \<Longrightarrow> slot_of p' (unat drop_idx) k' = slot_of p (unat drop_idx) k'"
    "\<And>i'. i' \<noteq> unat drop_idx \<Longrightarrow> p' ! i' = p ! i'" by blast
  have "get p' drop_idx slot = Some (val AND 3)" using g [OF p'(2) i k] p'(3) by simp
  moreover have "val AND 3 \<le> 3" by (rule and3_le)
  moreover have "get p' d' k' = get p d' k'"
    if "unat d' < n" "unat k' < MAX_TRAIL" "d' \<noteq> drop_idx \<or> k' \<noteq> slot" for d' k'
  proof (cases "d' = drop_idx")
    case True
    with that have "unat k' \<noteq> unat slot" by (simp add: word_unat_eq_iff)
    with that True g [OF p'(2) i that(2)] g [OF d i that(2)] p'(4) show ?thesis by simp
  next
    case False
    then have "unat d' \<noteq> unat drop_idx" by (simp add: word_unat_eq_iff)
    then have "slot_of p' (unat d') (unat k') = slot_of p (unat d') (unat k')"
      by (simp add: slot_of_def p'(5))
    with g [OF p'(2) that(1,2)] g [OF d that(1,2)] show ?thesis by simp
  qed
  ultimately show "\<exists>p'. set p drop_idx slot val = Some p' \<and> dims n 4 p'
           \<and> get p' drop_idx slot = Some (val AND 3) \<and> val AND 3 \<le> 3
           \<and> (\<forall>d k. unat d < n \<and> unat k < MAX_TRAIL \<and> (d \<noteq> drop_idx \<or> k \<noteq> slot)
                 \<longrightarrow> get p' d k = get p d k)"
    using p'(1,2) by blast
qed


section \<open>The invariant of the vectorized sketch\<close>

lemma unat_of_nat_u8: "n < 256 \<Longrightarrow> unat (of_nat n :: u8) = n"
  by (simp add: unsigned_of_nat take_bit_nat_eq_self)

lemma get_vec_total:
  assumes d: "dims n 4 p" and i: "unat drop_idx < n" and k: "unat slot < MAX_TRAIL"
  shows "\<exists>v. get_bright_slot_vec p drop_idx slot = Some v"
proof -
  from d i have l: "length p = n" "length (p ! unat drop_idx) = 4"
    by (auto simp: dims_def)
  from k show ?thesis
    by (cases rule: slot_cases)
      (use d i l in \<open>simp_all add: get_bright_slot_vec_def Let_def\<close>)
qed

lemma init_slot_vec_ok:
  assumes "idx < VEC_MAX_DROPS" "k < MAX_TRAIL" "dims VEC_MAX_DROPS MAX_TRAIL ci"
    "dims VEC_MAX_DROPS 4 bp"
  shows "\<exists>r' ci' bp'. init_slot_vec idx k (r, ci, bp) = Some (r', ci', bp')
     \<and> dims VEC_MAX_DROPS MAX_TRAIL ci' \<and> dims VEC_MAX_DROPS 4 bp'"
proof -
  have u: "unat (of_nat idx :: u8) = idx" "unat (of_nat k :: u8) = k"
    using assms by (simp_all add: unat_of_nat_u8)
  define v :: u8 where "v = (if k = 0 then 3 else if k = 1 then 2 else 1)"
  from assms u set_get_vec [of VEC_MAX_DROPS bp "of_nat idx" "of_nat k" v]
  obtain bp' where "set_bright_slot_vec bp (of_nat idx) (of_nat k) v = Some bp'"
    "dims VEC_MAX_DROPS 4 bp'"
    by auto
  then show ?thesis using assms
    by (simp add: init_slot_vec_def Let_def dims_nth dims_length v_def)
qed

lemma clear_slot_vec_ok:
  assumes "idx < VEC_MAX_DROPS" "k < MAX_TRAIL" "dims VEC_MAX_DROPS MAX_TRAIL ci"
    "dims VEC_MAX_DROPS 4 bp"
  shows "\<exists>ci' bp'. clear_slot_vec idx k (r, ci, bp) = Some (r, ci', bp')
     \<and> dims VEC_MAX_DROPS MAX_TRAIL ci' \<and> dims VEC_MAX_DROPS 4 bp'"
proof -
  have u: "unat (of_nat idx :: u8) = idx" "unat (of_nat k :: u8) = k"
    using assms by (simp_all add: unat_of_nat_u8)
  from assms u set_get_vec [of VEC_MAX_DROPS bp "of_nat idx" "of_nat k" 0]
  obtain bp' where "set_bright_slot_vec bp (of_nat idx) (of_nat k) 0 = Some bp'"
    "dims VEC_MAX_DROPS 4 bp'"
    by auto
  then show ?thesis using assms
    by (simp add: clear_slot_vec_def Let_def dims_nth dims_length)
qed

lemma maybeSpawnDrop_vec_cases:
  assumes sz: "vsized s"
  obtains (spawn) s' where "maybeSpawnDrop_vec s = Some s'" "drop_spawn_due_vec s"
      "spawns_drop_vec s s'" "fasts s' = fasts s" "vsized s'"
  | (skip) s' where "maybeSpawnDrop_vec s = Some s'" "\<not> drop_spawn_due_vec s"
      "drops s' = drops s" "column_occupied s' = column_occupied s" "fasts s' = fasts s"
      "drop_char_idx s' = drop_char_idx s" "drop_bright_packed s' = drop_bright_packed s"
proof -
  let ?g1 = "splitmix32 (global_rng s)"
  let ?g2 = "splitmix32 ?g1"
  let ?g3 = "splitmix32 ?g2"
  let ?start = "ucast (?g2 mod 80) :: u8"
  from sz have len: "length (drops s) = VEC_MAX_DROPS" "length (column_occupied s) = TERM_COLS"
    and dm: "dims VEC_MAX_DROPS MAX_TRAIL (drop_char_idx s)"
      "dims VEC_MAX_DROPS 4 (drop_bright_packed s)"
    by (simp_all add: vsized_def)
  from find_inactive_drop_result [of "[0..<VEC_MAX_DROPS]" "drops s"] len
  obtain idx where idx: "find_inactive_drop (drops s) [0..<VEC_MAX_DROPS] = Some idx"
    "if idx = - 1 then \<forall>k\<in>set [0..<VEC_MAX_DROPS]. head (drops s ! k) \<noteq> - 1
     else 0 \<le> idx \<and> nat idx \<in> set [0..<VEC_MAX_DROPS] \<and> head (drops s ! nat idx) = - 1"
    by auto
  from find_col_result [OF len(2), of False ?start "[0..<TERM_COLS]"]
  obtain c where c: "find_col (column_occupied s) False ?start [0..<TERM_COLS] = Some c"
    "if c = - 1 then \<forall>k\<in>set [0..<TERM_COLS]. column_occupied s ! ((unat ?start + k) mod TERM_COLS) \<noteq> False
     else 0 \<le> c \<and> nat c < TERM_COLS \<and> column_occupied s ! nat c = False"
    by auto
  have skipped: thesis if r: "maybeSpawnDrop_vec s = Some (s\<lparr>global_rng := g\<rparr>)"
    and nc: "\<not> drop_spawn_due_vec s" for g
    using r nc by (intro skip [of "s\<lparr>global_rng := g\<rparr>"]) simp_all
  show thesis
  proof (cases "?g1 AND 0xFF \<le> VEC_SPAWN_CHANCE")
    case False
    then have "?g1 AND 0xFF > VEC_SPAWN_CHANCE" by (simp add: not_le)
    then have "maybeSpawnDrop_vec s = Some (s\<lparr>global_rng := ?g1\<rparr>)"
      by (simp add: maybeSpawnDrop_vec_def Let_def)
    moreover from False have "\<not> drop_spawn_due_vec s" by (simp add: drop_spawn_due_vec_def)
    ultimately show ?thesis by (rule skipped)
  next
    case roll: True
    then have roll': "\<not> ?g1 AND 0xFF > VEC_SPAWN_CHANCE" by (simp add: not_less)
    show ?thesis
    proof (cases "idx = - 1")
      case True
      with idx(2) have "\<not> (\<exists>i<VEC_MAX_DROPS. head (drops s ! i) = - 1)" by auto
      then have "\<not> drop_spawn_due_vec s" by (simp add: drop_spawn_due_vec_def)
      moreover from roll' idx(1) True have "maybeSpawnDrop_vec s = Some (s\<lparr>global_rng := ?g1\<rparr>)"
        by (simp add: maybeSpawnDrop_vec_def Let_def)
      ultimately show ?thesis using skipped by blast
    next
      case slot: False
      with idx(2) have i: "0 \<le> idx" "nat idx < VEC_MAX_DROPS" "head (drops s ! nat idx) = - 1"
        by auto
      show ?thesis
      proof (cases "c = - 1")
        case True
        have "\<not> (\<exists>c<TERM_COLS. \<not> column_occupied s ! c)"
        proof
          assume "\<exists>c<TERM_COLS. \<not> column_occupied s ! c"
          then obtain c' where c': "c' < TERM_COLS" "\<not> column_occupied s ! c'" by blast
          from scan_covers [OF c'(1), of "unat ?start"] obtain k
            where "k < TERM_COLS" "(unat ?start + k) mod TERM_COLS = c'" by blast
          with c(2) True c'(2) show False by auto
        qed
        then have "\<not> drop_spawn_due_vec s" by (simp add: drop_spawn_due_vec_def)
        moreover from roll' idx(1) slot c(1) True
        have "maybeSpawnDrop_vec s = Some (s\<lparr>global_rng := ?g2\<rparr>)"
          by (simp add: maybeSpawnDrop_vec_def Let_def)
        ultimately show ?thesis using skipped by blast
      next
        case free: False
        with c(2) have cc: "0 \<le> c" "nat c < TERM_COLS" "\<not> column_occupied s ! nat c" by auto
        define t :: u8 where "t = ucast (?g3 mod 10) + 3"
        have tb: "3 \<le> unat t" "unat t \<le> 12" using trail_bounds [of ?g3] by (simp_all add: t_def)
        let ?I = "\<lambda>st :: u32 \<times> u8 list list \<times> u8 list list.
           dims VEC_MAX_DROPS MAX_TRAIL (fst (snd st)) \<and> dims VEC_MAX_DROPS 4 (snd (snd st))"
        have "\<exists>st. for_each [0..<unat t] (init_slot_vec (nat idx))
            (splitmix32 ?g3, drop_char_idx s, drop_bright_packed s) = Some st \<and> ?I st"
        proof (rule for_each_invariant)
          show "?I (splitmix32 ?g3, drop_char_idx s, drop_bright_packed s)" using dm by simp
        next
          fix k st assume "k \<in> set [0..<unat t]" "?I st"
          with tb i init_slot_vec_ok [of "nat idx" k "fst (snd st)" "snd (snd st)" "fst st"]
          show "\<exists>t'. init_slot_vec (nat idx) k st = Some t' \<and> ?I t'" by auto
        qed
        then obtain r1 ci1 bp1 where 1: "for_each [0..<unat t] (init_slot_vec (nat idx))
            (splitmix32 ?g3, drop_char_idx s, drop_bright_packed s) = Some (r1, ci1, bp1)"
          "dims VEC_MAX_DROPS MAX_TRAIL ci1" "dims VEC_MAX_DROPS 4 bp1" by auto
        have "\<exists>st. for_each [unat t..<MAX_TRAIL] (clear_slot_vec (nat idx)) (r1, ci1, bp1) = Some st
            \<and> ?I st"
        proof (rule for_each_invariant)
          show "?I (r1, ci1, bp1)" using 1 by simp
        next
          fix k st assume "k \<in> set [unat t..<MAX_TRAIL]" "?I st"
          with i clear_slot_vec_ok [of "nat idx" k "fst (snd st)" "snd (snd st)" "fst st"]
          show "\<exists>t'. clear_slot_vec (nat idx) k st = Some t' \<and> ?I t'" by auto
        qed
        then obtain r2 ci2 bp2 where 2: "for_each [unat t..<MAX_TRAIL] (clear_slot_vec (nat idx))
            (r1, ci1, bp1) = Some (r2, ci2, bp2)"
          "dims VEC_MAX_DROPS MAX_TRAIL ci2" "dims VEC_MAX_DROPS 4 bp2" by auto
        let ?d = "\<lparr> col = (word_of_int c :: u8), head = 0, trail = t,
                    speed = ucast (drop_bit 8 ?g3 mod 5) + 1, age = 0, rng = r2,
                    boost = 0 \<rparr>"
        let ?s' = "s\<lparr>global_rng := ?g3, drops := (drops s)[nat idx := ?d],
                      column_occupied := (column_occupied s)[nat c := True],
                      drop_char_idx := ci2, drop_bright_packed := bp2\<rparr>"
        have uc: "unat (word_of_int c :: u8) = nat c"
          using cc by (simp add: unat_word_of_int_col)
        have r: "maybeSpawnDrop_vec s = Some ?s'"
          using roll' idx(1) slot c(1) free i cc len 1(1) 2(1)
          by (simp add: maybeSpawnDrop_vec_def Let_def uc t_def [symmetric])
        have due: "drop_spawn_due_vec s" unfolding drop_spawn_due_vec_def using roll i cc by blast
        have "spawns_drop_vec s ?s'"
          unfolding spawns_drop_vec_def
          apply (rule exI [of _ "nat idx"], rule exI [of _ "nat c"], rule exI [of _ ?d])
          using i cc uc tb speed_bounds [of "drop_bit 8 ?g3"]
          by simp
        moreover have "vsized ?s'" using sz 1 2 by (simp add: vsized_def)
        ultimately show ?thesis using r due by (intro spawn [of ?s']) simp_all
      qed
    qed
  qed
qed

lemma vec_inv_vsized: "vec_inv s \<Longrightarrow> vsized s"
  by (simp add: vec_inv_def)

lemma drops_ok_update:
  assumes "\<forall>d\<in>set ds. drop_ok d \<and> trail_ok d" "drop_ok d'" "trail_ok d'"
  shows "\<forall>d\<in>set (ds[i := d']). drop_ok d \<and> trail_ok d"
  using assms by (auto dest!: set_update_subset_insert [THEN subsetD])

lemma maybeSpawnDrop_vec_inv:
  assumes inv: "vec_inv s"
  shows "\<exists>s'. maybeSpawnDrop_vec s = Some s' \<and> vec_inv s'"
proof -
  from inv have sz: "vsized s" by (rule vec_inv_vsized)
  from sz show ?thesis
  proof (cases rule: maybeSpawnDrop_vec_cases)
    case (skip s')
    with inv have "vec_inv s'" by (simp add: vec_inv_def vsized_def)
    with skip show ?thesis by blast
  next
    case (spawn s')
    from spawn(3) obtain i c d where s: "unat (col d) = c" "c < TERM_COLS" "head d = 0"
      "3 \<le> unat (trail d)" "unat (trail d) \<le> MAX_TRAIL" "drops s' = (drops s)[i := d]"
      unfolding spawns_drop_vec_def by blast
    have "drop_ok d" "trail_ok d" using s by (simp_all add: drop_ok_def trail_ok_def)
    moreover from inv have "\<forall>d\<in>set (drops s). drop_ok d \<and> trail_ok d"
      by (simp add: vec_inv_def)
    ultimately have "\<forall>d\<in>set (drops s'). drop_ok d \<and> trail_ok d"
      unfolding s(6) by (intro drops_ok_update)
    with spawn inv have "vec_inv s'" by (simp add: vec_inv_def)
    with spawn show ?thesis by blast
  qed
qed

lemma maybeSpawnFastDrop_vec_inv:
  assumes inv: "vec_inv s"
  shows "\<exists>s'. maybeSpawnFastDrop_vec s = Some s' \<and> vec_inv s'"
proof -
  let ?g1 = "splitmix32 (global_rng s)"
  let ?g2 = "splitmix32 ?g1"
  let ?g3 = "splitmix32 ?g2"
  let ?start = "ucast (?g2 mod 80) :: u8"
  from inv have len: "length (fasts s) = VEC_MAX_FAST" "length (column_occupied s) = TERM_COLS"
    and fr: "fast_rows_ok (fasts s)"
    by (simp_all add: vec_inv_def vsized_def)
  have keep: "vec_inv (s\<lparr>global_rng := g\<rparr>)" for g
    using inv by (simp add: vec_inv_def vsized_def)
  from find_inactive_fast_result [of "[0..<VEC_MAX_FAST]" "fasts s"] len
  obtain idx where idx: "find_inactive_fast (fasts s) [0..<VEC_MAX_FAST] = Some idx"
    "idx \<noteq> - 1 \<longrightarrow> 0 \<le> idx \<and> nat idx < VEC_MAX_FAST"
    by (auto split: if_splits)
  from find_col_result [OF len(2), of True ?start "[0..<TERM_COLS]"]
  obtain c where c: "find_col (column_occupied s) True ?start [0..<TERM_COLS] = Some c"
    by auto
  show ?thesis
  proof (cases "?g1 AND 0xFF > VEC_SPAWN_FAST_CHANCE \<or> c = - 1 \<or> idx = - 1")
    case True
    then have "maybeSpawnFastDrop_vec s = Some (s\<lparr>global_rng := ?g1\<rparr>)
        \<or> maybeSpawnFastDrop_vec s = Some (s\<lparr>global_rng := ?g2\<rparr>)"
      using c idx(1) by (auto simp: maybeSpawnFastDrop_vec_def Let_def)
    with keep show ?thesis by auto
  next
    case False
    let ?f = "\<lparr> active = True, f_col = (word_of_int c :: u8), f_row = 0,
                 f_speed = 1, f_age = 0, f_rng = splitmix32 ?g3 \<rparr>"
    let ?s' = "s\<lparr>global_rng := ?g3, fasts := (fasts s)[nat idx := ?f]\<rparr>"
    from False idx c len have "maybeSpawnFastDrop_vec s = Some ?s'"
      by (simp add: maybeSpawnFastDrop_vec_def Let_def)
    moreover have "fast_rows_ok ((fasts s)[nat idx := ?f])"
      using fr by (rule fast_rows_ok_update) simp
    then have "vec_inv ?s'" using inv by (simp add: vec_inv_def vsized_def)
    ultimately show ?thesis by blast
  qed
qed

lemma unat_word_of_int_u8: "0 \<le> c \<Longrightarrow> nat c < 256 \<Longrightarrow> unat (word_of_int c :: u8) = nat c"
  by (simp add: unat_eq_nat_uint uint_word_of_int take_bit_int_eq_self)

lemma uint_sint_nonneg: "0 \<le> sint (x :: i16) \<Longrightarrow> uint x = sint x"
proof -
  assume a: "0 \<le> sint x"
  have "sint x < 2 ^ 15" using sint_lt [of x] by simp
  then have b: "sint x < 2 ^ 16" by simp
  have "uint x = uint (word_of_int (sint x) :: i16)" by simp
  also have "\<dots> = take_bit 16 (sint x)" by (simp only: uint_word_of_int_eq) simp
  also have "\<dots> = sint x" using a b by (simp add: take_bit_int_eq_self)
  finally show ?thesis .
qed

lemma unat_ucast_i16: "0 \<le> sint (x :: i16) \<Longrightarrow> sint x < 256 \<Longrightarrow> unat (ucast x :: u8) = nat (sint x)"
proof -
  assume a: "0 \<le> sint x" "sint x < 256"
  then have u: "uint x = sint x" by (simp add: uint_sint_nonneg)
  have n: "unat x = nat (uint x)" by (rule unat_eq_nat_uint)
  with a u have "unat x < 256" by linarith
  then have "unat (ucast x :: u8) = unat x"
    by (simp add: unsigned_ucast_eq take_bit_nat_eq_self)
  with u n show ?thesis by (simp only:)
qed

lemma drop_ok_same:
  "drop_ok d \<Longrightarrow> head d' = head d \<Longrightarrow> col d' = col d \<Longrightarrow> trail d' = trail d \<Longrightarrow> drop_ok d'"
  by (simp add: drop_ok_def)

lemma trail_ok_same:
  "trail_ok d \<Longrightarrow> head d' = head d \<Longrightarrow> trail d' = trail d \<Longrightarrow> trail_ok d'"
  by (simp add: trail_ok_def)

lemma fast_row_succ:
  assumes "0 \<le> sint (r :: i16)" "sint r < int TERM_ROWS"
  shows "sint (r + 1) = sint r + 1"
  using assms by (intro sint_succ) simp

lemma vec_inv_drop:
  "vec_inv s \<Longrightarrow> j < VEC_MAX_DROPS \<Longrightarrow> drop_ok (drops s ! j) \<and> trail_ok (drops s ! j)"
  by (simp add: vec_inv_def vsized_def)

lemma vec_inv_fast:
  "vec_inv s \<Longrightarrow> i < VEC_MAX_FAST \<Longrightarrow> active (fasts s ! i) \<Longrightarrow>
   0 \<le> sint (f_row (fasts s ! i)) \<and> sint (f_row (fasts s ! i)) < int TERM_ROWS"
  by (simp add: vec_inv_def vsized_def fast_rows_ok_def)

lemma vec_inv_update:
  assumes inv: "vec_inv s"
    and d: "drop_ok d" "trail_ok d"
    and f: "active f \<Longrightarrow> 0 \<le> sint (f_row f) \<and> sint (f_row f) < int TERM_ROWS"
    and ci: "dims VEC_MAX_DROPS MAX_TRAIL ci" and bp: "dims VEC_MAX_DROPS 4 bp"
  shows "vec_inv (s\<lparr>drops := (drops s)[j := d], fasts := (fasts s)[i := f],
            drop_char_idx := ci, drop_bright_packed := bp\<rparr>)"
proof -
  from inv have "\<forall>d\<in>set (drops s). drop_ok d \<and> trail_ok d" by (simp add: vec_inv_def)
  then have "\<forall>d\<in>set ((drops s)[j := d]). drop_ok d \<and> trail_ok d" using d
    by (rule drops_ok_update)
  moreover from inv have "fast_rows_ok (fasts s)" by (simp add: vec_inv_def)
  then have "fast_rows_ok ((fasts s)[i := f])" using f by (rule fast_rows_ok_update)
  ultimately show ?thesis using inv ci bp by (simp add: vec_inv_def vsized_def)
qed

lemma vec_inv_update_fast:
  assumes inv: "vec_inv s"
    and f: "active f \<Longrightarrow> 0 \<le> sint (f_row f) \<and> sint (f_row f) < int TERM_ROWS"
  shows "vec_inv (s\<lparr>fasts := (fasts s)[i := f]\<rparr>)"
proof -
  from inv have "fast_rows_ok (fasts s)" by (simp add: vec_inv_def)
  then have "fast_rows_ok ((fasts s)[i := f])" using f by (rule fast_rows_ok_update)
  then show ?thesis using inv by (simp add: vec_inv_def vsized_def)
qed

lemma stepFastDrops_body_vec_found:
  assumes inv: "vec_inv s" and i: "i < VEC_MAX_FAST"
    and act: "active (fasts s ! i)"
    and move: "f_age (fasts s ! i) + 1 \<ge> f_speed (fasts s ! i)"
    and inside: "\<not> sint (f_row (fasts s ! i) + 1) \<ge> int TERM_ROWS"
    and di: "findDropIndexInColumn_loop (drops s) (f_col (fasts s ! i)) [0..<VEC_MAX_DROPS] = Some di"
      "di \<noteq> - 1"
  shows "\<exists>s' d' f'. stepFastDrops_body_vec i s = Some s' \<and> vec_inv s'
     \<and> column_occupied s' = column_occupied s
     \<and> drops s' = (drops s)[nat di := d'] \<and> fasts s' = (fasts s)[i := f']
     \<and> head d' = head (drops s ! nat di) \<and> col d' = col (drops s ! nat di)
     \<and> trail d' = trail (drops s ! nat di)
     \<and> (boost (drops s ! nat di) \<noteq> 0 \<longrightarrow> boost d' \<noteq> 0)
     \<and> f_row f' = f_row (fasts s ! i) + 1
     \<and> (if sint (f_row (fasts s ! i) + 1)
             \<ge> sint (head (drops s ! nat di) - (ucast (trail (drops s ! nat di)) - 1))
         then \<not> active f' \<and> boost d' \<noteq> 0 else active f')"
proof -
  define f0 where "f0 = fasts s ! i"
  define d0 where "d0 = drops s ! nat di"
  define row where "row = f_row f0 + 1"
  define f2 where "f2 = f0\<lparr>f_age := 0, f_row := row\<rparr>"
  define bottom where "bottom = head d0 - (ucast (trail d0) - 1)"
  define dist where "dist = head d0 - row"
  define P where "P \<longleftrightarrow> sint row \<ge> sint bottom \<and> sint row \<le> sint (head d0)
      \<and> sint dist \<ge> 0 \<and> sint dist < uint (trail d0)"
  define L where "L \<longleftrightarrow> sint row \<ge> sint bottom"
  from inv have sz: "vsized s" by (rule vec_inv_vsized)
  then have len: "length (drops s) = VEC_MAX_DROPS" "length (fasts s) = VEC_MAX_FAST"
    and dm: "dims VEC_MAX_DROPS MAX_TRAIL (drop_char_idx s)"
      "dims VEC_MAX_DROPS 4 (drop_bright_packed s)"
    by (simp_all add: vsized_def)
  from findDropIndexInColumn_loop_result [of "[0..<VEC_MAX_DROPS]" "drops s" "f_col (fasts s ! i)"]
    di len
  have d: "0 \<le> di" "nat di < VEC_MAX_DROPS" "head d0 \<noteq> - 1" by (auto simp: d0_def)
  from vec_inv_drop [OF inv d(2)] have ok: "drop_ok d0" "trail_ok d0" by (simp_all add: d0_def)
  with d(3) have tb: "unat (trail d0) \<le> MAX_TRAIL" by (simp add: trail_ok_def)
  have ut: "uint (trail d0) \<le> 12" using tb unat_eq_nat_uint [of "trail d0"] by linarith
  from vec_inv_fast [OF inv i act] have r0: "0 \<le> sint (f_row f0)" "sint (f_row f0) < int TERM_ROWS"
    by (simp_all add: f0_def)
  then have "sint row = sint (f_row f0) + 1" unfolding row_def by (rule fast_row_succ)
  with r0 inside have rr: "0 \<le> sint row" "sint row < int TERM_ROWS"
    by (simp_all add: row_def f0_def)
  have ud: "unat (word_of_int di :: u8) = nat di" using d by (simp add: unat_word_of_int_u8)
  define res where "res = (\<lambda>d1 ci bp bp'.
       s\<lparr>drops := (drops s)[nat di := (if L then d1\<lparr>boost := (if boost d1 < 6 then 6 else boost d1),
                                  rng := splitmix32 (splitmix32 (rng d1))\<rparr> else d1)],
         fasts := (fasts s)[i := (if L then f2\<lparr>active := False\<rparr> else f2)],
         drop_char_idx := ci, drop_bright_packed := (if L then bp' else bp)\<rparr>)"
  have finish: ?thesis
    if pd: "dims VEC_MAX_DROPS MAX_TRAIL ci" "dims VEC_MAX_DROPS 4 bp"
      and same: "head d1 = head d0" "col d1 = col d0" "trail d1 = trail d0" "boost d1 = boost d0"
      and st: "\<And>bp'. set_bright_slot_vec bp (word_of_int di) 0 3 = Some bp' \<Longrightarrow>
         stepFastDrops_body_vec i s = Some (res d1 ci bp bp')"
    for d1 ci bp
  proof -
    from set_get_vec [OF pd(2), of "word_of_int di" 0 3] ud d obtain bp' where
      bp': "set_bright_slot_vec bp (word_of_int di) 0 3 = Some bp'" "dims VEC_MAX_DROPS 4 bp'"
      by auto
    define d' where "d' = (if L then d1\<lparr>boost := (if boost d1 < 6 then 6 else boost d1),
                                  rng := splitmix32 (splitmix32 (rng d1))\<rparr> else d1)"
    define f' where "f' = (if L then f2\<lparr>active := False\<rparr> else f2)"
    define s' where "s' = res d1 ci bp bp'"
    have step: "stepFastDrops_body_vec i s = Some s'" unfolding s'_def using bp'(1) by (rule st)
    have s'_eq: "s' = s\<lparr>drops := (drops s)[nat di := d'], fasts := (fasts s)[i := f'],
         drop_char_idx := ci, drop_bright_packed := (if L then bp' else bp)\<rparr>"
      by (simp add: s'_def res_def d'_def f'_def)
    have hd: "head d' = head d0" "col d' = col d0" "trail d' = trail d0"
      using same by (simp_all add: d'_def)
    have "drop_ok d'" "trail_ok d'"
      using ok hd by (auto intro: drop_ok_same trail_ok_same)
    moreover have "active f' \<Longrightarrow> 0 \<le> sint (f_row f') \<and> sint (f_row f') < int TERM_ROWS"
      using rr by (simp add: f'_def f2_def split: if_splits)
    moreover have "dims VEC_MAX_DROPS 4 (if L then bp' else bp)" using pd bp' by simp
    ultimately have "vec_inv s'" unfolding s'_eq using pd(1) by (intro vec_inv_update [OF inv])
    moreover have "boost d0 \<noteq> 0 \<longrightarrow> boost d' \<noteq> 0" using same by (auto simp: d'_def)
    moreover have "L \<Longrightarrow> boost d' \<noteq> 0" using same by (auto simp: d'_def)
    moreover have "f_row f' = row" by (simp add: f'_def f2_def)
    moreover have "active f' \<longleftrightarrow> \<not> L" using act by (simp add: f'_def f2_def f0_def)
    moreover have "column_occupied s' = column_occupied s" "drops s' = (drops s)[nat di := d']"
      "fasts s' = (fasts s)[i := f']" by (simp_all add: s'_eq)
    ultimately show ?thesis
      using step hd
      unfolding L_def bottom_def row_def f0_def d0_def
      by (intro exI [of _ s'] exI [of _ d'] exI [of _ f']) simp
  qed
  have base: "rd (fasts s) i = Some f0" "active f0" "f_speed f0 \<le> f_age f0 + 1"
    "\<not> int TERM_ROWS \<le> sint row"
    "findDropIndexInColumn_loop (drops s) (f_col f0) [0..<VEC_MAX_DROPS] = Some di"
    "rd (drops s) (nat di) = Some d0"
    using act move inside i len di d by (simp_all add: f0_def row_def d0_def)
  show ?thesis
  proof (cases P)
    case False
    show ?thesis
    proof (rule finish [of "drop_char_idx s" "drop_bright_packed s" d0])
      fix bp' assume "set_bright_slot_vec (drop_bright_packed s) (word_of_int di) 0 3 = Some bp'"
      with False base di(2) i len d
      show "stepFastDrops_body_vec i s
          = Some (res d0 (drop_char_idx s) (drop_bright_packed s) bp')"
        unfolding stepFastDrops_body_vec_def
        by (cases L) (auto simp: Let_def res_def f2_def P_def L_def bottom_def dist_def
            row_def [symmetric])
    qed (use dm in simp_all)
  next
    case True
    then have ds: "0 \<le> sint dist" "sint dist < 12" using ut by (simp_all add: P_def)
    then have uk: "unat (ucast dist :: u8) = nat (sint dist)" by (simp add: unat_ucast_i16)
    with ds have k: "unat (ucast dist :: u8) < MAX_TRAIL" by simp
    from get_vec_total [OF dm(2) _ k, of "word_of_int di"] ud d obtain cur where
      cur: "get_bright_slot_vec (drop_bright_packed s) (word_of_int di) (ucast dist) = Some cur"
      by auto
    from set_get_vec [OF dm(2) _ k, of "word_of_int di" "if cur < 3 then cur + 1 else 3"] ud d
    obtain bp where bp: "set_bright_slot_vec (drop_bright_packed s) (word_of_int di) (ucast dist)
        (if cur < 3 then cur + 1 else 3) = Some bp" "dims VEC_MAX_DROPS 4 bp"
      by auto
    from ds d dm have w: "nat (sint dist) < length (drop_char_idx s ! nat di)"
      "nat di < length (drop_char_idx s)"
      by (simp_all add: dims_nth dims_length)
    let ?d1 = "d0\<lparr>rng := splitmix32 (rng d0)\<rparr>"
    let ?ci = "(drop_char_idx s)[nat di := (drop_char_idx s ! nat di)
        [nat (sint dist) := pickIndex (splitmix32 (rng d0))]]"
    show ?thesis
    proof (rule finish [of ?ci bp ?d1])
      fix bp' assume "set_bright_slot_vec bp (word_of_int di) 0 3 = Some bp'"
      with True base di(2) i len d cur bp(1) w
      show "stepFastDrops_body_vec i s = Some (res ?d1 ?ci bp bp')"
        unfolding stepFastDrops_body_vec_def
        by (cases L) (auto simp: Let_def res_def f2_def P_def L_def bottom_def dist_def
            row_def [symmetric])
    qed (use dm bp in simp_all)
  qed
qed

lemma for_each_focus:
  assumes "i < n" "I1 s"
    and before: "\<And>k t. k < n \<Longrightarrow> k \<noteq> i \<Longrightarrow> I1 t \<Longrightarrow> \<exists>t'. body k t = Some t' \<and> I1 t'"
    and at: "\<And>t. I1 t \<Longrightarrow> \<exists>t'. body i t = Some t' \<and> I2 t'"
    and after: "\<And>k t. k < n \<Longrightarrow> k \<noteq> i \<Longrightarrow> I2 t \<Longrightarrow> \<exists>t'. body k t = Some t' \<and> I2 t'"
  shows "\<exists>s'. for_each [0..<n] body s = Some s' \<and> I2 s'"
proof -
  have "\<exists>t. for_each [0..<i] body s = Some t \<and> I1 t"
    by (rule for_each_invariant [where I = I1]) (use assms(1,2) before in auto)
  then obtain t where t: "for_each [0..<i] body s = Some t" "I1 t" by blast
  from at [OF t(2)] obtain u where u: "body i t = Some u" "I2 u" by blast
  have "\<exists>v. for_each [Suc i..<n] body u = Some v \<and> I2 v"
    by (rule for_each_invariant [where I = I2]) (use u(2) after in auto)
  then obtain v where v: "for_each [Suc i..<n] body u = Some v" "I2 v" by blast
  have "for_each [0..<n] body s = Some v"
    unfolding upt_split3 [OF assms(1)] for_each_append using t(1) u(1) v(1) by simp
  with v(2) show ?thesis by blast
qed

lemma stepFastDrops_body_vec_effect:
  assumes inv: "vec_inv s" and i: "i < VEC_MAX_FAST"
  shows "\<exists>s'. stepFastDrops_body_vec i s = Some s' \<and> vec_inv s'
     \<and> column_occupied s' = column_occupied s
     \<and> (\<forall>j<VEC_MAX_DROPS. head (drops s' ! j) = head (drops s ! j)
           \<and> col (drops s' ! j) = col (drops s ! j) \<and> trail (drops s' ! j) = trail (drops s ! j)
           \<and> (boost (drops s ! j) \<noteq> 0 \<longrightarrow> boost (drops s' ! j) \<noteq> 0))
     \<and> (\<forall>j<VEC_MAX_FAST. j \<noteq> i \<longrightarrow> fasts s' ! j = fasts s ! j)
     \<and> (active (fasts s' ! i) \<longrightarrow> active (fasts s ! i))"
proof -
  from inv have sz: "vsized s" by (rule vec_inv_vsized)
  then have len: "length (drops s) = VEC_MAX_DROPS" "length (fasts s) = VEC_MAX_FAST"
    by (simp_all add: vsized_def)
  let ?f = "fasts s ! i"
  have keep: ?thesis if "stepFastDrops_body_vec i s = Some (s\<lparr>fasts := (fasts s)[i := f']\<rparr>)"
    "active f' \<Longrightarrow> active ?f \<and> 0 \<le> sint (f_row f') \<and> sint (f_row f') < int TERM_ROWS" for f'
  proof -
    have "vec_inv (s\<lparr>fasts := (fasts s)[i := f']\<rparr>)"
      using inv that(2) by (intro vec_inv_update_fast) auto
    with that i len show ?thesis by (auto simp: nth_list_update)
  qed
  show ?thesis
  proof (cases "active ?f")
    case False
    with i len inv show ?thesis by (simp add: stepFastDrops_body_vec_def)
  next
    case act: True
    note r0 = vec_inv_fast [OF inv i act]
    show ?thesis
    proof (cases "f_age ?f + 1 \<ge> f_speed ?f")
      case False
      show ?thesis
        by (rule keep [of "?f\<lparr>f_age := f_age ?f + 1\<rparr>"])
          (use False act i len r0 in \<open>simp_all add: stepFastDrops_body_vec_def Let_def\<close>)
    next
      case move: True
      from r0 have rs: "sint (f_row ?f + 1) = sint (f_row ?f) + 1"
        by (intro fast_row_succ) auto
      show ?thesis
      proof (cases "sint (f_row ?f + 1) \<ge> int TERM_ROWS")
        case True
        show ?thesis
          by (rule keep [of "?f\<lparr>f_age := 0, f_row := f_row ?f + 1, active := False\<rparr>"])
            (use True move act i len in \<open>simp_all add: stepFastDrops_body_vec_def Let_def\<close>)
      next
        case inside: False
        from findDropIndexInColumn_loop_result [of "[0..<VEC_MAX_DROPS]" "drops s" "f_col ?f"] len
        obtain di where di: "findDropIndexInColumn_loop (drops s) (f_col ?f) [0..<VEC_MAX_DROPS] = Some di"
          "di \<noteq> - 1 \<longrightarrow> 0 \<le> di \<and> nat di < VEC_MAX_DROPS"
          by (auto split: if_splits)
        show ?thesis
        proof (cases "di = - 1")
          case True
          show ?thesis
            by (rule keep [of "?f\<lparr>f_age := 0, f_row := f_row ?f + 1\<rparr>"])
              (use True di(1) inside move act i len r0 rs in
                \<open>simp_all add: stepFastDrops_body_vec_def Let_def\<close>)
        next
          case False
          from stepFastDrops_body_vec_found [OF inv i act move inside di(1) False]
          obtain s' d' f' where s': "stepFastDrops_body_vec i s = Some s'" "vec_inv s'"
            "column_occupied s' = column_occupied s"
            "drops s' = (drops s)[nat di := d']" "fasts s' = (fasts s)[i := f']"
            "head d' = head (drops s ! nat di)" "col d' = col (drops s ! nat di)"
            "trail d' = trail (drops s ! nat di)"
            "boost (drops s ! nat di) \<noteq> 0 \<longrightarrow> boost d' \<noteq> 0" by blast
          from di(2) False have "nat di < length (drops s)" using len by simp
          with s'(4-9) len i act show ?thesis
            by (intro exI [of _ s']) (auto simp: s'(1-3) nth_list_update)
        qed
      qed
    qed
  qed
qed

lemma stepFastDrops_vec_inv:
  assumes "vec_inv s"
  shows "\<exists>s'. stepFastDrops_vec s = Some s' \<and> vec_inv s'"
  unfolding stepFastDrops_vec_def
proof (rule for_each_invariant [where I = vec_inv])
  show "vec_inv s" by fact
next
  fix i t assume "i \<in> set [0..<VEC_MAX_FAST]" "vec_inv t"
  then have "vec_inv t" "i < VEC_MAX_FAST" by simp_all
  from stepFastDrops_body_vec_effect [OF this]
  show "\<exists>t'. stepFastDrops_body_vec i t = Some t' \<and> vec_inv t'" by blast
qed

lemma unpack_loop:
  assumes "dims VEC_MAX_DROPS 4 bp" "i < VEC_MAX_DROPS" "length tmp = MAX_TRAIL"
    "\<forall>k\<in>set ks. k < MAX_TRAIL"
  shows "\<exists>tmp'. for_each ks (unpack_slot_vec bp i) tmp = Some tmp' \<and> length tmp' = MAX_TRAIL"
proof (rule for_each_invariant [where I = "\<lambda>t. length t = MAX_TRAIL"])
  show "length tmp = MAX_TRAIL" by fact
next
  fix k t assume k: "k \<in> set ks" and t: "length (t :: u8 list) = MAX_TRAIL"
  with assms(4) have k12: "k < MAX_TRAIL" by auto
  then have u: "unat (of_nat i :: u8) = i" "unat (of_nat k :: u8) = k"
    using assms(2) by (simp_all add: unat_of_nat_u8)
  from get_vec_total [OF assms(1), of "of_nat i" "of_nat k"] u assms(2) k12
  obtain v where "get_bright_slot_vec bp (of_nat i) (of_nat k) = Some v" by auto
  with t k12 show "\<exists>t'. unpack_slot_vec bp i k t = Some t' \<and> length t' = MAX_TRAIL"
    by (simp add: unpack_slot_vec_def)
qed

lemma decay_loop:
  assumes "length tmp = MAX_TRAIL" "\<forall>k\<in>set ks. k < MAX_TRAIL"
  shows "\<exists>tmp'. for_each ks decay_slot_vec tmp = Some tmp' \<and> length tmp' = MAX_TRAIL"
proof (rule for_each_invariant [where I = "\<lambda>t. length t = MAX_TRAIL"])
  show "length tmp = MAX_TRAIL" by fact
next
  fix k t assume k: "k \<in> set ks" and t: "length (t :: u8 list) = MAX_TRAIL"
  with assms(2) have "k < MAX_TRAIL" "k - 1 < MAX_TRAIL" by auto
  with t show "\<exists>t'. decay_slot_vec k t = Some t' \<and> length t' = MAX_TRAIL"
    by (simp add: decay_slot_vec_def)
qed

lemma repack_loop:
  assumes "dims VEC_MAX_DROPS 4 bp" "i < VEC_MAX_DROPS" "length tmp = MAX_TRAIL"
    "\<forall>k\<in>set ks. k < MAX_TRAIL"
  shows "\<exists>bp'. for_each ks (repack_slot_vec tmp i) bp = Some bp' \<and> dims VEC_MAX_DROPS 4 bp'"
proof (rule for_each_invariant [where I = "dims VEC_MAX_DROPS 4 :: u8 list list \<Rightarrow> bool"])
  show "dims VEC_MAX_DROPS 4 bp" by fact
next
  fix k and t :: "u8 list list" assume k: "k \<in> set ks" and t: "dims VEC_MAX_DROPS 4 t"
  with assms(4) have k12: "k < MAX_TRAIL" by auto
  then have u: "unat (of_nat i :: u8) = i" "unat (of_nat k :: u8) = k"
    using assms(2) by (simp_all add: unat_of_nat_u8)
  from set_get_vec [OF t, of "of_nat i" "of_nat k" "tmp ! k"] u assms(2) k12
  obtain t' where "set_bright_slot_vec t (of_nat i) (of_nat k) (tmp ! k) = Some t'"
    "dims VEC_MAX_DROPS 4 t'" by auto
  with assms(3) k12 show "\<exists>t'. repack_slot_vec tmp i k t = Some t' \<and> dims VEC_MAX_DROPS 4 t'"
    by (simp add: repack_slot_vec_def)
qed

lemma clear_row:
  assumes "dims VEC_MAX_DROPS 4 (bp :: u8 list list)" "i < VEC_MAX_DROPS"
  shows "\<exists>bp'. for_each [0..<BRIGHT_BYTES_PER_DROP + 1] (\<lambda>b bp. wr2 bp i b 0) bp = Some bp'
     \<and> dims VEC_MAX_DROPS 4 bp'"
proof (rule for_each_invariant [where I = "dims VEC_MAX_DROPS 4 :: u8 list list \<Rightarrow> bool"])
  show "dims VEC_MAX_DROPS 4 bp" by fact
next
  fix b and t :: "u8 list list"
  assume "b \<in> set [0..<BRIGHT_BYTES_PER_DROP + 1]" "dims VEC_MAX_DROPS 4 t"
  with assms(2) show "\<exists>t'. wr2 t i b 0 = Some t' \<and> dims VEC_MAX_DROPS 4 t'"
    by (simp add: dims_nth dims_length)
qed

lemma memmove_up_length:
  "n + 1 \<le> length row \<Longrightarrow> \<exists>row'. memmove_up row n = Some row' \<and> length row' = length row"
  by (simp add: memmove_up_def)

lemma stepDrops_body_vec_inv:
  assumes inv: "vec_inv s" and tl: "length tmp = MAX_TRAIL" and i: "i < VEC_MAX_DROPS"
  shows "\<exists>s' tmp'. stepDrops_body_vec i (s, tmp) = Some (s', tmp') \<and> vec_inv s'
     \<and> length tmp' = MAX_TRAIL \<and> fasts s' = fasts s"
proof -
  define d0 where "d0 = drops s ! i"
  from inv have sz: "vsized s" by (rule vec_inv_vsized)
  then have len: "length (drops s) = VEC_MAX_DROPS" "length (column_occupied s) = TERM_COLS"
    and dm: "dims VEC_MAX_DROPS MAX_TRAIL (drop_char_idx s)"
      "dims VEC_MAX_DROPS 4 (drop_bright_packed s)"
    by (simp_all add: vsized_def)
  from inv have oks: "\<forall>d\<in>set (drops s). drop_ok d \<and> trail_ok d"
    and fr: "fast_rows_ok (fasts s)" by (simp_all add: vec_inv_def)
  have rd0: "rd (drops s) i = Some d0" using i len by (simp add: d0_def)
  show ?thesis
  proof (cases "head d0 = - 1")
    case True
    with rd0 inv tl show ?thesis by (simp add: stepDrops_body_vec_def)
  next
    case act: False
    from vec_inv_drop [OF inv i] act have ok: "unat (col d0) < TERM_COLS" "0 \<le> sint (head d0)"
      "sint (head d0) \<le> 22 + uint (trail d0)" "1 \<le> unat (trail d0)" "unat (trail d0) \<le> MAX_TRAIL"
      by (simp_all add: d0_def drop_ok_def trail_ok_def)
    from ok(3) uint_trail_le [of "trail d0"] have "sint (head d0) < 32767" by linarith
    then have hs: "sint (head d0 + 1) = sint (head d0) + 1" by (rule sint_succ)
    define res where "res = (\<lambda>d ci bp bp'.
       if trail_passed d
       then s\<lparr>drops := (drops s)[i := d\<lparr>head := - 1, boost := 0\<rparr>],
              column_occupied := (column_occupied s)[unat (col d) := False],
              drop_char_idx := ci, drop_bright_packed := bp'\<rparr>
       else s\<lparr>drops := (drops s)[i := d], drop_char_idx := ci, drop_bright_packed := bp\<rparr>)"
    have finish: ?thesis
      if pd: "dims VEC_MAX_DROPS MAX_TRAIL ci" "dims VEC_MAX_DROPS 4 bp" "length tmp' = MAX_TRAIL"
        and same: "col d = col d0" "trail d = trail d0"
          "head d = head d0 \<or> head d = head d0 + 1"
        and st: "\<And>bp'. for_each [0..<BRIGHT_BYTES_PER_DROP + 1] (\<lambda>b bp. wr2 bp i b 0) bp = Some bp'
           \<Longrightarrow> stepDrops_body_vec i (s, tmp) = Some (res d ci bp bp', tmp')"
      for d ci bp tmp'
    proof -
      from clear_row [OF pd(2) i] obtain bp' where
        bp': "for_each [0..<BRIGHT_BYTES_PER_DROP + 1] (\<lambda>b bp. wr2 bp i b 0) bp = Some bp'"
        "dims VEC_MAX_DROPS 4 bp'" by blast
      note step = st [OF bp'(1)]
      from same(3) hs ok(2) have h0: "0 \<le> sint (head d)" by auto
      then have hn: "head d \<noteq> - 1" by auto
      have "vec_inv (res d ci bp bp')"
      proof (cases "trail_passed d")
        case True
        have "drop_ok (d\<lparr>head := - 1, boost := 0\<rparr>)" "trail_ok (d\<lparr>head := - 1, boost := 0\<rparr>)"
          by (simp_all add: drop_ok_def trail_ok_def)
        with oks have "\<forall>x\<in>set ((drops s)[i := d\<lparr>head := - 1, boost := 0\<rparr>]). drop_ok x \<and> trail_ok x"
          by (intro drops_ok_update)
        with True sz fr pd bp' show ?thesis
          by (simp add: res_def vec_inv_def vsized_def)
      next
        case False
        then have "sint (head d) \<le> 22 + uint (trail d)" by (simp add: trail_passed_def)
        with h0 same ok have "drop_ok d" "trail_ok d"
          by (simp_all add: drop_ok_def trail_ok_def)
        with oks have "\<forall>x\<in>set ((drops s)[i := d]). drop_ok x \<and> trail_ok x"
          by (intro drops_ok_update)
        with False sz fr pd show ?thesis
          by (simp add: res_def vec_inv_def vsized_def)
      qed
      moreover have "fasts (res d ci bp bp') = fasts s" by (simp add: res_def)
      ultimately show ?thesis using step pd(3) by blast
    qed
    show ?thesis
    proof (cases "age d0 + 1 \<ge> speed d0")
      case False
      show ?thesis
      proof (rule finish [of "drop_char_idx s" "drop_bright_packed s" tmp "d0\<lparr>age := age d0 + 1\<rparr>"])
        fix bp'
        assume "for_each [0..<BRIGHT_BYTES_PER_DROP + 1] (\<lambda>b bp. wr2 bp i b 0)
            (drop_bright_packed s) = Some bp'"
        with False rd0 act i len ok show "stepDrops_body_vec i (s, tmp)
            = Some (res (d0\<lparr>age := age d0 + 1\<rparr>) (drop_char_idx s) (drop_bright_packed s) bp', tmp)"
          by (simp add: stepDrops_body_vec_def Let_def res_def)
      qed (use dm tl in simp_all)
    next
      case due: True
      define t where "t = unat (trail d0)"
      have tb: "1 \<le> t" "t \<le> MAX_TRAIL" using ok by (simp_all add: t_def)
      define row where "row = drop_char_idx s ! i"
      have rl: "length row = MAX_TRAIL" "rd (drop_char_idx s) i = Some row"
        using dm i by (simp_all add: row_def dims_nth dims_length)
      define row1 where "row1 = (if trail d0 > 1 then take 1 row @ take (t - 1) row @ drop t row
                                 else row)"
      have r1: "trail d0 > 1 \<Longrightarrow> memmove_up row (t - 1) = Some row1"
        "\<not> trail d0 > 1 \<Longrightarrow> row1 = row"
        "length row1 = MAX_TRAIL"
        using tb rl by (auto simp: row1_def memmove_up_def)
      define r3 where "r3 = splitmix32 (splitmix32 (rng d0))"
      define row2 where "row2 = row1[0 := pickIndex r3]"
      define ci where "ci = (drop_char_idx s)[i := row2]"
      have ci: "dims VEC_MAX_DROPS MAX_TRAIL ci"
        unfolding ci_def using dm(1) by (rule dims_update_row) (simp add: row2_def r1)
      from unpack_loop [OF dm(2) i tl, of "[0..<t]"] tb obtain tmp1 where
        t1: "for_each [0..<t] (unpack_slot_vec (drop_bright_packed s) i) tmp = Some tmp1"
        "length tmp1 = MAX_TRAIL" by auto
      from decay_loop [OF t1(2), of "rev [1..<t]"] tb obtain tmp2 where
        t2: "for_each (rev [1..<t]) decay_slot_vec tmp1 = Some tmp2" "length tmp2 = MAX_TRAIL"
        by auto
      define tmp3 where "tmp3 = tmp2[0 := 3]"
      have t3: "length tmp3 = MAX_TRAIL" by (simp add: tmp3_def t2)
      from repack_loop [OF dm(2) i t3, of "[0..<t]"] tb obtain bp where
        bp: "for_each [0..<t] (repack_slot_vec tmp3 i) (drop_bright_packed s) = Some bp"
        "dims VEC_MAX_DROPS 4 bp" by auto
      define d3 where "d3 = d0\<lparr>age := 0, head := head d0 + 1, rng := r3\<rparr>"
      define d where "d = (if boost d3 \<noteq> 0 then d3\<lparr>boost := boost d3 - 1\<rparr> else d3)"
      show ?thesis
      proof (rule finish [of ci bp tmp3 d])
        fix bp'
        assume "for_each [0..<BRIGHT_BYTES_PER_DROP + 1] (\<lambda>b bp. wr2 bp i b 0) bp = Some bp'"
        with due rd0 act i len ok rl r1 t1 t2 bp dm
        show "stepDrops_body_vec i (s, tmp) = Some (res d ci bp bp', tmp3)"
          by (simp add: stepDrops_body_vec_def Let_def res_def t_def [symmetric] d_def d3_def
              r3_def ci_def row2_def tmp3_def dims_length)
      qed (use ci bp t3 in \<open>simp_all add: d_def d3_def\<close>)
    qed
  qed
qed

lemma stepDrops_vec_inv:
  assumes "vec_inv s"
  shows "\<exists>s'. stepDrops_vec s = Some s' \<and> vec_inv s' \<and> fasts s' = fasts s"
proof -
  have "\<exists>st. for_each [0..<VEC_MAX_DROPS] stepDrops_body_vec (s, replicate MAX_TRAIL 0) = Some st
      \<and> (vec_inv (fst st) \<and> length (snd st) = MAX_TRAIL \<and> fasts (fst st) = fasts s)"
  proof (rule for_each_invariant
      [where I = "\<lambda>st. vec_inv (fst st) \<and> length (snd st) = MAX_TRAIL \<and> fasts (fst st) = fasts s"])
    show "vec_inv (fst (s, replicate MAX_TRAIL (0 :: u8)))
        \<and> length (snd (s, replicate MAX_TRAIL (0 :: u8))) = MAX_TRAIL
        \<and> fasts (fst (s, replicate MAX_TRAIL (0 :: u8))) = fasts s"
      using assms by simp
  next
    fix i and st :: "vstate \<times> u8 list"
    assume "i \<in> set [0..<VEC_MAX_DROPS]"
      "vec_inv (fst st) \<and> length (snd st) = MAX_TRAIL \<and> fasts (fst st) = fasts s"
    then have a: "vec_inv (fst st)" "length (snd st) = MAX_TRAIL" "i < VEC_MAX_DROPS"
      "fasts (fst st) = fasts s" by simp_all
    from stepDrops_body_vec_inv [OF a(1-3)] a(4)
    show "\<exists>t'. stepDrops_body_vec i st = Some t'
        \<and> (vec_inv (fst t') \<and> length (snd t') = MAX_TRAIL \<and> fasts (fst t') = fasts s)"
      by auto
  qed
  then show ?thesis by (auto simp: stepDrops_vec_def)
qed

lemma clear_chars:
  assumes "dims VEC_MAX_DROPS MAX_TRAIL (ci :: u8 list list)" "i < VEC_MAX_DROPS"
  shows "\<exists>ci'. for_each [0..<MAX_TRAIL] (\<lambda>k ci. wr2 ci i k 0) ci = Some ci'
     \<and> dims VEC_MAX_DROPS MAX_TRAIL ci'"
proof (rule for_each_invariant [where I = "dims VEC_MAX_DROPS MAX_TRAIL :: u8 list list \<Rightarrow> bool"])
  show "dims VEC_MAX_DROPS MAX_TRAIL ci" by fact
next
  fix k and t :: "u8 list list"
  assume "k \<in> set [0..<MAX_TRAIL]" "dims VEC_MAX_DROPS MAX_TRAIL t"
  with assms(2) show "\<exists>t'. wr2 t i k 0 = Some t' \<and> dims VEC_MAX_DROPS MAX_TRAIL t'"
    by (simp add: dims_nth dims_length)
qed

lemma setupState_vec_prefix:
  assumes "length ds0 = VEC_MAX_DROPS" "dims VEC_MAX_DROPS MAX_TRAIL ci0"
    "dims VEC_MAX_DROPS 4 bp0" "m \<le> VEC_MAX_DROPS"
  shows "\<exists>ds ci bp. for_each [0..<m] setupState_body_vec (ds0, ci0, bp0) = Some (ds, ci, bp)
     \<and> length ds = VEC_MAX_DROPS \<and> dims VEC_MAX_DROPS MAX_TRAIL ci \<and> dims VEC_MAX_DROPS 4 bp
     \<and> (\<forall>j<m. head (ds ! j) = - 1)"
  using assms(4)
proof (induction m)
  case 0
  with assms show ?case by simp
next
  case (Suc m)
  then obtain ds ci bp where 1: "for_each [0..<m] setupState_body_vec (ds0, ci0, bp0) = Some (ds, ci, bp)"
    "length ds = VEC_MAX_DROPS" "dims VEC_MAX_DROPS MAX_TRAIL ci" "dims VEC_MAX_DROPS 4 bp"
    "\<forall>j<m. head (ds ! j) = - 1" by auto
  from Suc.prems have m: "m < VEC_MAX_DROPS" by simp
  from clear_chars [OF 1(3) m] obtain ci' where
    2: "for_each [0..<MAX_TRAIL] (\<lambda>k ci. wr2 ci m k 0) ci = Some ci'"
    "dims VEC_MAX_DROPS MAX_TRAIL ci'" by blast
  from clear_row [OF 1(4) m] obtain bp' where
    3: "for_each [0..<BRIGHT_BYTES_PER_DROP + 1] (\<lambda>b bp. wr2 bp m b 0) bp = Some bp'"
    "dims VEC_MAX_DROPS 4 bp'" by blast
  let ?ds = "ds[m := (ds ! m)\<lparr>head := - 1, boost := 0\<rparr>]"
  have "setupState_body_vec m (ds, ci, bp) = Some (?ds, ci', bp')"
    using m 1(2) 2(1) 3(1) by (simp add: setupState_body_vec_def)
  then have "for_each [0..<Suc m] setupState_body_vec (ds0, ci0, bp0) = Some (?ds, ci', bp')"
    using 1(1) by (simp add: for_each_append)
  moreover have "\<forall>j<Suc m. head (?ds ! j) = - 1"
    using 1(2,5) m by (auto simp: nth_list_update less_Suc_eq)
  ultimately show ?case using 1(2) 2(2) 3(2) by simp
qed

lemma setupState_vec_inv:
  assumes "vsized s"
  shows "\<exists>s'. setupState_vec s = Some s' \<and> vec_inv s'
     \<and> (\<forall>i<VEC_MAX_DROPS. head (drops s' ! i) = - 1)
     \<and> (\<forall>c<TERM_COLS. \<not> column_occupied s' ! c)
     \<and> (\<forall>i<VEC_MAX_FAST. \<not> active (fasts s' ! i))
     \<and> global_rng s' = global_rng s"
proof -
  from assms have len: "length (drops s) = VEC_MAX_DROPS" "length (column_occupied s) = TERM_COLS"
    "length (fasts s) = VEC_MAX_FAST"
    and dm: "dims VEC_MAX_DROPS MAX_TRAIL (drop_char_idx s)"
      "dims VEC_MAX_DROPS 4 (drop_bright_packed s)"
    by (simp_all add: vsized_def)
  from setupState_vec_prefix [OF len(1) dm, of VEC_MAX_DROPS] obtain ds ci bp where
    1: "for_each [0..<VEC_MAX_DROPS] setupState_body_vec
          (drops s, drop_char_idx s, drop_bright_packed s) = Some (ds, ci, bp)"
    "length ds = VEC_MAX_DROPS" "dims VEC_MAX_DROPS MAX_TRAIL ci" "dims VEC_MAX_DROPS 4 bp"
    "\<forall>j<VEC_MAX_DROPS. head (ds ! j) = - 1" by auto
  let ?s' = "s\<lparr>drops := ds, column_occupied := replicate TERM_COLS False,
               fasts := map (\<lambda>f. f\<lparr>active := False\<rparr>) (fasts s),
               drop_char_idx := ci, drop_bright_packed := bp\<rparr>"
  have r: "setupState_vec s = Some ?s'"
    using 1(1) len by (simp add: setupState_vec_def for_each_map for_each_fill)
  have "\<forall>d\<in>set ds. drop_ok d \<and> trail_ok d"
    using 1(2,5) by (auto simp: in_set_conv_nth drop_ok_def trail_ok_def)
  moreover have "fast_rows_ok (map (\<lambda>f. f\<lparr>active := False\<rparr>) (fasts s))"
    by (auto simp: fast_rows_ok_def)
  ultimately have "vec_inv ?s'" using 1 len by (simp add: vec_inv_def vsized_def)
  with r 1(5) len show ?thesis by (intro exI [of _ ?s']) simp
qed

lemma apply_operation_vec_inv:
  assumes "vec_inv s"
  shows "\<exists>s'. apply_operation_vec x s = Some s' \<and> vec_inv s'"
  using maybeSpawnDrop_vec_inv [OF assms] maybeSpawnFastDrop_vec_inv [OF assms]
    stepDrops_vec_inv [OF assms] stepFastDrops_vec_inv [OF assms]
  by (cases x) auto

lemma run_vec_inv:
  assumes "vec_inv s"
  shows "\<exists>s'. run_vec xs s = Some s' \<and> vec_inv s'"
  using assms
proof (induction xs arbitrary: s)
  case Nil
  then show ?case by simp
next
  case (Cons x xs)
  from apply_operation_vec_inv [OF Cons.prems, of x] obtain t where
    t: "apply_operation_vec x s = Some t" "vec_inv t" by blast
  from Cons.IH [OF t(2)] t(1) show ?case by simp
qed

lemma vsized_power_on_vec: "vsized power_on_vec"
  by (simp add: vsized_def power_on_vec_def dims_def)


section \<open>Runs from seed 0\<close>

lemma fast_run_result:
  "map_option (\<lambda>s. (active (fasts s ! 0), f_row (fasts s ! 0)))
     (Option.bind (setupState seeded) (run fast_run)) = Some (True, 1)"
  by code_simp

lemma fast_run_vec_result:
  "map_option (\<lambda>s. (active (fasts s ! 0), f_row (fasts s ! 0)))
     (Option.bind (setupState_vec seeded_vec) (run_vec fast_run_vec)) = Some (True, 0)"
  by code_simp

lemma vsized_seeded_vec: "vsized seeded_vec"
  by (simp add: vsized_def seeded_vec_def power_on_vec_def dims_def)

lemma seeded_roll: "splitmix32 0 AND 0xFF = 14"
  by code_simp

lemma seeded_spawn_result:
  "map_option (\<lambda>s. (head (drops s ! 0), col (drops s ! 0), trail (drops s ! 0), speed (drops s ! 0)))
     (Option.bind (setupState seeded) maybeSpawnDrop) = Some (0, 36, 9, 4)"
  by code_simp

lemma seeded_vec_spawn_result:
  "map_option (\<lambda>s. (head (drops s ! 0), col (drops s ! 0), trail (drops s ! 0), speed (drops s ! 0)))
     (Option.bind (setupState_vec seeded_vec) maybeSpawnDrop_vec) = Some (0, 36, 9, 4)"
  by code_simp

lemma sample_reads:
  "get_bright_slot_vec sample_rows 7 5 = Some 2 \<and> get_bright_slot_vec sample_rows 7 4 = Some 3
   \<and> get_bright_slot_vec sample_rows 7 6 = Some 1 \<and> get_bright_slot_vec sample_rows 8 5 = Some 2
   \<and> get_bright_slot_fix sample_rows 7 5 = Some 2 \<and> get_bright_slot_fix sample_rows 7 4 = Some 3
   \<and> get_bright_slot_fix sample_rows 7 6 = Some 1 \<and> get_bright_slot_fix sample_rows 8 5 = Some 2
   \<and> get_bright_slot_col sample_rows 7 5 = Some 2 \<and> get_bright_slot_col sample_rows 7 4 = Some 3
   \<and> get_bright_slot_col sample_rows 7 6 = Some 1 \<and> get_bright_slot_col sample_rows 8 5 = Some 2"
  by code_simp

lemma seeded_vec_brightness:
  "map_option (\<lambda>v. (get_bright_slot_vec (drop_bright_packed v) 0 0,
        get_bright_slot_vec (drop_bright_packed v) 0 1,
        get_bright_slot_vec (drop_bright_packed v) 0 2))
     (Option.bind (setupState_vec seeded_vec) (run_vec [SpawnDrop])) = Some (Some 3, Some 2, Some 1)"
  by code_simp


section \<open>The claims\<close>

subsection \<open>Occupancy\<close>

text \<open>
  C1.  From the state \<open>setupState\<close> leaves (every drop inactive, every flag false), after
  any sequence of \<open>maybeSpawnDrop\<close>, \<open>maybeSpawnFastDrop\<close>, \<open>stepDrops\<close> and
  \<open>stepFastDrops\<close> no index is outside its array, the flag of a column is set if and only
  if exactly one active drop (\<open>head \<noteq> -1\<close>) has the column, and a further
  \<open>maybeSpawnDrop\<close> activates a drop only in a column whose flag was clear.
\<close>

theorem occupancy_flag_iff_one_active_drop:
  assumes "sized s0"
  shows "\<exists>s1. setupState s0 = Some s1 \<and>
     (\<forall>ops. \<exists>s s'. run ops s1 = Some s
        \<and> (\<forall>c<TERM_COLS. column_occupied s ! c \<longleftrightarrow> active_in_column (drops s) c = 1)
        \<and> maybeSpawnDrop s = Some s'
        \<and> (\<forall>i<MAX_DROPS. head (drops s ! i) = - 1 \<and> head (drops s' ! i) \<noteq> - 1
              \<longrightarrow> \<not> column_occupied s ! unat (col (drops s' ! i))))"
proof -
  from setupState_inv [OF assms] obtain s1 where s1: "setupState s0 = Some s1"
    "state_inv s1" by (auto simp: state_inv_def)
  have "\<exists>s s'. run ops s1 = Some s
        \<and> (\<forall>c<TERM_COLS. column_occupied s ! c \<longleftrightarrow> active_in_column (drops s) c = 1)
        \<and> maybeSpawnDrop s = Some s'
        \<and> (\<forall>i<MAX_DROPS. head (drops s ! i) = - 1 \<and> head (drops s' ! i) \<noteq> - 1
              \<longrightarrow> \<not> column_occupied s ! unat (col (drops s' ! i)))" for ops
  proof -
    from run_inv [OF s1(2), of ops] obtain s where s: "run ops s1 = Some s" "occupancy_inv s"
      by (auto simp: state_inv_def)
    from maybeSpawnDrop_inv [OF s(2)] obtain s' where s': "maybeSpawnDrop s = Some s'" by blast
    have "\<forall>c<TERM_COLS. column_occupied s ! c \<longleftrightarrow> active_in_column (drops s) c = 1"
      using occupancy_inv_count [OF s(2)] by simp
    moreover have "\<forall>i<MAX_DROPS. head (drops s ! i) = - 1 \<and> head (drops s' ! i) \<noteq> - 1
              \<longrightarrow> \<not> column_occupied s ! unat (col (drops s' ! i))"
      using maybeSpawnDrop_activates_free [OF occupancy_inv_sized [OF s(2)] s'] by blast
    ultimately show ?thesis using s(1) s' by blast
  qed
  with s1(1) show ?thesis by blast
qed

theorem occupancy_flag_iff_one_active_drop_witness:
  "\<exists>s1 s s'. setupState seeded = Some s1 \<and> run three_frames s1 = Some s
      \<and> column_occupied s ! 36 \<and> active_in_column (drops s) 36 = 1
      \<and> maybeSpawnDrop s = Some s'
      \<and> head (drops s ! 1) = - 1 \<and> head (drops s' ! 1) = 0 \<and> unat (col (drops s' ! 1)) = 39
      \<and> \<not> column_occupied s ! 39"
proof -
  from occupancy_flag_iff_one_active_drop [OF sized_seeded]
  obtain s1 where s1: "setupState seeded = Some s1" 
    and a: "\<And>ops. \<exists>s s'. run ops s1 = Some s
        \<and> (\<forall>c<TERM_COLS. column_occupied s ! c \<longleftrightarrow> active_in_column (drops s) c = 1)
        \<and> maybeSpawnDrop s = Some s'
        \<and> (\<forall>i<MAX_DROPS. head (drops s ! i) = - 1 \<and> head (drops s' ! i) \<noteq> - 1
              \<longrightarrow> \<not> column_occupied s ! unat (col (drops s' ! i)))" by blast
  from a [of three_frames] obtain s s' where s: "run three_frames s1 = Some s"
    "\<forall>c<TERM_COLS. column_occupied s ! c \<longleftrightarrow> active_in_column (drops s) c = 1"
    "maybeSpawnDrop s = Some s'"
    "\<forall>i<MAX_DROPS. head (drops s ! i) = - 1 \<and> head (drops s' ! i) \<noteq> - 1
              \<longrightarrow> \<not> column_occupied s ! unat (col (drops s' ! i))" by blast
  from seeded_three_frames s1 s(1,3)
  have e: "active_in_column (drops s) 36 = 1" "head (drops s ! 1) = - 1"
    "head (drops s' ! 1) = 0" "unat (col (drops s' ! 1)) = 39" by simp_all
  from s(2) e(1) have "column_occupied s ! 36" by simp
  moreover from s(4) [rule_format, of 1] e have "\<not> column_occupied s ! 39" by simp
  ultimately show ?thesis using s1 s(1,3) e by blast
qed

subsection \<open>Spawns that cannot go through\<close>

text \<open>
  C9.  When no drop slot is inactive or no column is free, \<open>maybeSpawnDrop\<close> returns with
  every index inside its array and leaves \<open>drops\<close>, \<open>fasts\<close> and \<open>column_occupied\<close> as
  they were; so does \<open>maybeSpawnFastDrop\<close> when no column is occupied or no fast slot is
  inactive.
\<close>

theorem spawn_skipped_silently:
  assumes "sized s"
  shows "((\<forall>i<MAX_DROPS. head (drops s ! i) \<noteq> - 1) \<or> (\<forall>c<TERM_COLS. column_occupied s ! c)
           \<longrightarrow> (\<exists>s'. maybeSpawnDrop s = Some s' \<and> drops s' = drops s \<and> fasts s' = fasts s
                  \<and> column_occupied s' = column_occupied s))
       \<and> ((\<forall>c<TERM_COLS. \<not> column_occupied s ! c) \<or> (\<forall>i<MAX_FAST. active (fasts s ! i))
           \<longrightarrow> (\<exists>s'. maybeSpawnFastDrop s = Some s' \<and> drops s' = drops s \<and> fasts s' = fasts s
                  \<and> column_occupied s' = column_occupied s))"
proof (intro conjI impI)
  assume "(\<forall>i<MAX_DROPS. head (drops s ! i) \<noteq> - 1) \<or> (\<forall>c<TERM_COLS. column_occupied s ! c)"
  then have n: "\<not> drop_spawn_due s" unfolding drop_spawn_due_def by blast
  from assms show "\<exists>s'. maybeSpawnDrop s = Some s' \<and> drops s' = drops s \<and> fasts s' = fasts s
                  \<and> column_occupied s' = column_occupied s"
    by (cases rule: maybeSpawnDrop_cases) (use n in auto)
next
  assume "(\<forall>c<TERM_COLS. \<not> column_occupied s ! c) \<or> (\<forall>i<MAX_FAST. active (fasts s ! i))"
  then have n: "\<not> fast_spawn_due s" unfolding fast_spawn_due_def by blast
  from assms show "\<exists>s'. maybeSpawnFastDrop s = Some s' \<and> drops s' = drops s \<and> fasts s' = fasts s
                  \<and> column_occupied s' = column_occupied s"
    by (cases rule: maybeSpawnFastDrop_cases) (use n in auto)
qed

theorem spawn_skipped_silently_witness:
  "(\<exists>s'. maybeSpawnDrop crowded = Some s' \<and> drops s' = drops crowded
        \<and> fasts s' = fasts crowded \<and> column_occupied s' = column_occupied crowded)
   \<and> (\<exists>s'. maybeSpawnFastDrop crowded = Some s' \<and> drops s' = drops crowded
        \<and> fasts s' = fasts crowded \<and> column_occupied s' = column_occupied crowded)"
proof -
  have sz: "sized crowded" by (simp add: crowded_def sized_def)
  have 1: "\<forall>i<MAX_DROPS. head (drops crowded ! i) \<noteq> - 1" by (simp add: crowded_def)
  have 2: "\<forall>i<MAX_FAST. active (fasts crowded ! i)" by (simp add: crowded_def)
  from spawn_skipped_silently [OF sz] 1 2 show ?thesis by blast
qed

subsection \<open>The head of a drop\<close>

text \<open>
  C7, as amended.  In every state of a run of the fast-drops sketch from \<open>setupState\<close>,
  \<open>stepDrops\<close> does this to the head of an active drop: it stays where it is when the
  drop is not yet due (\<open>age + 1 < speed\<close>); otherwise it moves down by exactly one row,
  unless the trail has then passed the bottom
  (\<open>head + 1 - (trail - 1) \<ge> TERM_ROWS\<close>), when it is the sentinel \<open>-1\<close>.  In every state
  of a run of the per-column sketch from \<open>setupColumns\<close>, \<open>stepColumns\<close> does the same
  to the head of an active column, except at the bottom: when
  \<open>head + 1 \<ge> TERM_ROWS + trail\<close> the head is the sentinel if the column's next random
  number has \<open>& 0x7F\<close> below 48, and row 0 otherwise.
\<close>

theorem head_steps_down_or_is_reset:
  assumes "sized s0" "length cols0 = OPT_TERM_COLS"
  shows "(\<exists>s1. setupState s0 = Some s1 \<and>
           (\<forall>ops. \<exists>s s'. run ops s1 = Some s \<and> stepDrops s = Some s'
              \<and> (\<forall>i<MAX_DROPS. head (drops s ! i) \<noteq> - 1 \<longrightarrow>
                    (\<not> speed (drops s ! i) \<le> age (drops s ! i) + 1
                       \<longrightarrow> head (drops s' ! i) = head (drops s ! i))
                  \<and> (speed (drops s ! i) \<le> age (drops s ! i) + 1
                       \<and> sint (head (drops s ! i)) + 1 - (uint (trail (drops s ! i)) - 1) < int TERM_ROWS
                       \<longrightarrow> sint (head (drops s' ! i)) = sint (head (drops s ! i)) + 1)
                  \<and> (speed (drops s ! i) \<le> age (drops s ! i) + 1
                       \<and> int TERM_ROWS \<le> sint (head (drops s ! i)) + 1 - (uint (trail (drops s ! i)) - 1)
                       \<longrightarrow> head (drops s' ! i) = - 1))))
       \<and> (\<exists>cols1. setupColumns micros cols0 = Some cols1 \<and>
           (\<forall>ops. \<exists>cols cols'. run_opt ops cols1 = Some cols \<and> stepColumns cols = Some cols'
              \<and> (\<forall>c<OPT_TERM_COLS. c_head (cols ! c) \<noteq> - 1 \<longrightarrow>
                    (\<not> c_speed (cols ! c) \<le> c_age (cols ! c) + 1
                       \<longrightarrow> c_head (cols' ! c) = c_head (cols ! c))
                  \<and> (c_speed (cols ! c) \<le> c_age (cols ! c) + 1
                       \<and> sint (c_head (cols ! c)) + 1 < int TERM_ROWS + uint (c_trail (cols ! c))
                       \<longrightarrow> sint (c_head (cols' ! c)) = sint (c_head (cols ! c)) + 1)
                  \<and> (c_speed (cols ! c) \<le> c_age (cols ! c) + 1
                       \<and> int TERM_ROWS + uint (c_trail (cols ! c)) \<le> sint (c_head (cols ! c)) + 1
                       \<longrightarrow> c_head (cols' ! c)
                            = (if splitmix32 (c_rng (cols ! c)) AND 0x7F < 48 then - 1 else 0)))))"
    (is "?drops \<and> ?columns")
proof
  from setupState_inv [OF assms(1)] obtain s1 where s1: "setupState s0 = Some s1"
    "state_inv s1" by (auto simp: state_inv_def)
  have "\<exists>s s'. run ops s1 = Some s \<and> stepDrops s = Some s'
              \<and> (\<forall>i<MAX_DROPS. head (drops s ! i) \<noteq> - 1 \<longrightarrow>
                    (\<not> speed (drops s ! i) \<le> age (drops s ! i) + 1
                       \<longrightarrow> head (drops s' ! i) = head (drops s ! i))
                  \<and> (speed (drops s ! i) \<le> age (drops s ! i) + 1
                       \<and> sint (head (drops s ! i)) + 1 - (uint (trail (drops s ! i)) - 1) < int TERM_ROWS
                       \<longrightarrow> sint (head (drops s' ! i)) = sint (head (drops s ! i)) + 1)
                  \<and> (speed (drops s ! i) \<le> age (drops s ! i) + 1
                       \<and> int TERM_ROWS \<le> sint (head (drops s ! i)) + 1 - (uint (trail (drops s ! i)) - 1)
                       \<longrightarrow> head (drops s' ! i) = - 1))" for ops
  proof -
    from run_inv [OF s1(2), of ops] obtain s where s: "run ops s1 = Some s" "occupancy_inv s"
      by (auto simp: state_inv_def)
    from stepDrops_step_drop [OF s(2)] obtain s' where s': "stepDrops s = Some s'"
      "\<And>j. j < MAX_DROPS \<Longrightarrow> drops s' ! j = step_drop (drops s ! j)" by blast
    from s(2) have ok: "\<And>j. j < MAX_DROPS \<Longrightarrow> drop_ok (drops s ! j)"
      by (simp add: occupancy_inv_def)
    show ?thesis
      using s(1) s'(1) step_drop_head_exact [OF ok] s'(2)
      by (intro exI [of _ s] exI [of _ s']) simp
  qed
  with s1(1) show ?drops by blast
next
  let ?cols1 = "map (\<lambda>c. setup_column (micros c) c) [0..<OPT_TERM_COLS]"
  have 1: "setupColumns micros cols0 = Some ?cols1"
    using assms(2) by (rule setupColumns_result)
  have l: "length ?cols1 = OPT_TERM_COLS" by simp
  have "\<exists>cols cols'. run_opt ops ?cols1 = Some cols \<and> stepColumns cols = Some cols'
              \<and> (\<forall>c<OPT_TERM_COLS. c_head (cols ! c) \<noteq> - 1 \<longrightarrow>
                    (\<not> c_speed (cols ! c) \<le> c_age (cols ! c) + 1
                       \<longrightarrow> c_head (cols' ! c) = c_head (cols ! c))
                  \<and> (c_speed (cols ! c) \<le> c_age (cols ! c) + 1
                       \<and> sint (c_head (cols ! c)) + 1 < int TERM_ROWS + uint (c_trail (cols ! c))
                       \<longrightarrow> sint (c_head (cols' ! c)) = sint (c_head (cols ! c)) + 1)
                  \<and> (c_speed (cols ! c) \<le> c_age (cols ! c) + 1
                       \<and> int TERM_ROWS + uint (c_trail (cols ! c)) \<le> sint (c_head (cols ! c)) + 1
                       \<longrightarrow> c_head (cols' ! c)
                            = (if splitmix32 (c_rng (cols ! c)) AND 0x7F < 48 then - 1 else 0)))"
    for ops
  proof -
    let ?cols = "map (run_column ops) ?cols1"
    have r: "run_opt ops ?cols1 = Some ?cols" using l by (rule run_opt_map)
    have s: "stepColumns ?cols = Some (map step_column ?cols)"
      by (rule stepColumns_map) simp
    have ok: "column_ok (?cols ! c)" if "c < OPT_TERM_COLS" for c
      using that by (simp add: column_ok_run column_ok_setup del: upt_Suc)
    have n: "map step_column ?cols ! c = step_column (?cols ! c)" if "c < OPT_TERM_COLS" for c
      using that by (simp del: upt_Suc)
    show ?thesis
      using r s step_column_exact [OF ok] n
      by (intro exI [of _ ?cols] exI [of _ "map step_column ?cols"]) (simp del: upt_Suc)
  qed
  with 1 show ?columns by blast
qed

theorem head_steps_down_or_is_reset_witness:
  "(\<exists>s1 s s'. setupState seeded = Some s1 \<and> run three_frames s1 = Some s
       \<and> stepDrops s = Some s'
       \<and> head (drops s ! 0) = 0 \<and> speed (drops s ! 0) = 4 \<and> age (drops s ! 0) = 3
       \<and> sint (head (drops s' ! 0)) = 1)
   \<and> (\<exists>cols1 cols cols'. setupColumns readings idle_columns = Some cols1
       \<and> run_opt (opt_frames 26 @ [SpawnHeads]) cols1 = Some cols
       \<and> stepColumns cols = Some cols'
       \<and> c_head (cols ! 0) = 26 \<and> c_trail (cols ! 0) = 3 \<and> c_head (cols' ! 0) = 0)"
proof -
  note t = head_steps_down_or_is_reset [OF sized_seeded length_idle_columns, of readings]
  from t obtain s1 where s1: "setupState seeded = Some s1"
    and a: "\<And>ops. \<exists>s s'. run ops s1 = Some s \<and> stepDrops s = Some s'
              \<and> (\<forall>i<MAX_DROPS. head (drops s ! i) \<noteq> - 1 \<longrightarrow>
                    (\<not> speed (drops s ! i) \<le> age (drops s ! i) + 1
                       \<longrightarrow> head (drops s' ! i) = head (drops s ! i))
                  \<and> (speed (drops s ! i) \<le> age (drops s ! i) + 1
                       \<and> sint (head (drops s ! i)) + 1 - (uint (trail (drops s ! i)) - 1) < int TERM_ROWS
                       \<longrightarrow> sint (head (drops s' ! i)) = sint (head (drops s ! i)) + 1)
                  \<and> (speed (drops s ! i) \<le> age (drops s ! i) + 1
                       \<and> int TERM_ROWS \<le> sint (head (drops s ! i)) + 1 - (uint (trail (drops s ! i)) - 1)
                       \<longrightarrow> head (drops s' ! i) = - 1))" by blast
  from a [of three_frames] obtain s s' where s: "run three_frames s1 = Some s"
    "stepDrops s = Some s'"
    and b: "\<forall>i<MAX_DROPS. head (drops s ! i) \<noteq> - 1 \<longrightarrow>
                    (\<not> speed (drops s ! i) \<le> age (drops s ! i) + 1
                       \<longrightarrow> head (drops s' ! i) = head (drops s ! i))
                  \<and> (speed (drops s ! i) \<le> age (drops s ! i) + 1
                       \<and> sint (head (drops s ! i)) + 1 - (uint (trail (drops s ! i)) - 1) < int TERM_ROWS
                       \<longrightarrow> sint (head (drops s' ! i)) = sint (head (drops s ! i)) + 1)
                  \<and> (speed (drops s ! i) \<le> age (drops s ! i) + 1
                       \<and> int TERM_ROWS \<le> sint (head (drops s ! i)) + 1 - (uint (trail (drops s ! i)) - 1)
                       \<longrightarrow> head (drops s' ! i) = - 1)" by blast
  from seeded_drop0 s1 s(1) have e: "head (drops s ! 0) = 0" "speed (drops s ! 0) = 4"
    "age (drops s ! 0) = 3" "trail (drops s ! 0) = 9" by simp_all
  from b [rule_format, of 0] e have "sint (head (drops s' ! 0)) = 1" by simp
  with s1 s e have 1: "\<exists>s1 s s'. setupState seeded = Some s1 \<and> run three_frames s1 = Some s
       \<and> stepDrops s = Some s'
       \<and> head (drops s ! 0) = 0 \<and> speed (drops s ! 0) = 4 \<and> age (drops s ! 0) = 3
       \<and> sint (head (drops s' ! 0)) = 1" by blast
  from t obtain cols1 where c1: "setupColumns readings idle_columns = Some cols1"
    and c: "\<And>ops. \<exists>cols cols'. run_opt ops cols1 = Some cols \<and> stepColumns cols = Some cols'
              \<and> (\<forall>c<OPT_TERM_COLS. c_head (cols ! c) \<noteq> - 1 \<longrightarrow>
                    (\<not> c_speed (cols ! c) \<le> c_age (cols ! c) + 1
                       \<longrightarrow> c_head (cols' ! c) = c_head (cols ! c))
                  \<and> (c_speed (cols ! c) \<le> c_age (cols ! c) + 1
                       \<and> sint (c_head (cols ! c)) + 1 < int TERM_ROWS + uint (c_trail (cols ! c))
                       \<longrightarrow> sint (c_head (cols' ! c)) = sint (c_head (cols ! c)) + 1)
                  \<and> (c_speed (cols ! c) \<le> c_age (cols ! c) + 1
                       \<and> int TERM_ROWS + uint (c_trail (cols ! c)) \<le> sint (c_head (cols ! c)) + 1
                       \<longrightarrow> c_head (cols' ! c)
                            = (if splitmix32 (c_rng (cols ! c)) AND 0x7F < 48 then - 1 else 0)))"
    by blast
  from c [of "opt_frames 26 @ [SpawnHeads]"] obtain cols cols' where
    r: "run_opt (opt_frames 26 @ [SpawnHeads]) cols1 = Some cols" "stepColumns cols = Some cols'"
    and d: "\<forall>c<OPT_TERM_COLS. c_head (cols ! c) \<noteq> - 1 \<longrightarrow>
                    (\<not> c_speed (cols ! c) \<le> c_age (cols ! c) + 1
                       \<longrightarrow> c_head (cols' ! c) = c_head (cols ! c))
                  \<and> (c_speed (cols ! c) \<le> c_age (cols ! c) + 1
                       \<and> sint (c_head (cols ! c)) + 1 < int TERM_ROWS + uint (c_trail (cols ! c))
                       \<longrightarrow> sint (c_head (cols' ! c)) = sint (c_head (cols ! c)) + 1)
                  \<and> (c_speed (cols ! c) \<le> c_age (cols ! c) + 1
                       \<and> int TERM_ROWS + uint (c_trail (cols ! c)) \<le> sint (c_head (cols ! c)) + 1
                       \<longrightarrow> c_head (cols' ! c)
                            = (if splitmix32 (c_rng (cols ! c)) AND 0x7F < 48 then - 1 else 0))"
    by blast
  from readings_run [of "opt_frames 26 @ [SpawnHeads]"] c1 r(1)
  have "cols ! 0 = run_column (opt_frames 26 @ [SpawnHeads]) (setup_column (readings 0) 0)"
    by (simp add: upt_conv_Cons del: upt_Suc)
  with readings_column have f: "c_head (cols ! 0) = 26" "c_trail (cols ! 0) = 3"
    "c_speed (cols ! 0) = 1" "c_age (cols ! 0) = 0" "splitmix32 (c_rng (cols ! 0)) AND 0x7F = 62"
    by simp_all
  from d [rule_format, of 0] f have "c_head (cols' ! 0) = 0" by simp
  with c1 r f have "\<exists>cols1 cols cols'. setupColumns readings idle_columns = Some cols1
       \<and> run_opt (opt_frames 26 @ [SpawnHeads]) cols1 = Some cols
       \<and> stepColumns cols = Some cols'
       \<and> c_head (cols ! 0) = 26 \<and> c_trail (cols ! 0) = 3 \<and> c_head (cols' ! 0) = 0" by blast
  with 1 show ?thesis by blast
qed

text \<open>
  The claim as stated fails in the per-column sketch.  After \<open>setupColumns\<close> with the
  readings above, 26 rounds of \<open>loop()\<close> and one more \<open>maybeSpawnHeads\<close>, the head of
  column 0 is on row 26; the next \<open>stepColumns\<close> puts it on row 0, and the column is
  still active.
\<close>

theorem head_reset_to_top_counterexample:
  "map_option (c_head \<circ> hd)
      (Option.bind (setupColumns readings idle_columns) (run_opt (opt_frames 26 @ [SpawnHeads])))
     = Some 26
   \<and> map_option (c_head \<circ> hd)
      (Option.bind (Option.bind (setupColumns readings idle_columns)
         (run_opt (opt_frames 26 @ [SpawnHeads]))) stepColumns)
     = Some 0"
  using readings_column
  by (simp add: readings_run stepColumns_map hd_upt_map hd_map del: upt_Suc)

subsection \<open>Colour changes of a frame\<close>

text \<open>
  C8, as amended.  \<open>renderFrame\<close> of the fast-drops sketch returns with every index
  inside its array, and what it writes is exactly this: the cursor home, then the cells in
  scan order, one character each, with a colour escape immediately before the character
  of a cell exactly when the brightness of the cell differs from that of the cell before
  it in scan order (the first cell is compared with 255), CR LF after every row but the
  last, and one colour reset at the end.  With no active drop and no active fast drop
  that is: home, one colour escape (brightness 0), and \<open>TERM_ROWS\<close> rows of \<open>TERM_COLS\<close>
  blanks.  \<open>renderFrame\<close> of the per-column sketch writes, for every cell, the colour
  escape of the cell, its character and a colour reset, and a line feed after every row;
  with no active column every cell is the escape of brightness 0, a blank and the reset.
\<close>

theorem colour_set_only_on_change:
  assumes "sized s" "length cols = OPT_TERM_COLS"
  shows "renderFrame s salt = Some (expected_frame s)
       \<and> colors_of (expected_frame s)
            = color_changes 255 (map (\<lambda>rc. fst (cell_value s rc)) scan_order)
       \<and> glyphs_of (expected_frame s) = map (\<lambda>rc. snd (cell_value s rc)) scan_order
       \<and> ((\<forall>i<MAX_DROPS. head (drops s ! i) = - 1) \<and> (\<forall>i<MAX_FAST. \<not> active (fasts s ! i))
            \<longrightarrow> expected_frame s = Home # SetColor 0
                 # concat (replicate (TERM_ROWS - 1) (replicate TERM_COLS (Glyph (CHR '' '')) @ [CrLf]))
                 @ replicate TERM_COLS (Glyph (CHR '' '')) @ [ResetColor])
       \<and> renderFrame_opt cols salt = Some (expected_frame_opt cols salt)
       \<and> ((\<forall>c<OPT_TERM_COLS. c_head (cols ! c) = - 1)
            \<longrightarrow> expected_frame_opt cols salt = OHome # concat (replicate TERM_ROWS
                 (concat (replicate OPT_TERM_COLS [OSetColor 0, OGlyph (CHR '' ''), OResetColor])
                    @ [OLf])))"
proof -
  note e = renderFrame_exact [OF assms(1), of salt]
  from renderFrame_result [OF assms(1), of salt] e
  have "colors_of (expected_frame s)
            = color_changes 255 (map (\<lambda>rc. fst (cell_value s rc)) scan_order)"
    "glyphs_of (expected_frame s) = map (\<lambda>rc. snd (cell_value s rc)) scan_order"
    by auto
  moreover note e expected_frame_blank [OF assms(1)] renderFrame_opt_exact [OF assms(2), of salt]
    expected_frame_opt_idle [OF assms(2), of salt]
  ultimately show ?thesis by blast
qed

theorem colour_set_only_on_change_witness:
  "\<exists>s1. setupState power_on = Some s1
      \<and> renderFrame s1 0x12345678 = Some (Home # SetColor 0
           # concat (replicate (TERM_ROWS - 1) (replicate TERM_COLS (Glyph (CHR '' '')) @ [CrLf]))
           @ replicate TERM_COLS (Glyph (CHR '' '')) @ [ResetColor])
      \<and> renderFrame_opt idle_columns 0x12345678 = Some (OHome # concat (replicate TERM_ROWS
           (concat (replicate OPT_TERM_COLS [OSetColor 0, OGlyph (CHR '' ''), OResetColor])
              @ [OLf])))"
proof -
  from setupState_inv [OF sized_power_on] obtain s1 where s1: "setupState power_on = Some s1"
    "occupancy_inv s1" "\<forall>i<MAX_DROPS. head (drops s1 ! i) = - 1"
    "\<forall>i<MAX_FAST. \<not> active (fasts s1 ! i)" by blast
  have idle: "\<forall>c<OPT_TERM_COLS. c_head (idle_columns ! c) = - 1"
    by (simp add: idle_columns_def idle_column_def)
  from colour_set_only_on_change [OF occupancy_inv_sized [OF s1(2)] length_idle_columns,
      of "0x12345678"] s1(3,4) idle
  have "renderFrame s1 0x12345678 = Some (Home # SetColor 0
           # concat (replicate (TERM_ROWS - 1) (replicate TERM_COLS (Glyph (CHR '' '')) @ [CrLf]))
           @ replicate TERM_COLS (Glyph (CHR '' '')) @ [ResetColor])"
    "renderFrame_opt idle_columns 0x12345678 = Some (OHome # concat (replicate TERM_ROWS
           (concat (replicate OPT_TERM_COLS [OSetColor 0, OGlyph (CHR '' ''), OResetColor])
              @ [OLf])))"
    by simp_all
  with s1(1) show ?thesis by blast
qed

text \<open>
  The claim as stated fails in the per-column sketch: a frame with no active column sets
  the colour 1440 times.
\<close>

theorem colour_set_for_every_cell_counterexample:
  "map_option (length \<circ> colors_of_opt) (renderFrame_opt idle_columns 0x12345678) = Some 1440"
  using renderFrame_opt_result [OF length_idle_columns, of "0x12345678"] by auto

subsection \<open>The packed brightness store\<close>

text \<open>
  C6.  In each of the three packings (the byte-wise one of \<open>vectorized.ino\<close> with its
  branch for a slot that spans two bytes, and the 16-bit window of \<open>part_001\<close> and of
  \<open>basic_colorized.ino\<close>), for every row \<open>drop_idx\<close> of the table, every slot below
  \<open>MAX_TRAIL\<close> and every value from 0 to 3, \<open>set_bright_slot\<close> stays inside the table and
  \<open>get_bright_slot\<close> of the same drop and slot then returns the value written.
\<close>

theorem set_then_get_returns_value:
  assumes "dims n (BRIGHT_BYTES_PER_DROP + 1) p" and "unat drop_idx < n"
    and "unat slot < MAX_TRAIL" and "v \<le> 3"
  shows "(\<exists>p'. set_bright_slot_vec p drop_idx slot v = Some p'
            \<and> get_bright_slot_vec p' drop_idx slot = Some v)
       \<and> (\<exists>p'. set_bright_slot_fix p drop_idx slot v = Some p'
            \<and> get_bright_slot_fix p' drop_idx slot = Some v)
       \<and> (\<exists>p'. set_bright_slot_col p drop_idx slot v = Some p'
            \<and> get_bright_slot_col p' drop_idx slot = Some v)"
proof -
  from assms(1) have d: "dims n 4 p" by simp
  from assms(4) have v: "v AND 3 = v" by (rule le3_and3)
  from set_get_vec [OF d assms(2,3), of v] set_get_fix [OF d assms(2,3), of v]
    set_get_col [OF d assms(2,3), of v]
  show ?thesis unfolding v by blast
qed

theorem set_then_get_returns_value_witness:
  "(\<exists>p'. set_bright_slot_vec sample_rows 7 5 2 = Some p'
            \<and> get_bright_slot_vec p' 7 5 = Some 2)
       \<and> (\<exists>p'. set_bright_slot_fix sample_rows 7 5 2 = Some p'
            \<and> get_bright_slot_fix p' 7 5 = Some 2)
       \<and> (\<exists>p'. set_bright_slot_col sample_rows 7 5 2 = Some p'
            \<and> get_bright_slot_col p' 7 5 = Some 2)"
proof -
  have "dims VEC_MAX_DROPS (BRIGHT_BYTES_PER_DROP + 1) sample_rows"
    using dims_sample_rows by simp
  from set_then_get_returns_value [OF this, of 7 5 2] show ?thesis by simp
qed

text \<open>
  C5.  In each of the three packings, for any contents of the table, every read of a slot
  below \<open>MAX_TRAIL\<close> of a row of the table returns a value from 0 to 3; a write of any
  value (in range or not) stays inside the table, stores the two low bits of the value in
  the slot, a value from 0 to 3, and leaves every other slot of the table as it was.  So
  whatever sequence of spawns, advances and fast-drop hits wrote the table, no slot holds
  a value outside 0..3.  For the vectorized sketch, moreover, in every state of a run of
  the four operations from \<open>setupState\<close> the table has its declared size, so that every
  slot of every drop is read inside the table, with a value from 0 to 3.
\<close>

theorem brightness_slot_in_range:
  assumes "dims n (BRIGHT_BYTES_PER_DROP + 1) p" "unat drop_idx < n" "unat slot < MAX_TRAIL"
    and "vsized v0"
  shows "((\<exists>x. get_bright_slot_vec p drop_idx slot = Some x \<and> x \<le> 3)
       \<and> (\<exists>p'. set_bright_slot_vec p drop_idx slot val = Some p'
             \<and> dims n (BRIGHT_BYTES_PER_DROP + 1) p'
             \<and> get_bright_slot_vec p' drop_idx slot = Some (val AND 3) \<and> val AND 3 \<le> 3
             \<and> (\<forall>d k. unat d < n \<and> unat k < MAX_TRAIL \<and> (d \<noteq> drop_idx \<or> k \<noteq> slot)
                   \<longrightarrow> get_bright_slot_vec p' d k = get_bright_slot_vec p d k)))
     \<and> ((\<exists>x. get_bright_slot_fix p drop_idx slot = Some x \<and> x \<le> 3)
       \<and> (\<exists>p'. set_bright_slot_fix p drop_idx slot val = Some p'
             \<and> dims n (BRIGHT_BYTES_PER_DROP + 1) p'
             \<and> get_bright_slot_fix p' drop_idx slot = Some (val AND 3) \<and> val AND 3 \<le> 3
             \<and> (\<forall>d k. unat d < n \<and> unat k < MAX_TRAIL \<and> (d \<noteq> drop_idx \<or> k \<noteq> slot)
                   \<longrightarrow> get_bright_slot_fix p' d k = get_bright_slot_fix p d k)))
     \<and> ((\<exists>x. get_bright_slot_col p drop_idx slot = Some x \<and> x \<le> 3)
       \<and> (\<exists>p'. set_bright_slot_col p drop_idx slot val = Some p'
             \<and> dims n (BRIGHT_BYTES_PER_DROP + 1) p'
             \<and> get_bright_slot_col p' drop_idx slot = Some (val AND 3) \<and> val AND 3 \<le> 3
             \<and> (\<forall>d k. unat d < n \<and> unat k < MAX_TRAIL \<and> (d \<noteq> drop_idx \<or> k \<noteq> slot)
                   \<longrightarrow> get_bright_slot_col p' d k = get_bright_slot_col p d k)))
     \<and> (\<exists>v1. setupState_vec v0 = Some v1 \<and>
           (\<forall>ops. \<exists>v. run_vec ops v1 = Some v
              \<and> (\<forall>d k. unat d < VEC_MAX_DROPS \<and> unat k < MAX_TRAIL \<longrightarrow>
                    (\<exists>x. get_bright_slot_vec (drop_bright_packed v) d k = Some x \<and> x \<le> 3))))"
proof -
  from assms(1) have d: "dims n 4 p" by simp
  note a = accessors_in_range [where n = n, OF _ _ d assms(2,3), of _ _ val]
  have 1: "(\<exists>x. get_bright_slot_vec p drop_idx slot = Some x \<and> x \<le> 3)
       \<and> (\<exists>p'. set_bright_slot_vec p drop_idx slot val = Some p'
             \<and> dims n 4 p'
             \<and> get_bright_slot_vec p' drop_idx slot = Some (val AND 3) \<and> val AND 3 \<le> 3
             \<and> (\<forall>d k. unat d < n \<and> unat k < MAX_TRAIL \<and> (d \<noteq> drop_idx \<or> k \<noteq> slot)
                   \<longrightarrow> get_bright_slot_vec p' d k = get_bright_slot_vec p d k))"
    by (rule a) (auto intro: get_vec_slot_of set_vec_slot_of)
  have 2: "(\<exists>x. get_bright_slot_fix p drop_idx slot = Some x \<and> x \<le> 3)
       \<and> (\<exists>p'. set_bright_slot_fix p drop_idx slot val = Some p'
             \<and> dims n 4 p'
             \<and> get_bright_slot_fix p' drop_idx slot = Some (val AND 3) \<and> val AND 3 \<le> 3
             \<and> (\<forall>d k. unat d < n \<and> unat k < MAX_TRAIL \<and> (d \<noteq> drop_idx \<or> k \<noteq> slot)
                   \<longrightarrow> get_bright_slot_fix p' d k = get_bright_slot_fix p d k))"
    by (rule a) (auto intro: get_fix_slot_of set_fix_slot_of)
  have 3: "(\<exists>x. get_bright_slot_col p drop_idx slot = Some x \<and> x \<le> 3)
       \<and> (\<exists>p'. set_bright_slot_col p drop_idx slot val = Some p'
             \<and> dims n 4 p'
             \<and> get_bright_slot_col p' drop_idx slot = Some (val AND 3) \<and> val AND 3 \<le> 3
             \<and> (\<forall>d k. unat d < n \<and> unat k < MAX_TRAIL \<and> (d \<noteq> drop_idx \<or> k \<noteq> slot)
                   \<longrightarrow> get_bright_slot_col p' d k = get_bright_slot_col p d k))"
    by (rule a) (auto intro: get_col_slot_of set_col_slot_of)
  from setupState_vec_inv [OF assms(4)] obtain v1 where v1: "setupState_vec v0 = Some v1"
    "vec_inv v1" by blast
  have "\<exists>v. run_vec ops v1 = Some v
              \<and> (\<forall>d k. unat d < VEC_MAX_DROPS \<and> unat k < MAX_TRAIL \<longrightarrow>
                    (\<exists>x. get_bright_slot_vec (drop_bright_packed v) d k = Some x \<and> x \<le> 3))"
    for ops
  proof -
    from run_vec_inv [OF v1(2), of ops] obtain v where v: "run_vec ops v1 = Some v" "vec_inv v"
      by blast
    then have "dims VEC_MAX_DROPS 4 (drop_bright_packed v)"
      by (simp add: vec_inv_def vsized_def)
    from get_vec_slot_of [OF this] slot_of_le3 v(1) show ?thesis by auto
  qed
  with v1(1) have 4: "\<exists>v1. setupState_vec v0 = Some v1 \<and>
           (\<forall>ops. \<exists>v. run_vec ops v1 = Some v
              \<and> (\<forall>d k. unat d < VEC_MAX_DROPS \<and> unat k < MAX_TRAIL \<longrightarrow>
                    (\<exists>x. get_bright_slot_vec (drop_bright_packed v) d k = Some x \<and> x \<le> 3)))"
    by blast
  from 1 2 3 4 show ?thesis by simp
qed

theorem brightness_slot_in_range_witness:
  "(get_bright_slot_vec sample_rows 7 5 = Some 2
     \<and> (\<exists>p'. set_bright_slot_vec sample_rows 7 5 7 = Some p'
           \<and> get_bright_slot_vec p' 7 5 = Some 3 \<and> get_bright_slot_vec p' 7 4 = Some 3
           \<and> get_bright_slot_vec p' 7 6 = Some 1 \<and> get_bright_slot_vec p' 8 5 = Some 2))
   \<and> (get_bright_slot_fix sample_rows 7 5 = Some 2
     \<and> (\<exists>p'. set_bright_slot_fix sample_rows 7 5 7 = Some p'
           \<and> get_bright_slot_fix p' 7 5 = Some 3 \<and> get_bright_slot_fix p' 7 4 = Some 3
           \<and> get_bright_slot_fix p' 7 6 = Some 1 \<and> get_bright_slot_fix p' 8 5 = Some 2))
   \<and> (get_bright_slot_col sample_rows 7 5 = Some 2
     \<and> (\<exists>p'. set_bright_slot_col sample_rows 7 5 7 = Some p'
           \<and> get_bright_slot_col p' 7 5 = Some 3 \<and> get_bright_slot_col p' 7 4 = Some 3
           \<and> get_bright_slot_col p' 7 6 = Some 1 \<and> get_bright_slot_col p' 8 5 = Some 2))
   \<and> (\<exists>v1 v. setupState_vec seeded_vec = Some v1 \<and> run_vec [SpawnDrop] v1 = Some v
         \<and> get_bright_slot_vec (drop_bright_packed v) 0 0 = Some 3
         \<and> get_bright_slot_vec (drop_bright_packed v) 0 1 = Some 2
         \<and> get_bright_slot_vec (drop_bright_packed v) 0 2 = Some 1)"
proof -
  have dm: "dims VEC_MAX_DROPS (BRIGHT_BYTES_PER_DROP + 1) sample_rows"
    using dims_sample_rows by simp
  have i: "unat (7 :: u8) < VEC_MAX_DROPS" "unat (5 :: u8) < MAX_TRAIL" by simp_all
  note t = brightness_slot_in_range [OF dm i vsized_seeded_vec, of 7]
  have v: "(7 :: u8) AND 3 = 3" by simp
  have n: "unat (7 :: u8) < VEC_MAX_DROPS \<and> unat (4 :: u8) < MAX_TRAIL \<and> ((7 :: u8) \<noteq> 7 \<or> (4 :: u8) \<noteq> 5)"
    "unat (7 :: u8) < VEC_MAX_DROPS \<and> unat (6 :: u8) < MAX_TRAIL \<and> ((7 :: u8) \<noteq> 7 \<or> (6 :: u8) \<noteq> 5)"
    "unat (8 :: u8) < VEC_MAX_DROPS \<and> unat (5 :: u8) < MAX_TRAIL \<and> ((8 :: u8) \<noteq> 7 \<or> (5 :: u8) \<noteq> 5)"
    by simp_all
  from t [THEN conjunct1] obtain p1 where p1: "set_bright_slot_vec sample_rows 7 5 7 = Some p1"
    "get_bright_slot_vec p1 7 5 = Some (7 AND 3)"
    "\<forall>d k. unat d < VEC_MAX_DROPS \<and> unat k < MAX_TRAIL \<and> (d \<noteq> 7 \<or> k \<noteq> 5)
        \<longrightarrow> get_bright_slot_vec p1 d k = get_bright_slot_vec sample_rows d k" by blast
  from p1(3) [rule_format, OF n(1)] p1(3) [rule_format, OF n(2)] p1(3) [rule_format, OF n(3)]
    p1(1,2) sample_reads v
  have 1: "get_bright_slot_vec sample_rows 7 5 = Some 2
     \<and> (\<exists>p'. set_bright_slot_vec sample_rows 7 5 7 = Some p'
           \<and> get_bright_slot_vec p' 7 5 = Some 3 \<and> get_bright_slot_vec p' 7 4 = Some 3
           \<and> get_bright_slot_vec p' 7 6 = Some 1 \<and> get_bright_slot_vec p' 8 5 = Some 2)"
    by simp
  from t [THEN conjunct2, THEN conjunct1] obtain p2 where p2: "set_bright_slot_fix sample_rows 7 5 7 = Some p2"
    "get_bright_slot_fix p2 7 5 = Some (7 AND 3)"
    "\<forall>d k. unat d < VEC_MAX_DROPS \<and> unat k < MAX_TRAIL \<and> (d \<noteq> 7 \<or> k \<noteq> 5)
        \<longrightarrow> get_bright_slot_fix p2 d k = get_bright_slot_fix sample_rows d k" by blast
  from p2(3) [rule_format, OF n(1)] p2(3) [rule_format, OF n(2)] p2(3) [rule_format, OF n(3)]
    p2(1,2) sample_reads v
  have 2: "get_bright_slot_fix sample_rows 7 5 = Some 2
     \<and> (\<exists>p'. set_bright_slot_fix sample_rows 7 5 7 = Some p'
           \<and> get_bright_slot_fix p' 7 5 = Some 3 \<and> get_bright_slot_fix p' 7 4 = Some 3
           \<and> get_bright_slot_fix p' 7 6 = Some 1 \<and> get_bright_slot_fix p' 8 5 = Some 2)"
    by simp
  from t [THEN conjunct2, THEN conjunct2, THEN conjunct1] obtain p3 where p3: "set_bright_slot_col sample_rows 7 5 7 = Some p3"
    "get_bright_slot_col p3 7 5 = Some (7 AND 3)"
    "\<forall>d k. unat d < VEC_MAX_DROPS \<and> unat k < MAX_TRAIL \<and> (d \<noteq> 7 \<or> k \<noteq> 5)
        \<longrightarrow> get_bright_slot_col p3 d k = get_bright_slot_col sample_rows d k" by blast
  from p3(3) [rule_format, OF n(1)] p3(3) [rule_format, OF n(2)] p3(3) [rule_format, OF n(3)]
    p3(1,2) sample_reads v
  have 3: "get_bright_slot_col sample_rows 7 5 = Some 2
     \<and> (\<exists>p'. set_bright_slot_col sample_rows 7 5 7 = Some p'
           \<and> get_bright_slot_col p' 7 5 = Some 3 \<and> get_bright_slot_col p' 7 4 = Some 3
           \<and> get_bright_slot_col p' 7 6 = Some 1 \<and> get_bright_slot_col p' 8 5 = Some 2)"
    by simp
  from t [THEN conjunct2, THEN conjunct2, THEN conjunct2]
  obtain v1 where v1: "setupState_vec seeded_vec = Some v1"
    and r: "\<And>ops. \<exists>v. run_vec ops v1 = Some v" by blast
  from r [of "[SpawnDrop]"] obtain w where w: "run_vec [SpawnDrop] v1 = Some w" by blast
  from seeded_vec_brightness v1 w
  have "get_bright_slot_vec (drop_bright_packed w) 0 0 = Some 3
         \<and> get_bright_slot_vec (drop_bright_packed w) 0 1 = Some 2
         \<and> get_bright_slot_vec (drop_bright_packed w) 0 2 = Some 1"
    by (simp del: run_vec.simps)
  with v1 w have 4: "\<exists>v1 v. setupState_vec seeded_vec = Some v1 \<and> run_vec [SpawnDrop] v1 = Some v
         \<and> get_bright_slot_vec (drop_bright_packed v) 0 0 = Some 3
         \<and> get_bright_slot_vec (drop_bright_packed v) 0 1 = Some 2
         \<and> get_bright_slot_vec (drop_bright_packed v) 0 2 = Some 1" by blast
  from 1 2 3 4 show ?thesis by (simp only: simp_thms)
qed

subsection \<open>A forced spawn\<close>

text \<open>
  C4.  From the state \<open>setupState\<close> leaves (every drop inactive, every column free), a
  \<open>maybeSpawnDrop\<close> whose first roll passes (\<open>splitmix32 global_rng & 0xFF\<close> at most
  \<open>SPAWN_CHANCE\<close>) returns with every index inside its array and activates exactly one
  drop: its head is 0, its column is a column of the terminal (free before, as all were,
  and the only one flagged after), its trail is from 3 to \<open>MAX_TRAIL\<close> and its speed from
  1 to 5.  This holds in the fast-drops sketch and in the vectorized sketch.
\<close>

theorem forced_spawn_activates_one_drop:
  assumes "sized s0" "splitmix32 (global_rng s0) AND 0xFF \<le> SPAWN_CHANCE"
    and "vsized v0" "splitmix32 (global_rng v0) AND 0xFF \<le> VEC_SPAWN_CHANCE"
  shows "(\<exists>s1 s' i. setupState s0 = Some s1 \<and> maybeSpawnDrop s1 = Some s' \<and> i < MAX_DROPS
           \<and> (\<forall>j<MAX_DROPS. head (drops s1 ! j) = - 1)
           \<and> (\<forall>c<TERM_COLS. \<not> column_occupied s1 ! c)
           \<and> (\<forall>j<MAX_DROPS. head (drops s' ! j) \<noteq> - 1 \<longleftrightarrow> j = i)
           \<and> head (drops s' ! i) = 0
           \<and> unat (col (drops s' ! i)) < TERM_COLS
           \<and> (\<forall>c<TERM_COLS. column_occupied s' ! c \<longleftrightarrow> c = unat (col (drops s' ! i)))
           \<and> 3 \<le> unat (trail (drops s' ! i)) \<and> unat (trail (drops s' ! i)) \<le> MAX_TRAIL
           \<and> 1 \<le> unat (speed (drops s' ! i)) \<and> unat (speed (drops s' ! i)) \<le> 5)
       \<and> (\<exists>v1 v' i. setupState_vec v0 = Some v1 \<and> maybeSpawnDrop_vec v1 = Some v'
           \<and> i < VEC_MAX_DROPS
           \<and> (\<forall>j<VEC_MAX_DROPS. head (drops v1 ! j) = - 1)
           \<and> (\<forall>c<TERM_COLS. \<not> column_occupied v1 ! c)
           \<and> (\<forall>j<VEC_MAX_DROPS. head (drops v' ! j) \<noteq> - 1 \<longleftrightarrow> j = i)
           \<and> head (drops v' ! i) = 0
           \<and> unat (col (drops v' ! i)) < TERM_COLS
           \<and> (\<forall>c<TERM_COLS. column_occupied v' ! c \<longleftrightarrow> c = unat (col (drops v' ! i)))
           \<and> 3 \<le> unat (trail (drops v' ! i)) \<and> unat (trail (drops v' ! i)) \<le> MAX_TRAIL
           \<and> 1 \<le> unat (speed (drops v' ! i)) \<and> unat (speed (drops v' ! i)) \<le> 5)"
proof
  from setupState_inv [OF assms(1)] obtain s1 where s1: "setupState s0 = Some s1"
    "occupancy_inv s1" "\<forall>i<MAX_DROPS. head (drops s1 ! i) = - 1"
    "\<forall>c<TERM_COLS. \<not> column_occupied s1 ! c" by blast
  from s1(1) have g: "global_rng s1 = global_rng s0"
    unfolding setupState_result [OF assms(1)] by auto
  from s1(2) have sz: "sized s1" by (rule occupancy_inv_sized)
  then have len: "length (drops s1) = MAX_DROPS" "length (column_occupied s1) = TERM_COLS"
    by (simp_all add: sized_def)
  from s1(3,4) have "\<exists>i<MAX_DROPS. head (drops s1 ! i) = - 1"
    "\<exists>c<TERM_COLS. \<not> column_occupied s1 ! c"
    by (auto intro: exI [of _ 0])
  then have due: "drop_spawn_due s1"
    unfolding drop_spawn_due_def using assms(2) g by simp
  from sz obtain s' where s': "maybeSpawnDrop s1 = Some s'" "spawns_drop s1 s'"
    by (cases rule: maybeSpawnDrop_cases) (use due in auto)
  from s'(2) obtain i c d where d: "i < MAX_DROPS" "c < TERM_COLS" "unat (col d) = c" "head d = 0"
    "3 \<le> unat (trail d)" "unat (trail d) \<le> MAX_TRAIL" "1 \<le> unat (speed d)" "unat (speed d) \<le> 5"
    "drops s' = (drops s1)[i := d]" "column_occupied s' = (column_occupied s1)[c := True]"
    unfolding spawns_drop_def by blast
  have 1: "drops s' ! i = d" using d len by simp
  have 2: "\<forall>j<MAX_DROPS. head (drops s' ! j) \<noteq> - 1 \<longleftrightarrow> j = i"
    using d s1(3) len by (auto simp: nth_list_update)
  have 3: "\<forall>c'<TERM_COLS. column_occupied s' ! c' \<longleftrightarrow> c' = unat (col (drops s' ! i))"
    using d s1(4) len 1 by (auto simp: nth_list_update)
  show "\<exists>s1 s' i. setupState s0 = Some s1 \<and> maybeSpawnDrop s1 = Some s' \<and> i < MAX_DROPS
           \<and> (\<forall>j<MAX_DROPS. head (drops s1 ! j) = - 1)
           \<and> (\<forall>c<TERM_COLS. \<not> column_occupied s1 ! c)
           \<and> (\<forall>j<MAX_DROPS. head (drops s' ! j) \<noteq> - 1 \<longleftrightarrow> j = i)
           \<and> head (drops s' ! i) = 0
           \<and> unat (col (drops s' ! i)) < TERM_COLS
           \<and> (\<forall>c<TERM_COLS. column_occupied s' ! c \<longleftrightarrow> c = unat (col (drops s' ! i)))
           \<and> 3 \<le> unat (trail (drops s' ! i)) \<and> unat (trail (drops s' ! i)) \<le> MAX_TRAIL
           \<and> 1 \<le> unat (speed (drops s' ! i)) \<and> unat (speed (drops s' ! i)) \<le> 5"
    using s1(1,3,4) s'(1) d(1-8) 2 3 unfolding 1 [symmetric]
    by (intro exI [of _ s1] exI [of _ s'] exI [of _ i]) simp
next
  from setupState_vec_inv [OF assms(3)] obtain v1 where v1: "setupState_vec v0 = Some v1"
    "vec_inv v1" "\<forall>i<VEC_MAX_DROPS. head (drops v1 ! i) = - 1"
    "\<forall>c<TERM_COLS. \<not> column_occupied v1 ! c" "global_rng v1 = global_rng v0" by blast
  from v1(2) have sz: "vsized v1" by (rule vec_inv_vsized)
  then have len: "length (drops v1) = VEC_MAX_DROPS" "length (column_occupied v1) = TERM_COLS"
    by (simp_all add: vsized_def)
  from v1(3,4) have "\<exists>i<VEC_MAX_DROPS. head (drops v1 ! i) = - 1"
    "\<exists>c<TERM_COLS. \<not> column_occupied v1 ! c"
    by (auto intro: exI [of _ 0])
  then have due: "drop_spawn_due_vec v1"
    unfolding drop_spawn_due_vec_def using assms(4) v1(5) by simp
  from sz obtain v' where v': "maybeSpawnDrop_vec v1 = Some v'" "spawns_drop_vec v1 v'"
    by (cases rule: maybeSpawnDrop_vec_cases) (use due in auto)
  from v'(2) obtain i c d where d: "i < VEC_MAX_DROPS" "c < TERM_COLS" "unat (col d) = c" "head d = 0"
    "3 \<le> unat (trail d)" "unat (trail d) \<le> MAX_TRAIL" "1 \<le> unat (speed d)" "unat (speed d) \<le> 5"
    "drops v' = (drops v1)[i := d]" "column_occupied v' = (column_occupied v1)[c := True]"
    unfolding spawns_drop_vec_def by blast
  have 1: "drops v' ! i = d" using d len by simp
  have 2: "\<forall>j<VEC_MAX_DROPS. head (drops v' ! j) \<noteq> - 1 \<longleftrightarrow> j = i"
    using d v1(3) len by (auto simp: nth_list_update)
  have 3: "\<forall>c'<TERM_COLS. column_occupied v' ! c' \<longleftrightarrow> c' = unat (col (drops v' ! i))"
    using d v1(4) len 1 by (auto simp: nth_list_update)
  show "\<exists>v1 v' i. setupState_vec v0 = Some v1 \<and> maybeSpawnDrop_vec v1 = Some v'
           \<and> i < VEC_MAX_DROPS
           \<and> (\<forall>j<VEC_MAX_DROPS. head (drops v1 ! j) = - 1)
           \<and> (\<forall>c<TERM_COLS. \<not> column_occupied v1 ! c)
           \<and> (\<forall>j<VEC_MAX_DROPS. head (drops v' ! j) \<noteq> - 1 \<longleftrightarrow> j = i)
           \<and> head (drops v' ! i) = 0
           \<and> unat (col (drops v' ! i)) < TERM_COLS
           \<and> (\<forall>c<TERM_COLS. column_occupied v' ! c \<longleftrightarrow> c = unat (col (drops v' ! i)))
           \<and> 3 \<le> unat (trail (drops v' ! i)) \<and> unat (trail (drops v' ! i)) \<le> MAX_TRAIL
           \<and> 1 \<le> unat (speed (drops v' ! i)) \<and> unat (speed (drops v' ! i)) \<le> 5"
    using v1(1,3,4) v'(1) d(1-8) 2 3 unfolding 1 [symmetric]
    by (intro exI [of _ v1] exI [of _ v'] exI [of _ i]) simp
qed

theorem forced_spawn_activates_one_drop_witness:
  "(\<exists>s1 s'. setupState seeded = Some s1 \<and> maybeSpawnDrop s1 = Some s'
       \<and> (\<forall>j<MAX_DROPS. head (drops s' ! j) \<noteq> - 1 \<longleftrightarrow> j = 0)
       \<and> head (drops s' ! 0) = 0 \<and> col (drops s' ! 0) = 36
       \<and> trail (drops s' ! 0) = 9 \<and> speed (drops s' ! 0) = 4
       \<and> (\<forall>c<TERM_COLS. column_occupied s' ! c \<longleftrightarrow> c = 36))
   \<and> (\<exists>v1 v'. setupState_vec seeded_vec = Some v1 \<and> maybeSpawnDrop_vec v1 = Some v'
       \<and> (\<forall>j<VEC_MAX_DROPS. head (drops v' ! j) \<noteq> - 1 \<longleftrightarrow> j = 0)
       \<and> head (drops v' ! 0) = 0 \<and> col (drops v' ! 0) = 36
       \<and> trail (drops v' ! 0) = 9 \<and> speed (drops v' ! 0) = 4
       \<and> (\<forall>c<TERM_COLS. column_occupied v' ! c \<longleftrightarrow> c = 36))"
proof -
  have r: "splitmix32 (global_rng seeded) AND 0xFF \<le> SPAWN_CHANCE"
    "splitmix32 (global_rng seeded_vec) AND 0xFF \<le> VEC_SPAWN_CHANCE"
    by (simp_all add: seeded_def seeded_vec_def power_on_def power_on_vec_def seeded_roll)
  note t = forced_spawn_activates_one_drop [OF sized_seeded r(1) vsized_seeded_vec r(2)]
  from t obtain s1 s' i where s: "setupState seeded = Some s1" "maybeSpawnDrop s1 = Some s'"
    "\<forall>j<MAX_DROPS. head (drops s' ! j) \<noteq> - 1 \<longleftrightarrow> j = i"
    "\<forall>c<TERM_COLS. column_occupied s' ! c \<longleftrightarrow> c = unat (col (drops s' ! i))" by blast
  from seeded_spawn_result s(1,2) have e: "head (drops s' ! 0) = 0" "col (drops s' ! 0) = 36"
    "trail (drops s' ! 0) = 9" "speed (drops s' ! 0) = 4" by simp_all
  from s(3) [rule_format, of 0] e(1) have i: "i = 0" by simp
  from s(3,4) e have 1: "\<exists>s1 s'. setupState seeded = Some s1 \<and> maybeSpawnDrop s1 = Some s'
       \<and> (\<forall>j<MAX_DROPS. head (drops s' ! j) \<noteq> - 1 \<longleftrightarrow> j = 0)
       \<and> head (drops s' ! 0) = 0 \<and> col (drops s' ! 0) = 36
       \<and> trail (drops s' ! 0) = 9 \<and> speed (drops s' ! 0) = 4
       \<and> (\<forall>c<TERM_COLS. column_occupied s' ! c \<longleftrightarrow> c = 36)"
    unfolding i by (intro exI [of _ s1] exI [of _ s']) (simp add: s(1,2))
  from t obtain v1 v' k where v: "setupState_vec seeded_vec = Some v1"
    "maybeSpawnDrop_vec v1 = Some v'"
    "\<forall>j<VEC_MAX_DROPS. head (drops v' ! j) \<noteq> - 1 \<longleftrightarrow> j = k"
    "\<forall>c<TERM_COLS. column_occupied v' ! c \<longleftrightarrow> c = unat (col (drops v' ! k))" by blast
  from seeded_vec_spawn_result v(1,2) have f: "head (drops v' ! 0) = 0" "col (drops v' ! 0) = 36"
    "trail (drops v' ! 0) = 9" "speed (drops v' ! 0) = 4" by simp_all
  from v(3) [rule_format, of 0] f(1) have k: "k = 0" by simp
  from v(3,4) f have "\<exists>v1 v'. setupState_vec seeded_vec = Some v1 \<and> maybeSpawnDrop_vec v1 = Some v'
       \<and> (\<forall>j<VEC_MAX_DROPS. head (drops v' ! j) \<noteq> - 1 \<longleftrightarrow> j = 0)
       \<and> head (drops v' ! 0) = 0 \<and> col (drops v' ! 0) = 36
       \<and> trail (drops v' ! 0) = 9 \<and> speed (drops v' ! 0) = 4
       \<and> (\<forall>c<TERM_COLS. column_occupied v' ! c \<longleftrightarrow> c = 36)"
    unfolding k by (intro exI [of _ v1] exI [of _ v']) (simp add: v(1,2))
  with 1 show ?thesis by blast
qed

subsection \<open>Fast drops stay on the screen\<close>

text \<open>
  C10.  In every state of a run of the four operations from the state \<open>setupState\<close>
  leaves, so wherever a frame is rendered, every active fast drop is on a row from 0 to
  \<open>TERM_ROWS - 1\<close>; the run never indexes outside an array.  This holds in the fast-drops
  sketch and in the vectorized sketch.
\<close>

theorem active_fast_drop_on_screen:
  assumes "sized s0" "vsized v0"
  shows "(\<exists>s1. setupState s0 = Some s1 \<and>
           (\<forall>ops. \<exists>s. run ops s1 = Some s
              \<and> (\<forall>i<MAX_FAST. active (fasts s ! i) \<longrightarrow>
                    0 \<le> sint (f_row (fasts s ! i)) \<and> sint (f_row (fasts s ! i)) < int TERM_ROWS)))
       \<and> (\<exists>v1. setupState_vec v0 = Some v1 \<and>
           (\<forall>ops. \<exists>v. run_vec ops v1 = Some v
              \<and> (\<forall>i<VEC_MAX_FAST. active (fasts v ! i) \<longrightarrow>
                    0 \<le> sint (f_row (fasts v ! i)) \<and> sint (f_row (fasts v ! i)) < int TERM_ROWS)))"
proof
  from setupState_inv [OF assms(1)] obtain s1 where s1: "setupState s0 = Some s1"
    "state_inv s1" by (auto simp: state_inv_def)
  have "\<exists>s. run ops s1 = Some s
              \<and> (\<forall>i<MAX_FAST. active (fasts s ! i) \<longrightarrow>
                    0 \<le> sint (f_row (fasts s ! i)) \<and> sint (f_row (fasts s ! i)) < int TERM_ROWS)"
    for ops
  proof -
    from run_inv [OF s1(2), of ops] obtain s where s: "run ops s1 = Some s" "state_inv s"
      by blast
    then have "sized s" "fast_rows_ok (fasts s)"
      by (simp_all add: state_inv_def occupancy_inv_def)
    then have "\<forall>i<MAX_FAST. active (fasts s ! i) \<longrightarrow>
        0 \<le> sint (f_row (fasts s ! i)) \<and> sint (f_row (fasts s ! i)) < int TERM_ROWS"
      by (simp add: fast_rows_ok_def sized_def)
    with s(1) show ?thesis by blast
  qed
  with s1(1) show "\<exists>s1. setupState s0 = Some s1 \<and>
           (\<forall>ops. \<exists>s. run ops s1 = Some s
              \<and> (\<forall>i<MAX_FAST. active (fasts s ! i) \<longrightarrow>
                    0 \<le> sint (f_row (fasts s ! i)) \<and> sint (f_row (fasts s ! i)) < int TERM_ROWS))"
    by blast
next
  from setupState_vec_inv [OF assms(2)] obtain v1 where v1: "setupState_vec v0 = Some v1"
    "vec_inv v1" by blast
  have "\<exists>v. run_vec ops v1 = Some v
              \<and> (\<forall>i<VEC_MAX_FAST. active (fasts v ! i) \<longrightarrow>
                    0 \<le> sint (f_row (fasts v ! i)) \<and> sint (f_row (fasts v ! i)) < int TERM_ROWS)"
    for ops
  proof -
    from run_vec_inv [OF v1(2), of ops] obtain v where v: "run_vec ops v1 = Some v" "vec_inv v"
      by blast
    from vec_inv_fast [OF v(2)] v(1) show ?thesis by blast
  qed
  with v1(1) show "\<exists>v1. setupState_vec v0 = Some v1 \<and>
           (\<forall>ops. \<exists>v. run_vec ops v1 = Some v
              \<and> (\<forall>i<VEC_MAX_FAST. active (fasts v ! i) \<longrightarrow>
                    0 \<le> sint (f_row (fasts v ! i)) \<and> sint (f_row (fasts v ! i)) < int TERM_ROWS))"
    by blast
qed

theorem active_fast_drop_on_screen_witness:
  "(\<exists>s1 s. setupState seeded = Some s1 \<and> run fast_run s1 = Some s
       \<and> active (fasts s ! 0) \<and> f_row (fasts s ! 0) = 1
       \<and> 0 \<le> sint (f_row (fasts s ! 0)) \<and> sint (f_row (fasts s ! 0)) < int TERM_ROWS)
   \<and> (\<exists>v1 v. setupState_vec seeded_vec = Some v1 \<and> run_vec fast_run_vec v1 = Some v
       \<and> active (fasts v ! 0) \<and> f_row (fasts v ! 0) = 0
       \<and> 0 \<le> sint (f_row (fasts v ! 0)) \<and> sint (f_row (fasts v ! 0)) < int TERM_ROWS)"
proof -
  note t = active_fast_drop_on_screen [OF sized_seeded vsized_seeded_vec]
  from t obtain s1 where s1: "setupState seeded = Some s1"
    and a: "\<And>ops. \<exists>s. run ops s1 = Some s
              \<and> (\<forall>i<MAX_FAST. active (fasts s ! i) \<longrightarrow>
                    0 \<le> sint (f_row (fasts s ! i)) \<and> sint (f_row (fasts s ! i)) < int TERM_ROWS)"
    by blast
  from a [of fast_run] obtain s where s: "run fast_run s1 = Some s"
    "\<forall>i<MAX_FAST. active (fasts s ! i) \<longrightarrow>
        0 \<le> sint (f_row (fasts s ! i)) \<and> sint (f_row (fasts s ! i)) < int TERM_ROWS" by blast
  from fast_run_result s1 s(1) have e: "active (fasts s ! 0)" "f_row (fasts s ! 0) = 1"
    by simp_all
  from s(2) [rule_format, of 0] e(1)
  have "0 \<le> sint (f_row (fasts s ! 0)) \<and> sint (f_row (fasts s ! 0)) < int TERM_ROWS" by simp
  with s1 s(1) e have 1: "\<exists>s1 s. setupState seeded = Some s1 \<and> run fast_run s1 = Some s
       \<and> active (fasts s ! 0) \<and> f_row (fasts s ! 0) = 1
       \<and> 0 \<le> sint (f_row (fasts s ! 0)) \<and> sint (f_row (fasts s ! 0)) < int TERM_ROWS" by blast
  from t obtain v1 where v1: "setupState_vec seeded_vec = Some v1"
    and b: "\<And>ops. \<exists>v. run_vec ops v1 = Some v
              \<and> (\<forall>i<VEC_MAX_FAST. active (fasts v ! i) \<longrightarrow>
                    0 \<le> sint (f_row (fasts v ! i)) \<and> sint (f_row (fasts v ! i)) < int TERM_ROWS)"
    by blast
  from b [of fast_run_vec] obtain v where v: "run_vec fast_run_vec v1 = Some v"
    "\<forall>i<VEC_MAX_FAST. active (fasts v ! i) \<longrightarrow>
        0 \<le> sint (f_row (fasts v ! i)) \<and> sint (f_row (fasts v ! i)) < int TERM_ROWS" by blast
  from fast_run_vec_result v1 v(1) have f: "active (fasts v ! 0)" "f_row (fasts v ! 0) = 0"
    by simp_all
  from v(2) [rule_format, of 0] f(1)
  have "0 \<le> sint (f_row (fasts v ! 0)) \<and> sint (f_row (fasts v ! 0)) < int TERM_ROWS" by simp
  with v1 v(1) f have "\<exists>v1 v. setupState_vec seeded_vec = Some v1 \<and> run_vec fast_run_vec v1 = Some v
       \<and> active (fasts v ! 0) \<and> f_row (fasts v ! 0) = 0
       \<and> 0 \<le> sint (f_row (fasts v ! 0)) \<and> sint (f_row (fasts v ! 0)) < int TERM_ROWS" by blast
  with 1 show ?thesis by blast
qed

end
